(* ===== verification/Go_Prelude.thy ===== *)
theory Go_Prelude
  imports Main "HOL-Library.Word" "HOL-Library.Sublist" "HOL-Library.Multiset"
begin

text \<open>
  Shared vocabulary of the development: the Go types the components use, the
  functions of Go's \<^verbatim>\<open>time\<close> and \<^verbatim>\<open>strings\<close> packages they call, generic list lemmas,
  and one locale for systems that run lists of operations and keep an invariant.

  \<^item> Go's \<^verbatim>\<open>int\<close> and \<^verbatim>\<open>int64\<close> are \<open>int\<close>; where a width matters
    (round-robin counters, saturating time differences, weights) it is written out or
    the value is a \<open>64 word\<close>. Event counters (\<^verbatim>\<open>atomic.Int64\<close>) are unbounded:
    they differ from the code only after \<open>2\<^sup>6\<^sup>3\<close> increments.
  \<^item> A \<^verbatim>\<open>time.Time\<close> is the number of nanoseconds since Go's zero time, so the zero
    value of a field is \<open>0\<close>; a \<^verbatim>\<open>time.Duration\<close> is a number of nanoseconds.
    An operation that calls \<^verbatim>\<open>time.Now()\<close> takes the reading as an argument.
  \<^item> A method that holds its mutex from entry to return is one atomic step: a function
    from the state to the result and the new state.
\<close>

section \<open>Time\<close>

type_synonym go_time = int
type_synonym duration = int

definition max_int64 :: int where
  "max_int64 = 9223372036854775807"

definition min_int64 :: int where
  "min_int64 = - 9223372036854775808"

definition Second :: duration where
  "Second = 1000000000"

definition Millisecond :: duration where
  "Millisecond = 1000000"

text \<open>\<^verbatim>\<open>time.NewTicker\<close> panics on an interval that is not positive.\<close>

definition ticker_panics :: "duration \<Rightarrow> bool" where
  "ticker_panics d \<longleftrightarrow> d \<le> 0"

text \<open>\<^verbatim>\<open>t.Sub(u)\<close>: a difference outside the range of a Duration saturates.\<close>

definition time_Sub :: "go_time \<Rightarrow> go_time \<Rightarrow> duration" where
  "time_Sub t u = max min_int64 (min max_int64 (t - u))"

lemma time_Sub_mono: "t \<le> t' \<Longrightarrow> time_Sub t u \<le> time_Sub t' u"
  by (simp add: time_Sub_def min_def max_def)

lemma time_Sub_antimono: "u \<le> u' \<Longrightarrow> time_Sub t u' \<le> time_Sub t u"
  by (simp add: time_Sub_def min_def max_def)

lemma time_Sub_self [simp]: "time_Sub t t = 0"
  by (simp add: time_Sub_def min_int64_def max_int64_def)

lemma time_Sub_nonneg: "u \<le> t \<Longrightarrow> 0 \<le> time_Sub t u"
  using time_Sub_mono [of u t u] by simp

lemma time_Sub_eq_diff: "\<bar>t - u\<bar> \<le> max_int64 \<Longrightarrow> time_Sub t u = t - u"
  by (simp add: time_Sub_def min_int64_def max_int64_def)

text \<open>For a bound that is itself a Duration the saturation is invisible.\<close>

lemma time_Sub_ge_iff: "min_int64 < d \<Longrightarrow> d \<le> max_int64 \<Longrightarrow> d \<le> time_Sub t u \<longleftrightarrow> u + d \<le> t"
  by (auto simp: time_Sub_def min_def max_def)

lemma time_Sub_gt_iff: "min_int64 \<le> d \<Longrightarrow> d < max_int64 \<Longrightarrow> d < time_Sub t u \<longleftrightarrow> u + d < t"
  by (auto simp: time_Sub_def min_def max_def)

section \<open>Integer division\<close>

text \<open>Go's \<^verbatim>\<open>/\<close> and \<^verbatim>\<open>%\<close> truncate towards zero.\<close>

definition go_div :: "int \<Rightarrow> int \<Rightarrow> int" where
  "go_div a b = sgn a * sgn b * (\<bar>a\<bar> div \<bar>b\<bar>)"

definition go_rem :: "int \<Rightarrow> int \<Rightarrow> int" where
  "go_rem a b = a - b * go_div a b"

lemma go_div_nonneg: "0 \<le> a \<Longrightarrow> 0 < b \<Longrightarrow> go_div a b = a div b"
  by (cases "a = 0") (simp_all add: go_div_def)

lemma go_rem_nonneg: "0 \<le> a \<Longrightarrow> 0 < b \<Longrightarrow> go_rem a b = a mod b"
  by (simp add: go_rem_def go_div_nonneg minus_mult_div_eq_mod)

section \<open>Hexadecimal\<close>

text \<open>\<^verbatim>\<open>hex.EncodeToString\<close>: two digits for each byte.\<close>

definition hex_table :: string where
  "hex_table = ''0123456789abcdef''"

definition hex_digit :: "nat \<Rightarrow> char" where
  "hex_digit n = hex_table ! (n mod 16)"

definition hex_EncodeToString :: "nat list \<Rightarrow> string" where
  "hex_EncodeToString bs = concat (map (\<lambda>b. [hex_digit (b div 16), hex_digit b]) bs)"

lemma hex_table: "distinct hex_table" "length hex_table = 16"
  by (simp_all add: hex_table_def)

lemma hex_digit_inj: "hex_digit m = hex_digit n \<longleftrightarrow> m mod 16 = n mod 16"
  unfolding hex_digit_def by (simp add: nth_eq_iff_index_eq hex_table)

lemma length_hex [simp]: "length (hex_EncodeToString bs) = 2 * length bs"
  by (induction bs) (auto simp: hex_EncodeToString_def)

lemma hex_byte_inj:
  assumes "a < 256" and "b < 256" and "hex_digit (a div 16) = hex_digit (b div 16)" and "hex_digit a = hex_digit b"
  shows "a = b"
proof -
  have "a div 16 < 16" "b div 16 < 16" using assms(1,2) by simp_all
  then have "a div 16 = b div 16" "a mod 16 = b mod 16" using assms(3,4) by (simp_all add: hex_digit_inj)
  then show ?thesis by (metis div_mult_mod_eq)
qed

lemma hex_Cons: "hex_EncodeToString (x # xs) = hex_digit (x div 16) # hex_digit x # hex_EncodeToString xs"
  by (simp add: hex_EncodeToString_def)

lemma hex_inj:
  assumes "\<forall>b \<in> set xs. b < 256" and "\<forall>b \<in> set ys. b < 256" and "hex_EncodeToString xs = hex_EncodeToString ys"
  shows "xs = ys"
  using assms
proof (induction xs arbitrary: ys)
  case Nil
  then show ?case by (cases ys) (simp_all add: hex_EncodeToString_def)
next
  case (Cons x xs)
  then obtain y zs where ys: "ys = y # zs" by (cases ys) (simp_all add: hex_EncodeToString_def)
  have eq: "hex_digit (x div 16) = hex_digit (y div 16)" "hex_digit x = hex_digit y" "hex_EncodeToString xs = hex_EncodeToString zs"
    using Cons.prems(3) unfolding ys hex_Cons list.inject by blast+
  have "x < 256" "y < 256" using Cons.prems(1,2) by (simp_all add: ys)
  then have "x = y" using eq(1,2) by (rule hex_byte_inj)
  moreover have "xs = zs" by (rule Cons.IH) (use Cons.prems(1,2) eq(3) in \<open>simp_all add: ys\<close>)
  ultimately show ?case by (simp add: ys)
qed

section \<open>Windows of consecutive counts\<close>

text \<open>A window of as many consecutive counts as there are entries meets every index once.\<close>

lemma mset_rotate: "mset (rotate a xs) = mset xs"
  by (metis append_take_drop_id mset_append rotate_drop_take union_commute)

lemma mset_window: "mset (map (\<lambda>j. f ((a + j) mod n)) [0..<n]) = mset (map f [0..<n])"
proof (cases "n = 0")
  case False
  have "map (\<lambda>j. f ((a + j) mod n)) [0..<n] = map f (rotate a [0..<n])"
    using False by (intro nth_equalityI) (simp_all add: nth_rotate)
  then have "mset (map (\<lambda>j. f ((a + j) mod n)) [0..<n]) = image_mset f (mset (rotate a [0..<n]))"
    by (simp only: mset_map)
  then show ?thesis unfolding mset_rotate by (simp only: mset_map)
qed simp

lemma mset_windows: "mset (map (\<lambda>j. f ((a + j) mod n)) [0..<k * n]) = repeat_mset k (mset (map f [0..<n]))"
proof (induction k)
  case (Suc k)
  have "[0..<Suc k * n] = [0..<k * n] @ map (\<lambda>j. j + k * n) [0..<n]"
    using upt_add_eq_append [of 0 "k * n" n] by (simp add: map_add_upt add.commute)
  moreover have "map (\<lambda>j. f ((a + (j + k * n)) mod n)) [0..<n] = map (\<lambda>j. f ((a + j) mod n)) [0..<n]"
    by (simp add: add.assoc [symmetric])
  ultimately have "mset (map (\<lambda>j. f ((a + j) mod n)) [0..<Suc k * n]) =
      mset (map (\<lambda>j. f ((a + j) mod n)) [0..<k * n]) + mset (map (\<lambda>j. f ((a + j) mod n)) [0..<n])"
    by (simp only: map_append map_map comp_def mset_append)
  then show ?case unfolding Suc mset_window by simp
qed simp

section \<open>Calling one operation repeatedly\<close>

fun iterate_op :: "('s \<Rightarrow> 'r \<times> 's) \<Rightarrow> nat \<Rightarrow> 's \<Rightarrow> 'r list \<times> 's" where
  "iterate_op f 0 s = ([], s)"
| "iterate_op f (Suc n) s = (let (r, s1) = f s; (rs, s2) = iterate_op f n s1 in (r # rs, s2))"

lemma iterate_op_add:
  "iterate_op f (m + n) s =
    (let (rs, s1) = iterate_op f m s; (rs', s2) = iterate_op f n s1 in (rs @ rs', s2))"
  by (induction m arbitrary: s) (simp_all add: Let_def split: prod.splits)

lemma iterate_op_snoc:
  "iterate_op f (Suc n) s =
    (let (rs, s1) = iterate_op f n s; (r, s2) = f s1 in (rs @ [r], s2))"
  using iterate_op_add [of f n 1 s] by (simp add: Let_def split: prod.splits)

text \<open>A block of calls that restores the state can be repeated.\<close>

lemma iterate_op_cycle:
  assumes "iterate_op f n s = (rs, s)"
  shows "iterate_op f (k * n) s = (concat (replicate k rs), s)"
proof (induction k)
  case (Suc k)
  have "iterate_op f (Suc k * n) s = iterate_op f (n + k * n) s" by simp
  then show ?case using Suc assms by (simp add: iterate_op_add del: mult_Suc)
qed simp

section \<open>Step relations\<close>

text \<open>
  Goroutines that run beside each other are a step relation. A component interprets the
  locale with its relation and its invariant, which then holds in every reachable state.
\<close>

locale step_system =
  fixes step :: "'s \<Rightarrow> 's \<Rightarrow> bool"
    and inv :: "'s \<Rightarrow> bool"
  assumes step_keeps: "step s s' \<Longrightarrow> inv s \<Longrightarrow> inv s'"
begin

lemma reach_keeps: "step\<^sup>*\<^sup>* s s' \<Longrightarrow> inv s \<Longrightarrow> inv s'"
  by (induction rule: rtranclp_induct) (auto intro: step_keeps)

end

section \<open>Running lists of operations\<close>

text \<open>
  An object whose methods are atomic is a step function over a type of operations.
  \<open>legal\<close> says which operations the environment may perform in a state (a clock that
  does not run backwards, arguments in range). A component interprets the locale with its
  own step function and invariant; the invariant then holds after every legal sequence of
  operations, that is, after every interleaving of the goroutines that call the methods.
\<close>

fun legal_run :: "('s \<Rightarrow> 'e \<Rightarrow> 's) \<Rightarrow> ('s \<Rightarrow> 'e \<Rightarrow> bool) \<Rightarrow> 's \<Rightarrow> 'e list \<Rightarrow> bool" where
  "legal_run step legal s [] = True"
| "legal_run step legal s (e # es) = (legal s e \<and> legal_run step legal (step s e) es)"

lemma legal_run_True [simp]: "legal_run step (\<lambda>_ _. True) s es"
  by (induction es arbitrary: s) simp_all

lemma legal_run_append:
  "legal_run step legal s (es @ fs) \<longleftrightarrow> legal_run step legal s es \<and> legal_run step legal (foldl step s es) fs"
  by (induction es arbitrary: s) simp_all

locale op_system =
  fixes step :: "'s \<Rightarrow> 'e \<Rightarrow> 's"
    and inv :: "'s \<Rightarrow> bool"
    and legal :: "'s \<Rightarrow> 'e \<Rightarrow> bool"
  assumes step_inv: "inv s \<Longrightarrow> legal s e \<Longrightarrow> inv (step s e)"
begin

lemma run_inv:
  assumes "inv s" and "legal_run step legal s es"
  shows "inv (foldl step s es)"
  using assms by (induction es arbitrary: s) (auto simp: step_inv)

text \<open>An observation that no operation changes is the same after every run.\<close>

lemma run_frame:
  assumes frame: "\<And>s e. inv s \<Longrightarrow> legal s e \<Longrightarrow> f (step s e) = f s"
    and "inv s" and "legal_run step legal s es"
  shows "f (foldl step s es) = f s"
  using assms(2,3)
proof (induction es arbitrary: s)
  case Nil
  then show ?case by simp
next
  case (Cons e es)
  then show ?case by (simp add: frame step_inv)
qed

text \<open>
  A quantity that each operation changes by at most the cost of that operation changes
  over a run by at most the sum of the costs.
\<close>

lemma run_budget:
  fixes pot :: "'s \<Rightarrow> 'n::ordered_ab_group_add"
  assumes charge: "\<And>s e. inv s \<Longrightarrow> legal s e \<Longrightarrow> pot (step s e) + gain s e \<le> pot s + cost s e"
    and gain: "\<And>s. total_gain s [] = 0"
      "\<And>s e es. total_gain s (e # es) = gain s e + total_gain (step s e) es"
    and cost: "\<And>s. total_cost s [] = 0"
      "\<And>s e es. total_cost s (e # es) = cost s e + total_cost (step s e) es"
    and "inv s" and "legal_run step legal s es"
  shows "pot (foldl step s es) + total_gain s es \<le> pot s + total_cost s es"
  using assms(6,7)
proof (induction es arbitrary: s)
  case Nil
  then show ?case by (simp add: gain cost)
next
  case (Cons e es)
  then have step: "pot (step s e) + gain s e \<le> pot s + cost s e"
    and rest: "pot (foldl step (step s e) es) + total_gain (step s e) es
      \<le> pot (step s e) + total_cost (step s e) es"
    by (simp_all add: charge step_inv)
  have "pot (foldl step (step s e) es) + (gain s e + total_gain (step s e) es)
      = gain s e + (pot (foldl step (step s e) es) + total_gain (step s e) es)"
    by (simp add: algebra_simps)
  also have "\<dots> \<le> gain s e + (pot (step s e) + total_cost (step s e) es)"
    using rest by (rule add_left_mono)
  also have "\<dots> = (pot (step s e) + gain s e) + total_cost (step s e) es"
    by (simp add: algebra_simps)
  also have "\<dots> \<le> (pot s + cost s e) + total_cost (step s e) es"
    using step by (rule add_right_mono)
  finally show ?case by (simp add: gain cost algebra_simps)
qed

end

end
