(* ===== verification/CircuitBreaker.thy ===== *)
theory CircuitBreaker
  imports Go_Prelude
begin

text \<open>
  The three-state circuit breaker of \<^verbatim>\<open>internal/circuitbreaker/circuitbreaker.go\<close>.
  Every method holds \<^verbatim>\<open>cb.mu\<close> from entry to return, so each is one function on
  the breaker's record; a \<^verbatim>\<open>time.Now()\<close> or \<^verbatim>\<open>time.Since\<close> takes the clock
  reading \<open>now\<close>. The theory shows the breaker's invariant over every interleaving
  of calls, that it refines the documented four-transition machine, when it trips, that a
  half-open burst admits exactly the configured number of probes, and what happens to
  results that arrive late.
\<close>

section \<open>Data\<close>

datatype State = StateClosed | StateOpen | StateHalfOpen

fun State_String :: "State \<Rightarrow> string" where
  "State_String StateClosed = ''closed''"
| "State_String StateOpen = ''open''"
| "State_String StateHalfOpen = ''half-open''"

text \<open>\<^verbatim>\<open>int(s)\<close>: the constants are numbered by \<^verbatim>\<open>iota\<close>.\<close>

fun State_int :: "State \<Rightarrow> int" where
  "State_int StateClosed = 0"
| "State_int StateOpen = 1"
| "State_int StateHalfOpen = 2"

datatype cb_error = ErrCircuitOpen

record cb_Config =
  FailureThreshold :: int
  SuccessThreshold :: int
  MaxHalfOpenRequests :: int
  Timeout :: duration
  Window :: duration

definition cb_DefaultConfig :: cb_Config where
  "cb_DefaultConfig = \<lparr>FailureThreshold = 5, SuccessThreshold = 1, MaxHalfOpenRequests = 0,
     Timeout = 30 * Second, Window = 60 * Second\<rparr>"

record CircuitBreaker =
  cb_config :: cb_Config
  cb_state :: State
  cb_failures :: int
  cb_successes :: int
  cb_halfOpenInFlight :: int
  cb_lastFailure :: go_time
  cb_windowStart :: go_time
  cb_totalRequests :: int
  cb_totalFailures :: int
  cb_totalSuccess :: int
  cb_totalRejected :: int

section \<open>Operations\<close>

text \<open>The defaults \<^verbatim>\<open>New\<close> fills in, one \<^verbatim>\<open>if\<close> per field, in the code's order.\<close>

definition cb_defaults :: "cb_Config \<Rightarrow> cb_Config" where
  "cb_defaults c0 =
    (let c1 = (if FailureThreshold c0 = 0 then c0\<lparr>FailureThreshold := 5\<rparr> else c0);
         c2 = (if SuccessThreshold c1 = 0 then c1\<lparr>SuccessThreshold := 1\<rparr> else c1);
         c3 = (if MaxHalfOpenRequests c2 \<le> 0
               then c2\<lparr>MaxHalfOpenRequests := SuccessThreshold c2\<rparr> else c2);
         c4 = (if Timeout c3 = 0 then c3\<lparr>Timeout := 30 * Second\<rparr> else c3);
         c5 = (if Window c4 = 0 then c4\<lparr>Window := 60 * Second\<rparr> else c4)
     in c5)"

definition cb_New :: "cb_Config \<Rightarrow> go_time \<Rightarrow> CircuitBreaker" where
  "cb_New c now = \<lparr>cb_config = cb_defaults c, cb_state = StateClosed, cb_failures = 0,
     cb_successes = 0, cb_halfOpenInFlight = 0, cb_lastFailure = 0, cb_windowStart = now,
     cb_totalRequests = 0, cb_totalFailures = 0, cb_totalSuccess = 0, cb_totalRejected = 0\<rparr>"

definition cb_Allow :: "go_time \<Rightarrow> CircuitBreaker \<Rightarrow> cb_error option \<times> CircuitBreaker" where
  "cb_Allow now cb0 =
    (let cb = cb0\<lparr>cb_totalRequests := cb_totalRequests cb0 + 1\<rparr>
     in case cb_state cb of
       StateClosed \<Rightarrow> (None, cb)
     | StateOpen \<Rightarrow>
         (if time_Sub now (cb_lastFailure cb) \<ge> Timeout (cb_config cb)
          then (None, cb\<lparr>cb_state := StateHalfOpen, cb_successes := 0, cb_halfOpenInFlight := 1\<rparr>)
          else (Some ErrCircuitOpen, cb\<lparr>cb_totalRejected := cb_totalRejected cb + 1\<rparr>))
     | StateHalfOpen \<Rightarrow>
         (if cb_halfOpenInFlight cb \<ge> MaxHalfOpenRequests (cb_config cb)
          then (Some ErrCircuitOpen, cb\<lparr>cb_totalRejected := cb_totalRejected cb + 1\<rparr>)
          else (None, cb\<lparr>cb_halfOpenInFlight := cb_halfOpenInFlight cb + 1\<rparr>)))"

definition cb_releaseProbe :: "CircuitBreaker \<Rightarrow> CircuitBreaker" where
  "cb_releaseProbe cb =
    (if cb_halfOpenInFlight cb > 0
     then cb\<lparr>cb_halfOpenInFlight := cb_halfOpenInFlight cb - 1\<rparr> else cb)"

text \<open>\<^verbatim>\<open>RecordResult(err)\<close>: \<open>None\<close> is a nil error, a success.\<close>

definition cb_RecordResult :: "go_time \<Rightarrow> 'e option \<Rightarrow> CircuitBreaker \<Rightarrow> CircuitBreaker" where
  "cb_RecordResult now err cb0 =
    (if err = None then
       (let cb = cb0\<lparr>cb_totalSuccess := cb_totalSuccess cb0 + 1\<rparr>
        in case cb_state cb of
          StateHalfOpen \<Rightarrow>
            (let cb1 = cb_releaseProbe cb;
                 cb2 = cb1\<lparr>cb_successes := cb_successes cb1 + 1\<rparr>
             in if cb_successes cb2 \<ge> SuccessThreshold (cb_config cb2)
                then cb2\<lparr>cb_state := StateClosed, cb_failures := 0, cb_successes := 0,
                         cb_halfOpenInFlight := 0, cb_windowStart := now\<rparr>
                else cb2)
        | StateClosed \<Rightarrow> cb\<lparr>cb_failures := 0\<rparr>
        | StateOpen \<Rightarrow> cb)
     else
       (let cb = cb0\<lparr>cb_totalFailures := cb_totalFailures cb0 + 1\<rparr>
        in case cb_state cb of
          StateHalfOpen \<Rightarrow>
            cb\<lparr>cb_state := StateOpen, cb_lastFailure := now, cb_successes := 0,
               cb_halfOpenInFlight := 0\<rparr>
        | StateClosed \<Rightarrow>
            (let cb1 = (if time_Sub now (cb_windowStart cb) > Window (cb_config cb)
                        then cb\<lparr>cb_windowStart := now, cb_failures := 0\<rparr> else cb);
                 cb2 = cb1\<lparr>cb_failures := cb_failures cb1 + 1, cb_lastFailure := now\<rparr>
             in if cb_failures cb2 \<ge> FailureThreshold (cb_config cb2)
                then cb2\<lparr>cb_state := StateOpen\<rparr> else cb2)
        | StateOpen \<Rightarrow> cb))"

definition cb_State :: "CircuitBreaker \<Rightarrow> State" where
  "cb_State cb = cb_state cb"

record cb_Stats =
  Stats_State :: string
  Stats_TotalRequests :: int
  Stats_TotalSuccess :: int
  Stats_TotalFailures :: int
  Stats_TotalRejected :: int

definition cb_stats :: "CircuitBreaker \<Rightarrow> cb_Stats" where
  "cb_stats cb = \<lparr>Stats_State = State_String (cb_state cb),
     Stats_TotalRequests = cb_totalRequests cb, Stats_TotalSuccess = cb_totalSuccess cb,
     Stats_TotalFailures = cb_totalFailures cb, Stats_TotalRejected = cb_totalRejected cb\<rparr>"

definition cb_Reset :: "go_time \<Rightarrow> CircuitBreaker \<Rightarrow> CircuitBreaker" where
  "cb_Reset now cb = cb\<lparr>cb_state := StateClosed, cb_failures := 0, cb_successes := 0,
     cb_halfOpenInFlight := 0, cb_windowStart := now\<rparr>"

section \<open>The invariant\<close>

text \<open>
  A timed call of one of the methods that change the breaker; the list of calls in the
  order in which they take the mutex is a run.
\<close>

datatype cb_op = CallAllow go_time | CallRecord go_time bool | CallReset go_time

fun cb_step :: "CircuitBreaker \<Rightarrow> cb_op \<Rightarrow> CircuitBreaker" where
  "cb_step cb (CallAllow now) = snd (cb_Allow now cb)"
| "cb_step cb (CallRecord now success) = cb_RecordResult now (if success then None else Some ()) cb"
| "cb_step cb (CallReset now) = cb_Reset now cb"

text \<open>
  What the code keeps true between the fields: a closed breaker has not reached its
  failure threshold, the half-open counters are zero outside half-open, and within
  half-open the number of admission slots taken is between zero and the cap.
\<close>

definition cb_inv :: "CircuitBreaker \<Rightarrow> bool" where
  "cb_inv cb \<longleftrightarrow>
     FailureThreshold (cb_config cb) > 0 \<and> SuccessThreshold (cb_config cb) > 0 \<and>
     MaxHalfOpenRequests (cb_config cb) > 0 \<and> cb_failures cb \<ge> 0 \<and>
     (cb_state cb = StateClosed \<longrightarrow> cb_failures cb < FailureThreshold (cb_config cb)) \<and>
     (cb_state cb \<noteq> StateHalfOpen \<longrightarrow> cb_halfOpenInFlight cb = 0 \<and> cb_successes cb = 0) \<and>
     (cb_state cb = StateHalfOpen \<longrightarrow>
        0 \<le> cb_halfOpenInFlight cb \<and>
        cb_halfOpenInFlight cb \<le> MaxHalfOpenRequests (cb_config cb) \<and>
        0 \<le> cb_successes cb \<and> cb_successes cb < SuccessThreshold (cb_config cb))"

text \<open>Thresholds an operator may write: \<^verbatim>\<open>New\<close> turns zero into a default.\<close>

definition cb_config_ok :: "cb_Config \<Rightarrow> bool" where
  "cb_config_ok c \<longleftrightarrow> FailureThreshold c \<ge> 0 \<and> SuccessThreshold c \<ge> 0"

lemmas cb_op_defs = cb_Allow_def cb_RecordResult_def cb_Reset_def cb_releaseProbe_def Let_def

lemma cb_defaults_positive:
  assumes "cb_config_ok c"
  shows "FailureThreshold (cb_defaults c) > 0" and "SuccessThreshold (cb_defaults c) > 0"
    and "MaxHalfOpenRequests (cb_defaults c) > 0"
  using assms by (auto simp: cb_defaults_def cb_config_ok_def Let_def)

lemma cb_New_inv: "cb_config_ok c \<Longrightarrow> cb_inv (cb_New c now)"
  by (auto simp: cb_inv_def cb_New_def cb_defaults_positive)

lemma cb_Allow_inv: "cb_inv cb \<Longrightarrow> cb_inv (snd (cb_Allow now cb))"
  by (cases "cb_state cb") (auto simp: cb_inv_def cb_op_defs)

lemma cb_RecordResult_inv: "cb_inv cb \<Longrightarrow> cb_inv (cb_RecordResult now err cb)"
  by (cases "cb_state cb"; cases err) (auto simp: cb_inv_def cb_op_defs)

lemma cb_Reset_inv: "cb_inv cb \<Longrightarrow> cb_inv (cb_Reset now cb)"
  by (auto simp: cb_inv_def cb_op_defs)

lemmas cb_inv_rules = cb_Allow_inv cb_RecordResult_inv cb_Reset_inv

lemma cb_step_inv: "cb_inv cb \<Longrightarrow> cb_inv (cb_step cb e)"
  by (cases e) (simp_all add: cb_inv_rules)

interpretation cb_sys: op_system cb_step cb_inv "\<lambda>_ _. True"
  by unfold_locales (rule cb_step_inv)

text \<open>No method writes the configuration.\<close>

lemma cb_Allow_config [simp]: "cb_config (snd (cb_Allow now cb)) = cb_config cb"
  by (cases "cb_state cb") (simp_all add: cb_op_defs)

lemma cb_RecordResult_config [simp]: "cb_config (cb_RecordResult now err cb) = cb_config cb"
  by (cases "cb_state cb") (simp_all add: cb_op_defs)

lemma cb_step_config [simp]: "cb_config (cb_step cb e) = cb_config cb"
  by (cases e) (simp_all add: cb_Reset_def)

lemma cb_run_config [simp]: "cb_config (foldl cb_step cb es) = cb_config cb"
  by (induction es arbitrary: cb) simp_all

section \<open>Refinement of the documented state machine\<close>

text \<open>
  The machine of the package comment, with in each mode only the data that mode needs:
  closed counts failures in a window, open remembers since when, half-open counts
  successes and probes in flight. Metrics and stale fields do not exist here.
\<close>

datatype breaker = Closed int go_time | Open go_time | HalfOpen int nat

fun breaker_allow :: "cb_Config \<Rightarrow> go_time \<Rightarrow> breaker \<Rightarrow> bool \<times> breaker" where
  "breaker_allow c now (Closed f w) = (True, Closed f w)"
| "breaker_allow c now (Open t) =
     (if Timeout c \<le> time_Sub now t then (True, HalfOpen 0 1) else (False, Open t))"
| "breaker_allow c now (HalfOpen s n) =
     (if int n < MaxHalfOpenRequests c then (True, HalfOpen s (Suc n)) else (False, HalfOpen s n))"

fun breaker_report :: "cb_Config \<Rightarrow> go_time \<Rightarrow> bool \<Rightarrow> breaker \<Rightarrow> breaker" where
  "breaker_report c now True (Closed f w) = Closed 0 w"
| "breaker_report c now False (Closed f w) =
     (let (f', w') = (if Window c < time_Sub now w then (0, now) else (f, w))
      in if FailureThreshold c \<le> f' + 1 then Open now else Closed (f' + 1) w')"
| "breaker_report c now success (Open t) = Open t"
| "breaker_report c now True (HalfOpen s n) =
     (if SuccessThreshold c \<le> s + 1 then Closed 0 now else HalfOpen (s + 1) (n - 1))"
| "breaker_report c now False (HalfOpen s n) = Open now"

fun breaker_step :: "cb_Config \<Rightarrow> breaker \<Rightarrow> cb_op \<Rightarrow> breaker" where
  "breaker_step c b (CallAllow now) = snd (breaker_allow c now b)"
| "breaker_step c b (CallRecord now success) = breaker_report c now success b"
| "breaker_step c b (CallReset now) = Closed 0 now"

definition cb_abs :: "CircuitBreaker \<Rightarrow> breaker" where
  "cb_abs cb = (case cb_state cb of
       StateClosed \<Rightarrow> Closed (cb_failures cb) (cb_windowStart cb)
     | StateOpen \<Rightarrow> Open (cb_lastFailure cb)
     | StateHalfOpen \<Rightarrow> HalfOpen (cb_successes cb) (nat (cb_halfOpenInFlight cb)))"

lemma cb_Allow_refines:
  assumes "cb_inv cb"
  shows "breaker_allow (cb_config cb) now (cb_abs cb)
       = (fst (cb_Allow now cb) = None, cb_abs (snd (cb_Allow now cb)))"
  using assms by (cases "cb_state cb") (auto simp: cb_abs_def cb_inv_def cb_op_defs nat_add_distrib)

lemma cb_RecordResult_refines:
  assumes "cb_inv cb"
  shows "cb_abs (cb_RecordResult now err cb)
       = breaker_report (cb_config cb) now (err = None) (cb_abs cb)"
proof (cases err)
  case None
  with assms show ?thesis
    by (cases "cb_state cb") (auto simp: cb_abs_def cb_inv_def cb_op_defs nat_diff_distrib)
next
  case (Some e)
  with assms show ?thesis
    by (cases "cb_state cb") (auto simp: cb_abs_def cb_inv_def cb_op_defs)
qed

lemma cb_step_refines:
  assumes "cb_inv cb"
  shows "cb_abs (cb_step cb e) = breaker_step (cb_config cb) (cb_abs cb) e"
proof (cases e)
  case (CallAllow now)
  with assms show ?thesis by (simp add: cb_Allow_refines)
next
  case (CallRecord now success)
  with assms show ?thesis by (simp add: cb_RecordResult_refines)
next
  case (CallReset now)
  then show ?thesis by (simp add: cb_abs_def cb_Reset_def)
qed

lemma cb_run_refines:
  assumes "cb_inv cb"
  shows "cb_abs (foldl cb_step cb es) = foldl (breaker_step (cb_config cb)) (cb_abs cb) es"
  using assms
proof (induction es arbitrary: cb)
  case Nil
  then show ?case by simp
next
  case (Cons e es)
  then show ?case by (simp add: cb_step_inv cb_step_refines)
qed

section \<open>Tripping and recovering\<close>

text \<open>A sequence of failure reports at the given times.\<close>

definition cb_failures_at :: "go_time list \<Rightarrow> cb_op list" where
  "cb_failures_at ts = map (\<lambda>t. CallRecord t False) ts"

lemma cb_failures_at_Cons [simp]:
  "cb_failures_at [] = []"
  "cb_failures_at (t # ts) = CallRecord t False # cb_failures_at ts"
  by (simp_all add: cb_failures_at_def)

lemma cb_failure_closed:
  assumes "cb_inv cb" and "cb_state cb = StateClosed"
    and "time_Sub t (cb_windowStart cb) \<le> Window (cb_config cb)"
  shows "cb_failures (cb_step cb (CallRecord t False)) = cb_failures cb + 1"
    and "cb_windowStart (cb_step cb (CallRecord t False)) = cb_windowStart cb"
    and "cb_state (cb_step cb (CallRecord t False)) =
      (if cb_failures cb + 1 \<ge> FailureThreshold (cb_config cb) then StateOpen else StateClosed)"
  using assms by (auto simp: cb_inv_def cb_op_defs)

lemma cb_record_open: "cb_state cb = StateOpen \<Longrightarrow> cb_state (cb_RecordResult t err cb) = StateOpen"
  by (cases err) (simp_all add: cb_op_defs)

lemma cb_failures_open: "cb_state cb = StateOpen \<Longrightarrow> cb_state (foldl cb_step cb (cb_failures_at ts)) = StateOpen"
  by (induction ts arbitrary: cb) (simp_all add: cb_record_open)

lemma cb_failures_trip:
  assumes "cb_inv cb" and "cb_state cb = StateClosed"
    and "\<forall>t \<in> set ts. time_Sub t (cb_windowStart cb) \<le> Window (cb_config cb)"
  shows "cb_state (foldl cb_step cb (cb_failures_at ts)) =
    (if cb_failures cb + int (length ts) \<ge> FailureThreshold (cb_config cb)
     then StateOpen else StateClosed)"
  using assms
proof (induction ts arbitrary: cb)
  case Nil
  then show ?case by (simp add: cb_inv_def)
next
  case (Cons t ts)
  let ?cb = "cb_step cb (CallRecord t False)"
  from Cons.prems have t: "time_Sub t (cb_windowStart cb) \<le> Window (cb_config cb)" by simp
  note step = cb_failure_closed [OF Cons.prems(1,2) t]
  show ?case
  proof (cases "cb_state ?cb = StateClosed")
    case True
    have "cb_state (foldl cb_step ?cb (cb_failures_at ts)) =
        (if cb_failures ?cb + int (length ts) \<ge> FailureThreshold (cb_config ?cb)
         then StateOpen else StateClosed)"
    proof (rule Cons.IH)
      show "cb_inv ?cb" by (rule cb_step_inv) (rule Cons.prems(1))
      show "cb_state ?cb = StateClosed" by (rule True)
      show "\<forall>t\<in>set ts. time_Sub t (cb_windowStart ?cb) \<le> Window (cb_config ?cb)"
        using Cons.prems(3) by (simp add: step(2) del: cb_step.simps)
    qed
    then show ?thesis by (simp add: step(1) algebra_simps del: cb_step.simps)
  next
    case False
    with step(3) have "cb_state ?cb = StateOpen"
      and "cb_failures cb + 1 \<ge> FailureThreshold (cb_config cb)"
      by (auto split: if_splits simp del: cb_step.simps)
    then show ?thesis by (simp add: cb_failures_open del: cb_step.simps)
  qed
qed

section \<open>Bursts of callers\<close>

text \<open>A burst: callers that reach \<^verbatim>\<open>Allow\<close> one after the other, none reporting in between.\<close>

fun cb_burst :: "go_time list \<Rightarrow> CircuitBreaker \<Rightarrow> cb_error option list \<times> CircuitBreaker" where
  "cb_burst [] cb = ([], cb)"
| "cb_burst (t # ts) cb =
     (let (r, cb1) = cb_Allow t cb; (rs, cb2) = cb_burst ts cb1 in (r # rs, cb2))"

definition cb_admitted :: "go_time list \<Rightarrow> CircuitBreaker \<Rightarrow> nat" where
  "cb_admitted ts cb = length (filter (\<lambda>r. r = None) (fst (cb_burst ts cb)))"

lemma cb_admitted_Nil [simp]: "cb_admitted [] cb = 0"
  by (simp add: cb_admitted_def)

lemma cb_admitted_Cons [simp]:
  "cb_admitted (t # ts) cb =
    (if fst (cb_Allow t cb) = None then 1 else 0) + cb_admitted ts (snd (cb_Allow t cb))"
  by (simp add: cb_admitted_def split: prod.splits)

text \<open>Half-open admits what is left of the cap, however many callers arrive and when.\<close>

lemma cb_burst_halfopen:
  assumes "cb_inv cb" and "cb_state cb = StateHalfOpen"
  shows "cb_admitted ts cb =
    min (length ts) (nat (MaxHalfOpenRequests (cb_config cb) - cb_halfOpenInFlight cb))"
  using assms
proof (induction ts arbitrary: cb)
  case Nil
  then show ?case by simp
next
  case (Cons t ts)
  let ?cb = "snd (cb_Allow t cb)"
  have "cb_state ?cb = StateHalfOpen"
    using Cons.prems(2) by (auto simp: cb_op_defs)
  then have IH: "cb_admitted ts ?cb =
      min (length ts) (nat (MaxHalfOpenRequests (cb_config cb) - cb_halfOpenInFlight ?cb))"
    using Cons.IH [of ?cb] Cons.prems(1) by (simp add: cb_Allow_inv)
  have "cb_halfOpenInFlight cb \<le> MaxHalfOpenRequests (cb_config cb)"
    using Cons.prems by (simp add: cb_inv_def)
  with IH show ?case
    using Cons.prems(2) by (auto simp: cb_op_defs)
qed

section \<open>Callers: who holds the admission slots\<close>

text \<open>
  The documented usage: a caller that \<^verbatim>\<open>Allow\<close> admits performs its request and
  later reports once with \<^verbatim>\<open>RecordResult\<close>. A ticket remembers how the caller got in:
  \<open>None\<close> while closed, \<open>Some e\<close> as a probe of the \<open>e\<close>-th half-open episode.
  \<open>may_report\<close> is the environment's assumption on which outstanding caller reports.
\<close>

type_synonym ticket = "nat option"

record cb_world =
  w_cb :: CircuitBreaker
  w_episode :: nat
  w_tickets :: "ticket list"

definition w_init :: "cb_Config \<Rightarrow> go_time \<Rightarrow> cb_world" where
  "w_init c now = \<lparr>w_cb = cb_New c now, w_episode = 0, w_tickets = []\<rparr>"

definition w_allow :: "go_time \<Rightarrow> cb_world \<Rightarrow> cb_world" where
  "w_allow now w =
    (let (r, cb) = cb_Allow now (w_cb w);
         e = (if cb_state (w_cb w) = StateOpen \<and> cb_state cb = StateHalfOpen
              then Suc (w_episode w) else w_episode w);
         tk = (if cb_state cb = StateHalfOpen then Some e else None)
     in \<lparr>w_cb = cb, w_episode = e,
         w_tickets = (if r = None then tk # w_tickets w else w_tickets w)\<rparr>)"

definition w_report :: "go_time \<Rightarrow> bool \<Rightarrow> ticket \<Rightarrow> cb_world \<Rightarrow> cb_world" where
  "w_report now success tk w =
    w\<lparr>w_cb := cb_RecordResult now (if success then None else Some ()) (w_cb w),
      w_tickets := remove1 tk (w_tickets w)\<rparr>"

inductive calls :: "(cb_world \<Rightarrow> ticket \<Rightarrow> bool) \<Rightarrow> cb_Config \<Rightarrow> cb_world \<Rightarrow> bool"
  for may_report c where
  calls_init: "calls may_report c (w_init c now)"
| calls_allow: "calls may_report c w \<Longrightarrow> calls may_report c (w_allow now w)"
| calls_report: "calls may_report c w \<Longrightarrow> tk \<in> set (w_tickets w) \<Longrightarrow> may_report w tk \<Longrightarrow>
    calls may_report c (w_report now success tk w)"

text \<open>The probes of the current half-open episode that have not reported.\<close>

definition episode_probes :: "cb_world \<Rightarrow> nat" where
  "episode_probes w = count_list (w_tickets w) (Some (w_episode w))"

text \<open>
  The assumption under which the counter is exact: while the breaker is half-open, the
  only callers that report are probes of the current episode.
\<close>

definition current_probes_only :: "cb_world \<Rightarrow> ticket \<Rightarrow> bool" where
  "current_probes_only w tk \<longleftrightarrow>
     (cb_state (w_cb w) = StateHalfOpen \<longrightarrow> tk = Some (w_episode w))"

definition w_inv :: "cb_world \<Rightarrow> bool" where
  "w_inv w \<longleftrightarrow> cb_inv (w_cb w) \<and>
     (\<forall>e. Some e \<in> set (w_tickets w) \<longrightarrow> e \<le> w_episode w) \<and>
     (cb_state (w_cb w) = StateHalfOpen \<longrightarrow>
        int (episode_probes w) = cb_halfOpenInFlight (w_cb w))"

lemma w_init_inv: "cb_config_ok c \<Longrightarrow> w_inv (w_init c now)"
  by (simp add: w_inv_def w_init_def cb_New_inv) (simp add: cb_New_def)

lemma w_allow_inv:
  assumes "w_inv w"
  shows "w_inv (w_allow now w)"
proof -
  have fresh: "Some (Suc (w_episode w)) \<notin> set (w_tickets w)"
    using assms by (auto simp: w_inv_def)
  have "cb_inv (snd (cb_Allow now (w_cb w)))"
    using assms by (simp add: w_inv_def cb_Allow_inv)
  then show ?thesis
    using assms fresh
    by (cases "cb_state (w_cb w)")
      (auto simp: w_inv_def w_allow_def episode_probes_def cb_op_defs count_list_0_iff le_SucI)
qed

lemma count_list_remove1:
  "count_list (remove1 x xs) y = count_list xs y - (if x = y then 1 else 0)"
  by (induction xs) (auto simp: count_list_0_iff)

lemma w_report_inv:
  assumes "w_inv w" and "tk \<in> set (w_tickets w)" and "current_probes_only w tk"
  shows "w_inv (w_report now success tk w)"
proof -
  let ?cb = "cb_RecordResult now (if success then None else Some ()) (w_cb w)"
  have "cb_inv ?cb"
    using assms(1) by (simp add: w_inv_def cb_RecordResult_inv)
  moreover have "\<forall>e. Some e \<in> set (remove1 tk (w_tickets w)) \<longrightarrow> e \<le> w_episode w"
    using assms(1) by (auto simp: w_inv_def dest: notin_set_remove1 [THEN contrapos_nn])
  moreover have "int (count_list (remove1 tk (w_tickets w)) (Some (w_episode w)))
      = cb_halfOpenInFlight ?cb" if "cb_state ?cb = StateHalfOpen"
  proof -
    from that have half: "cb_state (w_cb w) = StateHalfOpen" and "success"
      by (cases "cb_state (w_cb w)"; cases success; simp add: cb_op_defs split: if_splits)+
    then have tk: "tk = Some (w_episode w)"
      using assms(3) by (simp add: current_probes_only_def)
    then have "0 < count_list (w_tickets w) (Some (w_episode w))"
      using assms(2) by (simp add: count_list_0_iff neq0_conv [symmetric] del: neq0_conv)
    with that half \<open>success\<close> tk assms(1) show ?thesis
      by (auto simp: w_inv_def episode_probes_def count_list_remove1 cb_op_defs split: if_splits)
  qed
  ultimately show ?thesis
    by (simp add: w_inv_def w_report_def episode_probes_def)
qed

lemma calls_inv:
  assumes "calls current_probes_only c w" and "cb_config_ok c"
  shows "w_inv w"
  using assms
proof (induction rule: calls.induct)
  case (calls_init now)
  then show ?case by (simp add: w_init_inv)
next
  case (calls_allow w now)
  then show ?case by (simp add: w_allow_inv)
next
  case (calls_report w tk now success)
  then show ?case by (simp add: w_report_inv)
qed

lemma w_allow_cb: "w_cb (w_allow now w) = snd (cb_Allow now (w_cb w))"
  by (simp add: w_allow_def Let_def split: prod.splits)

lemma calls_config:
  assumes "calls P c w"
  shows "cb_config (w_cb w) = cb_defaults c"
  using assms
proof (induction rule: calls.induct)
  case (calls_init now)
  then show ?case by (simp add: w_init_def cb_New_def)
next
  case (calls_allow w now)
  then show ?case by (simp add: w_allow_cb)
next
  case (calls_report w tk now success)
  then show ?case by (simp add: w_report_def)
qed

section \<open>Properties\<close>

text \<open>From a breaker built by \<^verbatim>\<open>New\<close> with non-negative thresholds, every
  sequence of \<^verbatim>\<open>Allow\<close>, \<^verbatim>\<open>RecordResult\<close> and \<^verbatim>\<open>Reset\<close> calls, at any times and
  from any callers, keeps the invariant: closed means below the failure threshold, and the
  half-open slot counter stays between zero and \<^verbatim>\<open>MaxHalfOpenRequests\<close>.\<close>

theorem cb_run_invariant:
  assumes "cb_config_ok c"
  shows "cb_inv (foldl cb_step (cb_New c t0) es)"
  using cb_sys.run_inv [OF cb_New_inv [OF assms]] by simp

theorem cb_run_invariant_witness:
  "cb_inv (foldl cb_step (cb_New cb_DefaultConfig 7)
     [CallRecord 8 False, CallAllow 9, CallReset 10])"
proof -
  have "cb_config_ok cb_DefaultConfig" by (simp add: cb_config_ok_def cb_DefaultConfig_def)
  then show ?thesis by (rule cb_run_invariant)
qed

text \<open>C2: the breaker refines the documented machine: after any run of calls, its
  abstraction is the state the four-transition specification reaches on the same calls,
  and the next \<^verbatim>\<open>Allow\<close> admits exactly when the specification does.\<close>

theorem cb_refines_documented_machine:
  assumes "cb_config_ok c"
    and cb_def: "cb = foldl cb_step (cb_New c t0) es"
    and spec_def: "spec = foldl (breaker_step (cb_defaults c)) (Closed 0 t0) es"
  shows "cb_abs cb = spec \<and>
      (fst (cb_Allow now cb) = None \<longleftrightarrow> fst (breaker_allow (cb_defaults c) now spec))"
proof -
  have inv: "cb_inv (cb_New c t0)" using assms(1) by (rule cb_New_inv)
  have new: "cb_config (cb_New c t0) = cb_defaults c" "cb_abs (cb_New c t0) = Closed 0 t0"
    by (simp_all add: cb_New_def cb_abs_def)
  have run: "cb_abs cb = spec"
    using cb_run_refines [OF inv] by (simp add: new cb_def spec_def)
  have "cb_inv cb"
    using cb_sys.run_inv [OF inv] by (simp add: cb_def)
  from cb_Allow_refines [OF this, of now] run show ?thesis
    by (simp add: cb_def new)
qed

theorem cb_refines_documented_machine_witness:
  "cb_abs (foldl cb_step (cb_New cb_DefaultConfig 0)
      [CallRecord 1 False, CallRecord 2 False, CallRecord 3 False, CallRecord 4 False,
       CallRecord 5 False, CallAllow 30000000005]) = HalfOpen 0 1"
proof -
  have "cb_config_ok cb_DefaultConfig" by (simp add: cb_config_ok_def cb_DefaultConfig_def)
  from cb_refines_documented_machine [OF this refl refl, of 0
      "[CallRecord 1 False, CallRecord 2 False, CallRecord 3 False, CallRecord 4 False,
       CallRecord 5 False, CallAllow 30000000005]"]
  show ?thesis
    by (simp add: cb_defaults_def cb_DefaultConfig_def Second_def time_Sub_def
        min_int64_def max_int64_def)
qed

text \<open>A closed breaker that receives failures within its window trips exactly when
  the count reaches \<^verbatim>\<open>FailureThreshold\<close>: it is open after \<open>n\<close> further failures
  if and only if the failures so far plus \<open>n\<close> reach the threshold.\<close>

theorem cb_trips_at_threshold:
  assumes "cb_inv cb" and "cb_state cb = StateClosed"
    and "\<forall>t \<in> set ts. time_Sub t (cb_windowStart cb) \<le> Window (cb_config cb)"
  shows "cb_state (foldl cb_step cb (cb_failures_at ts)) =
    (if cb_failures cb + int (length ts) \<ge> FailureThreshold (cb_config cb)
     then StateOpen else StateClosed)"
  using assms by (rule cb_failures_trip)

theorem cb_trips_at_threshold_witness:
  "cb_state (foldl cb_step (cb_New cb_DefaultConfig 0) (cb_failures_at [1, 2, 3, 4])) = StateClosed \<and>
   cb_state (foldl cb_step (cb_New cb_DefaultConfig 0) (cb_failures_at [1, 2, 3, 4, 5])) = StateOpen"
proof -
  have "cb_config_ok cb_DefaultConfig" by (simp add: cb_config_ok_def cb_DefaultConfig_def)
  then have inv: "cb_inv (cb_New cb_DefaultConfig 0)" by (rule cb_New_inv)
  have closed: "cb_state (cb_New cb_DefaultConfig 0) = StateClosed" by (simp add: cb_New_def)
  show ?thesis
    using cb_trips_at_threshold [OF inv closed, of "[1, 2, 3, 4]"]
      cb_trips_at_threshold [OF inv closed, of "[1, 2, 3, 4, 5]"]
    by (simp add: cb_New_def cb_defaults_def cb_DefaultConfig_def Second_def time_Sub_def
        min_int64_def max_int64_def)
qed

text \<open>When the timeout of an open breaker has elapsed and any number of callers
  arrive before one of them reports, exactly \<^verbatim>\<open>MaxHalfOpenRequests\<close> of them (or all,
  if fewer arrive) are admitted; every other caller gets \<^verbatim>\<open>ErrCircuitOpen\<close>.\<close>

theorem cb_burst_admits_cap:
  assumes "cb_inv cb" and "cb_state cb = StateOpen"
    and "Timeout (cb_config cb) \<le> time_Sub t (cb_lastFailure cb)"
  shows "cb_admitted (t # ts) cb =
    min (Suc (length ts)) (nat (MaxHalfOpenRequests (cb_config cb)))"
proof -
  let ?cb = "snd (cb_Allow t cb)"
  have first: "fst (cb_Allow t cb) = None" "cb_state ?cb = StateHalfOpen" "cb_halfOpenInFlight ?cb = 1"
    using assms(2,3) by (simp_all add: cb_op_defs)
  have "MaxHalfOpenRequests (cb_config cb) > 0"
    using assms(1) by (simp add: cb_inv_def)
  then show ?thesis
    using cb_burst_halfopen [OF cb_Allow_inv [OF assms(1)] first(2), of ts]
    by (simp add: first nat_diff_distrib)
qed

theorem cb_burst_admits_cap_witness:
  "cb_admitted [100, 100, 100, 100]
     (foldl cb_step (cb_New \<lparr>FailureThreshold = 1, SuccessThreshold = 2, MaxHalfOpenRequests = 0,
        Timeout = 10, Window = 0\<rparr> 0) [CallRecord 1 False]) = 2"
proof -
  let ?c = "\<lparr>FailureThreshold = 1, SuccessThreshold = 2, MaxHalfOpenRequests = 0,
    Timeout = 10, Window = 0\<rparr>"
  let ?cb = "foldl cb_step (cb_New ?c 0) [CallRecord 1 False]"
  have "cb_inv ?cb"
    using cb_step_inv [OF cb_New_inv [of ?c 0]] by (simp add: cb_config_ok_def del: cb_step.simps)
  from cb_burst_admits_cap [OF this, of 100 "[100, 100, 100]"] show ?thesis
    by (simp add: cb_New_def cb_defaults_def cb_op_defs time_Sub_def min_int64_def max_int64_def
        Second_def del: cb_admitted_Cons)
qed

text \<open>C28: one half-open period of a breaker, in any interleaving of callers in which only its own
  probes report while it lasts. The slots taken are exactly the probes admitted in this period that
  have not reported, there are never more of them than \<^verbatim>\<open>MaxHalfOpenRequests\<close>, and the next call is
  admitted exactly when there are fewer. Probes that a failure abandoned in an earlier period are not
  among them.\<close>

theorem episode_probes_capped:
  assumes "calls current_probes_only c w" and "cb_config_ok c"
    and "cb_state (w_cb w) = StateHalfOpen"
  shows "cb_halfOpenInFlight (w_cb w) = int (episode_probes w) \<and>
    int (episode_probes w) \<le> MaxHalfOpenRequests (cb_defaults c) \<and>
    (fst (cb_Allow now (w_cb w)) = None \<longleftrightarrow> int (episode_probes w) < MaxHalfOpenRequests (cb_defaults c))"
proof -
  have inv: "w_inv w" by (rule calls_inv [OF assms(1,2)])
  have conf: "cb_config (w_cb w) = cb_defaults c" by (rule calls_config [OF assms(1)])
  have n: "cb_halfOpenInFlight (w_cb w) = int (episode_probes w)" using inv assms(3) by (simp add: w_inv_def)
  have "int (episode_probes w) \<le> MaxHalfOpenRequests (cb_defaults c)"
    using inv conf assms(3) by (auto simp: w_inv_def cb_inv_def)
  moreover have "fst (cb_Allow now (w_cb w)) = None \<longleftrightarrow> int (episode_probes w) < MaxHalfOpenRequests (cb_defaults c)"
    using assms(3) by (simp add: cb_Allow_def n conf Let_def)
  ultimately show ?thesis using n by simp
qed

definition example_config :: cb_Config where
  "example_config = \<lparr>FailureThreshold = 1, SuccessThreshold = 2, MaxHalfOpenRequests = 1,
     Timeout = 10, Window = 60\<rparr>"

text \<open>Two callers enter while closed; one fails and trips the breaker; after the timeout a
  probe is admitted.\<close>

definition example_halfopen :: cb_world where
  "example_halfopen = w_allow 20 (w_report 3 False None (w_allow 2 (w_allow 1 (w_init example_config 0))))"

lemma example_halfopen_calls:
  assumes "\<And>w tk. cb_state (w_cb w) \<noteq> StateHalfOpen \<Longrightarrow> P w tk"
  shows "calls P example_config example_halfopen"
  unfolding example_halfopen_def
  by (rule calls_allow, rule calls_report, (rule calls_allow)+, rule calls_init)
    (auto simp: w_allow_def w_init_def cb_New_def cb_op_defs intro: assms)

lemmas example_eval = example_halfopen_def example_config_def w_allow_def w_report_def w_init_def
  cb_New_def cb_defaults_def cb_op_defs time_Sub_def min_int64_def max_int64_def

theorem episode_probes_capped_witness:
  "cb_state (w_cb example_halfopen) = StateHalfOpen \<and> episode_probes example_halfopen = 1 \<and>
    fst (cb_Allow 21 (w_cb example_halfopen)) = Some ErrCircuitOpen"
proof -
  have half: "cb_state (w_cb example_halfopen) = StateHalfOpen"
    by (simp add: example_eval)
  have ok: "cb_config_ok example_config"
    by (simp add: cb_config_ok_def example_config_def)
  have "calls current_probes_only example_config example_halfopen"
    by (rule example_halfopen_calls) (simp add: current_probes_only_def)
  note capped = episode_probes_capped [OF this ok half, of 21]
  have one: "episode_probes example_halfopen = 1" by (simp add: example_eval episode_probes_def)
  have "fst (cb_Allow 21 (w_cb example_halfopen)) \<noteq> None"
    using capped one by (simp add: cb_defaults_def example_config_def)
  then show ?thesis using half one by (cases "fst (cb_Allow 21 (w_cb example_halfopen))") (auto intro: cb_error.exhaust)
qed

text \<open>Without that assumption the cap is broken. A request admitted while the breaker
  was closed may report during half-open; its success releases a slot it never took, so a
  second probe is admitted while the first is still in flight, although
  \<^verbatim>\<open>MaxHalfOpenRequests\<close> is one.\<close>

theorem late_result_exceeds_cap:
  "\<exists>w. calls (\<lambda>_ _. True) example_config w \<and> cb_state (w_cb w) = StateHalfOpen \<and>
       int (episode_probes w) = 2 \<and> MaxHalfOpenRequests (cb_config (w_cb w)) = 1"
proof -
  let ?w = "w_allow 22 (w_report 21 True None example_halfopen)"
  have "calls (\<lambda>_ _. True) example_config ?w"
    by (rule calls_allow, rule calls_report, rule example_halfopen_calls)
      (simp_all add: example_eval)
  moreover have "cb_state (w_cb ?w) = StateHalfOpen" "int (episode_probes ?w) = 2"
    "MaxHalfOpenRequests (cb_config (w_cb ?w)) = 1"
    by (simp_all add: example_eval episode_probes_def)
  ultimately show ?thesis by blast
qed

text \<open>And the cap is one per half-open period. A probe that is still waiting when another one fails
  keeps its connection to the backend, but its slot is free again in the next period: with two slots,
  three probes are in flight, although none but the current probes ever reported.\<close>

definition abandoned_config :: cb_Config where
  "abandoned_config = example_config\<lparr>MaxHalfOpenRequests := 2\<rparr>"

definition abandoned_probe :: cb_world where
  "abandoned_probe = w_allow 41 (w_allow 40 (w_report 22 False (Some 1) (w_allow 21 (w_allow 20
     (w_report 3 False None (w_allow 1 (w_init abandoned_config 0)))))))"

theorem abandoned_probes_exceed_cap:
  "calls current_probes_only abandoned_config abandoned_probe \<and> cb_state (w_cb abandoned_probe) = StateHalfOpen \<and>
    w_tickets abandoned_probe = [Some 2, Some 2, Some 1] \<and> MaxHalfOpenRequests (cb_config (w_cb abandoned_probe)) = 2"
proof -
  have "calls current_probes_only abandoned_config abandoned_probe"
    unfolding abandoned_probe_def
    by (rule calls_allow, rule calls_allow, rule calls_report, rule calls_allow, rule calls_allow, rule calls_report,
        rule calls_allow, rule calls_init)
      (simp_all add: example_eval abandoned_config_def current_probes_only_def)
  then show ?thesis by (simp add: example_eval abandoned_config_def abandoned_probe_def)
qed

end
