(* ===== verification/RateLimiter.thy ===== *)
theory RateLimiter
  imports Complex_Main Go_Prelude
begin

text \<open>
  The token bucket of \<^verbatim>\<open>internal/ratelimiter/ratelimiter.go\<close>. Every method holds
  \<^verbatim>\<open>tb.mu\<close>, so each is one function on the record. The bucket computes in
  \<^verbatim>\<open>float64\<close>: a \<^verbatim>\<open>float64\<close> is a rational number, and each arithmetic operation is the
  exact rational operation followed by the rounding \<open>rnd\<close>, an argument of the
  definitions. \<open>float_rounding\<close> states what IEEE 754 gives for round-to-nearest on finite
  values: monotone, idempotent, exact on integers of at most 53 bits, and off by at most a
  relative and an absolute error \<open>u\<close>. Infinities and NaN are not modelled.
\<close>

section \<open>Floating point\<close>

definition float_rounding :: "rat \<Rightarrow> (rat \<Rightarrow> rat) \<Rightarrow> bool" where
  "float_rounding u rnd \<longleftrightarrow> 0 \<le> u \<and> u \<le> 1 \<and>
     (\<forall>x y. x \<le> y \<longrightarrow> rnd x \<le> rnd y) \<and> (\<forall>x. rnd (rnd x) = rnd x) \<and>
     (\<forall>n::int. \<bar>n\<bar> \<le> 2 ^ 53 \<longrightarrow> rnd (of_int n) = of_int n) \<and>
     (\<forall>x. 0 \<le> x \<longrightarrow> rnd x \<le> (1 + u) * x + u)"

lemma float_rounding_id: "float_rounding 0 (\<lambda>x. x)"
  by (simp add: float_rounding_def)

lemma float_rounding_zero: "float_rounding u rnd \<Longrightarrow> rnd 0 = 0"
  unfolding float_rounding_def by (metis abs_zero of_int_0 zero_le_numeral zero_le_power)

lemma float_rounding_nonneg:
  assumes "float_rounding u rnd" and "0 \<le> x"
  shows "0 \<le> rnd x"
  using assms float_rounding_zero [OF assms(1)] unfolding float_rounding_def by metis

lemma float_rounding_le:
  assumes "float_rounding u rnd" and "0 \<le> x" and "x \<le> y"
  shows "rnd x \<le> (1 + u) * y + u"
proof -
  have "rnd x \<le> (1 + u) * x + u"
    using assms(1,2) by (simp add: float_rounding_def)
  also have "\<dots> \<le> (1 + u) * y + u"
    using assms by (simp add: float_rounding_def mult_left_mono)
  finally show ?thesis .
qed

text \<open>\<^verbatim>\<open>Duration.Seconds()\<close>: whole seconds and the nanosecond remainder, converted and
  added in \<^verbatim>\<open>float64\<close>.\<close>

definition Seconds :: "(rat \<Rightarrow> rat) \<Rightarrow> duration \<Rightarrow> rat" where
  "Seconds rnd d =
    rnd (rnd (of_int (go_div d Second)) + rnd (rnd (of_int (go_rem d Second)) / 1000000000))"

section \<open>The bucket\<close>

record TokenBucket =
  tb_rate :: rat
  tb_capacity :: rat
  tb_tokens :: rat
  tb_lastFill :: go_time
  tb_totalAllowed :: int
  tb_totalDenied :: int

definition NewTokenBucket :: "(rat \<Rightarrow> rat) \<Rightarrow> rat \<Rightarrow> int \<Rightarrow> go_time \<Rightarrow> TokenBucket" where
  "NewTokenBucket rnd rate0 burst0 now =
    (let rate = (if rate0 \<le> 0 then 1 else rate0);
         burst = (if burst0 \<le> 0 then 1 else burst0)
     in \<lparr>tb_rate = rate, tb_capacity = rnd (of_int burst), tb_tokens = rnd (of_int burst),
         tb_lastFill = now, tb_totalAllowed = 0, tb_totalDenied = 0\<rparr>)"

definition tb_refill :: "(rat \<Rightarrow> rat) \<Rightarrow> go_time \<Rightarrow> TokenBucket \<Rightarrow> TokenBucket" where
  "tb_refill rnd now tb =
    (let elapsed = Seconds rnd (time_Sub now (tb_lastFill tb));
         tokens = rnd (tb_tokens tb + rnd (tb_rate tb * elapsed));
         tokens' = (if tokens > tb_capacity tb then tb_capacity tb else tokens)
     in tb\<lparr>tb_tokens := tokens', tb_lastFill := now\<rparr>)"

definition tb_AllowN :: "(rat \<Rightarrow> rat) \<Rightarrow> go_time \<Rightarrow> int \<Rightarrow> TokenBucket \<Rightarrow> bool \<times> TokenBucket" where
  "tb_AllowN rnd now n tb0 =
    (let tb = tb_refill rnd now tb0
     in if tb_tokens tb \<ge> rnd (of_int n)
        then (True, tb\<lparr>tb_tokens := rnd (tb_tokens tb - rnd (of_int n)),
                       tb_totalAllowed := tb_totalAllowed tb + 1\<rparr>)
        else (False, tb\<lparr>tb_totalDenied := tb_totalDenied tb + 1\<rparr>))"

definition tb_Allow :: "(rat \<Rightarrow> rat) \<Rightarrow> go_time \<Rightarrow> TokenBucket \<Rightarrow> bool \<times> TokenBucket" where
  "tb_Allow rnd now tb = tb_AllowN rnd now 1 tb"

record tb_Stats =
  Stats_Rate :: rat
  Stats_Capacity :: rat
  Stats_Tokens :: rat
  Stats_TotalAllowed :: int
  Stats_TotalDenied :: int

definition tb_stats :: "(rat \<Rightarrow> rat) \<Rightarrow> go_time \<Rightarrow> TokenBucket \<Rightarrow> tb_Stats \<times> TokenBucket" where
  "tb_stats rnd now tb0 =
    (let tb = tb_refill rnd now tb0
     in (\<lparr>Stats_Rate = tb_rate tb, Stats_Capacity = tb_capacity tb, Stats_Tokens = tb_tokens tb,
          Stats_TotalAllowed = tb_totalAllowed tb, Stats_TotalDenied = tb_totalDenied tb\<rparr>, tb))"

definition tb_SetRate :: "(rat \<Rightarrow> rat) \<Rightarrow> go_time \<Rightarrow> rat \<Rightarrow> TokenBucket \<Rightarrow> TokenBucket" where
  "tb_SetRate rnd now rate tb =
    (if rate \<le> 0 then tb else (tb_refill rnd now tb)\<lparr>tb_rate := rate\<rparr>)"

definition tb_Reset :: "go_time \<Rightarrow> TokenBucket \<Rightarrow> TokenBucket" where
  "tb_Reset now tb = tb\<lparr>tb_tokens := tb_capacity tb, tb_lastFill := now\<rparr>"

section \<open>Runs and the invariant\<close>

datatype tb_op = TbAllowN go_time int | TbStats go_time | TbSetRate go_time rat | TbReset go_time

fun tb_step :: "(rat \<Rightarrow> rat) \<Rightarrow> TokenBucket \<Rightarrow> tb_op \<Rightarrow> TokenBucket" where
  "tb_step rnd tb (TbAllowN now n) = snd (tb_AllowN rnd now n tb)"
| "tb_step rnd tb (TbStats now) = snd (tb_stats rnd now tb)"
| "tb_step rnd tb (TbSetRate now r) = tb_SetRate rnd now r tb"
| "tb_step rnd tb (TbReset now) = tb_Reset now tb"

text \<open>The clock is monotonic and a request asks for a positive number of tokens of at most
  53 bits (the code only ever asks for one).\<close>

fun tb_legal :: "TokenBucket \<Rightarrow> tb_op \<Rightarrow> bool" where
  "tb_legal tb (TbAllowN now n) = (tb_lastFill tb \<le> now \<and> 0 \<le> n \<and> n \<le> 2 ^ 53)"
| "tb_legal tb (TbStats now) = (tb_lastFill tb \<le> now)"
| "tb_legal tb (TbSetRate now r) = (tb_lastFill tb \<le> now)"
| "tb_legal tb (TbReset now) = (tb_lastFill tb \<le> now)"

definition tb_inv :: "(rat \<Rightarrow> rat) \<Rightarrow> TokenBucket \<Rightarrow> bool" where
  "tb_inv rnd tb \<longleftrightarrow> 0 < tb_rate tb \<and> rnd (tb_capacity tb) = tb_capacity tb \<and>
     0 \<le> tb_tokens tb \<and> tb_tokens tb \<le> tb_capacity tb"

lemma Seconds_nonneg:
  assumes "float_rounding u rnd" and "0 \<le> d"
  shows "0 \<le> Seconds rnd d"
  using assms unfolding Seconds_def
  by (intro float_rounding_nonneg [OF assms(1)] add_nonneg_nonneg divide_nonneg_nonneg)
    (simp_all add: Second_def go_div_nonneg go_rem_nonneg pos_imp_zdiv_nonneg_iff)

lemma tb_refill_inv:
  assumes fr: "float_rounding u rnd" and "tb_inv rnd tb" and "tb_lastFill tb \<le> now"
  shows "tb_inv rnd (tb_refill rnd now tb)"
proof -
  have "0 \<le> Seconds rnd (time_Sub now (tb_lastFill tb))"
    using fr assms(3) by (simp add: Seconds_nonneg time_Sub_nonneg)
  then have "0 \<le> rnd (tb_tokens tb + rnd (tb_rate tb * Seconds rnd (time_Sub now (tb_lastFill tb))))"
    using assms(2) by (intro float_rounding_nonneg [OF fr] add_nonneg_nonneg)
      (simp_all add: tb_inv_def)
  then show ?thesis
    using assms(2) by (auto simp: tb_inv_def tb_refill_def Let_def)
qed

lemma tb_refill_frame [simp]:
  "tb_rate (tb_refill rnd now tb) = tb_rate tb"
  "tb_capacity (tb_refill rnd now tb) = tb_capacity tb"
  "tb_lastFill (tb_refill rnd now tb) = now"
  "tb_totalAllowed (tb_refill rnd now tb) = tb_totalAllowed tb"
  "tb_totalDenied (tb_refill rnd now tb) = tb_totalDenied tb"
  by (simp_all add: tb_refill_def Let_def)

lemma NewTokenBucket_inv:
  assumes "float_rounding u rnd"
  shows "tb_inv rnd (NewTokenBucket rnd r b now)"
proof -
  have "0 \<le> rnd (of_int (if b \<le> 0 then 1 else b))"
    by (rule float_rounding_nonneg [OF assms]) simp
  moreover have "rnd (rnd x) = rnd x" for x
    using assms by (simp add: float_rounding_def)
  ultimately show ?thesis
    by (simp add: NewTokenBucket_def tb_inv_def Let_def)
qed

lemma tb_AllowN_inv:
  assumes fr: "float_rounding u rnd" and "tb_inv rnd tb" and "tb_lastFill tb \<le> now" and "0 \<le> n"
  shows "tb_inv rnd (snd (tb_AllowN rnd now n tb))"
proof -
  let ?tb = "tb_refill rnd now tb"
  have inv: "tb_inv rnd ?tb" using fr assms(2,3) by (rule tb_refill_inv)
  have n: "0 \<le> rnd (of_int n)"
    using assms(4) by (intro float_rounding_nonneg [OF fr]) simp
  have take: "0 \<le> rnd (tb_tokens ?tb - rnd (of_int n)) \<and>
      rnd (tb_tokens ?tb - rnd (of_int n)) \<le> tb_capacity ?tb"
    if "rnd (of_int n) \<le> tb_tokens ?tb"
  proof
    show "0 \<le> rnd (tb_tokens ?tb - rnd (of_int n))"
      using that by (intro float_rounding_nonneg [OF fr]) simp
    have "tb_tokens ?tb - rnd (of_int n) \<le> tb_capacity ?tb"
      using inv n by (simp add: tb_inv_def)
    then have "rnd (tb_tokens ?tb - rnd (of_int n)) \<le> rnd (tb_capacity ?tb)"
      using fr by (simp add: float_rounding_def)
    then show "rnd (tb_tokens ?tb - rnd (of_int n)) \<le> tb_capacity ?tb"
      using inv by (simp add: tb_inv_def)
  qed
  show ?thesis
    using inv take by (auto simp: tb_AllowN_def tb_inv_def Let_def)
qed

lemma tb_step_inv:
  assumes "float_rounding u rnd" and "tb_inv rnd tb" and "tb_legal tb e"
  shows "tb_inv rnd (tb_step rnd tb e)"
proof (cases e)
  case (TbAllowN now n)
  with assms show ?thesis by (simp add: tb_AllowN_inv)
next
  case (TbStats now)
  with assms show ?thesis by (simp add: tb_stats_def Let_def tb_refill_inv)
next
  case (TbSetRate now r)
  have "tb_inv rnd ((tb_refill rnd now tb)\<lparr>tb_rate := r\<rparr>)" if "0 < r"
    using tb_refill_inv [OF assms(1,2), of now] assms(3) that TbSetRate by (simp add: tb_inv_def)
  with TbSetRate assms show ?thesis by (simp add: tb_SetRate_def)
next
  case (TbReset now)
  with assms show ?thesis by (simp add: tb_Reset_def tb_inv_def)
qed

text \<open>For every rounding the bucket is a system of operations.\<close>

lemma tb_op_system: "float_rounding u rnd \<Longrightarrow> op_system (tb_step rnd) (tb_inv rnd) tb_legal"
  by unfold_locales (rule tb_step_inv)

section \<open>How much the bucket grants\<close>

text \<open>The number of tokens granted over a run.\<close>

fun tb_grant :: "(rat \<Rightarrow> rat) \<Rightarrow> TokenBucket \<Rightarrow> tb_op \<Rightarrow> int" where
  "tb_grant rnd tb (TbAllowN now n) = (if fst (tb_AllowN rnd now n tb) then n else 0)"
| "tb_grant rnd tb e = 0"

fun tb_granted :: "(rat \<Rightarrow> rat) \<Rightarrow> TokenBucket \<Rightarrow> tb_op list \<Rightarrow> int" where
  "tb_granted rnd tb [] = 0"
| "tb_granted rnd tb (e # es) = tb_grant rnd tb e + tb_granted rnd (tb_step rnd tb e) es"

text \<open>Between two reconfigurations only \<^verbatim>\<open>AllowN\<close> and \<^verbatim>\<open>Stats\<close> are called.\<close>

fun tb_metered :: "TokenBucket \<Rightarrow> tb_op \<Rightarrow> bool" where
  "tb_metered tb (TbAllowN now n) = tb_legal tb (TbAllowN now n)"
| "tb_metered tb (TbStats now) = tb_legal tb (TbStats now)"
| "tb_metered tb _ = False"

lemma Seconds_le:
  assumes fr: "float_rounding u rnd" and d: "0 \<le> d" "d \<le> max_int64"
  shows "Seconds rnd d \<le> (1 + u) ^ 2 * (of_int d / 1000000000) + 3 * u"
proof -
  define s r where "s = d div Second" and "r = d mod Second"
  have u: "0 \<le> u" "u \<le> 1" using fr by (simp_all add: float_rounding_def)
  have "d = s * 1000000000 + r"
    using div_mult_mod_eq [of d Second] by (simp add: s_def r_def Second_def)
  then have split: "(of_int d :: rat) = of_int s * 1000000000 + of_int r"
    by (metis of_int_add of_int_mult of_int_numeral)
  have sr: "0 \<le> s" "s \<le> 2 ^ 53" "0 \<le> r" "r \<le> 2 ^ 53"
    using d by (auto simp: s_def r_def Second_def max_int64_def pos_imp_zdiv_nonneg_iff
        intro: order_trans [OF less_imp_le [OF pos_mod_bound]])
  then have exact: "rnd (of_int s) = of_int s" "rnd (of_int r) = of_int r"
    using fr by (simp_all add: float_rounding_def)
  let ?f = "rnd (of_int r / 1000000000)"
  have f0: "0 \<le> (of_int r / 1000000000 :: rat)" using sr by simp
  have f: "0 \<le> ?f" "?f \<le> (1 + u) * (of_int r / 1000000000) + u"
    using float_rounding_nonneg [OF fr f0] float_rounding_le [OF fr f0 order_refl] by auto
  have "Seconds rnd d = rnd (of_int s + ?f)"
    using d(1) exact by (simp add: Seconds_def go_div_nonneg go_rem_nonneg Second_def s_def r_def)
  also have "\<dots> \<le> (1 + u) * (of_int s + ((1 + u) * (of_int r / 1000000000) + u)) + u"
    using sr f by (intro float_rounding_le [OF fr]) auto
  also have "\<dots> \<le> (1 + u) * ((1 + u) * of_int s + (1 + u) * (of_int r / 1000000000) + u) + u"
    using sr u by (intro add_right_mono mult_left_mono) (auto simp: algebra_simps)
  also have "\<dots> = (1 + u) ^ 2 * (of_int d / 1000000000) + (2 * u + u * u)"
    by (simp add: split power2_eq_square field_simps)
  also have "\<dots> \<le> (1 + u) ^ 2 * (of_int d / 1000000000) + 3 * u"
    using u mult_right_mono [of u 1 u] by simp
  finally show ?thesis .
qed

lemma tb_refill_le:
  assumes fr: "float_rounding u rnd" and inv: "tb_inv rnd tb" and now: "tb_lastFill tb \<le> now"
  shows "tb_tokens (tb_refill rnd now tb) \<le> tb_tokens tb
    + (1 + u) ^ 4 * tb_rate tb * (of_int (now - tb_lastFill tb) / 1000000000)
    + u * (tb_capacity tb + 12 * tb_rate tb + 3)"
proof -
  define d where "d = time_Sub now (tb_lastFill tb)"
  define D where "D = (of_int (now - tb_lastFill tb) :: rat) / 1000000000"
  define el where "el = Seconds rnd d"
  define r where "r = tb_rate tb"
  define t where "t = tb_tokens tb"
  have u: "0 \<le> u" "u \<le> 1" using fr by (simp_all add: float_rounding_def)
  have r: "0 < r" and t: "0 \<le> t" "t \<le> tb_capacity tb"
    using inv by (simp_all add: r_def t_def tb_inv_def)
  have d: "0 \<le> d" "d \<le> max_int64" "d \<le> now - tb_lastFill tb"
    using now by (auto simp: d_def time_Sub_nonneg time_Sub_def min_int64_def max_int64_def)
  have el0: "0 \<le> el" unfolding el_def using fr d(1) by (rule Seconds_nonneg)
  have "el \<le> (1 + u) ^ 2 * (of_int d / 1000000000) + 3 * u"
    unfolding el_def using fr d(1,2) by (rule Seconds_le)
  also have "\<dots> \<le> (1 + u) ^ 2 * D + 3 * u"
    using d(3) u by (intro add_right_mono mult_left_mono)
      (simp_all add: D_def divide_right_mono del: of_int_diff)
  finally have el: "el \<le> (1 + u) ^ 2 * D + 3 * u" .
  have "rnd (r * el) \<le> (1 + u) * (r * ((1 + u) ^ 2 * D + 3 * u)) + u"
    using r el0 el by (intro float_rounding_le [OF fr]) auto
  also have "\<dots> = (1 + u) ^ 3 * r * D + (3 * (1 + u) * u * r + u)"
    by (simp add: power2_eq_square power3_eq_cube algebra_simps)
  also have "\<dots> \<le> (1 + u) ^ 3 * r * D + (6 * u * r + u)"
    using u r by (simp add: mult_right_mono mult_left_mono algebra_simps)
  finally have inc: "rnd (r * el) \<le> (1 + u) ^ 3 * r * D + (6 * u * r + u)" .
  have inc0: "0 \<le> rnd (r * el)"
    using r el0 by (intro float_rounding_nonneg [OF fr]) simp
  have "rnd (t + rnd (r * el)) \<le> (1 + u) * (t + ((1 + u) ^ 3 * r * D + (6 * u * r + u))) + u"
    using t inc inc0 by (intro float_rounding_le [OF fr]) auto
  also have "\<dots> = t + (1 + u) ^ 4 * r * D + (u * t + (1 + u) * (6 * u * r + u) + u)"
    by (simp add: power_def algebra_simps)
  also have "\<dots> \<le> t + (1 + u) ^ 4 * r * D + (u * tb_capacity tb + 2 * (6 * u * r + u) + u)"
    using u r t by (intro add_left_mono add_mono mult_left_mono mult_right_mono) auto
  also have "\<dots> = t + (1 + u) ^ 4 * r * D + u * (tb_capacity tb + 12 * r + 3)"
    by (simp add: algebra_simps)
  finally show ?thesis
    by (auto simp: tb_refill_def Let_def d_def el_def r_def t_def D_def)
qed

text \<open>The most one operation can add, and how much float rounding can add to it.\<close>

definition tb_accrual :: "rat \<Rightarrow> rat \<Rightarrow> duration \<Rightarrow> rat" where
  "tb_accrual u rate d = (1 + u) ^ 4 * rate * (of_int d / 1000000000)"

definition tb_slack :: "rat \<Rightarrow> rat \<Rightarrow> rat \<Rightarrow> rat" where
  "tb_slack u rate capacity = u * (2 * capacity + 12 * rate + 4)"

lemma tb_accrual_add: "tb_accrual u r (a + b) = tb_accrual u r a + tb_accrual u r b"
  by (simp add: tb_accrual_def algebra_simps add_divide_distrib)

lemma tb_AllowN_charge:
  assumes fr: "float_rounding u rnd" and inv: "tb_inv rnd tb"
    and now: "tb_lastFill tb \<le> now" and n: "0 \<le> n" "n \<le> 2 ^ 53"
  shows "tb_tokens (snd (tb_AllowN rnd now n tb)) + of_int (tb_grant rnd tb (TbAllowN now n))
    \<le> tb_tokens tb + tb_accrual u (tb_rate tb) (now - tb_lastFill tb)
       + tb_slack u (tb_rate tb) (tb_capacity tb)"
proof -
  let ?tb = "tb_refill rnd now tb"
  have u: "0 \<le> u" using fr by (simp add: float_rounding_def)
  have inv': "tb_inv rnd ?tb" using fr inv now by (rule tb_refill_inv)
  have cap: "0 \<le> tb_capacity tb" using inv by (simp add: tb_inv_def)
  have rn: "rnd (of_int n) = of_int n" using fr n by (simp add: float_rounding_def)
  have fill: "tb_tokens ?tb \<le> tb_tokens tb + tb_accrual u (tb_rate tb) (now - tb_lastFill tb)
      + u * (tb_capacity tb + 12 * tb_rate tb + 3)"
    using tb_refill_le [OF fr inv now] by (simp add: tb_accrual_def)
  have "tb_tokens (snd (tb_AllowN rnd now n tb)) + of_int (tb_grant rnd tb (TbAllowN now n))
      \<le> tb_tokens ?tb + u * (tb_capacity tb + 1)"
  proof (cases "of_int n \<le> tb_tokens ?tb")
    case True
    have "rnd (tb_tokens ?tb - of_int n) \<le> (1 + u) * (tb_tokens ?tb - of_int n) + u"
      using True by (intro float_rounding_le [OF fr]) auto
    also have "\<dots> = tb_tokens ?tb - of_int n + u * (tb_tokens ?tb - of_int n + 1)"
      by (simp add: algebra_simps)
    also have "\<dots> \<le> tb_tokens ?tb - of_int n + u * (tb_capacity tb + 1)"
      using u inv' n(1) by (intro add_left_mono mult_left_mono) (auto simp: tb_inv_def)
    finally show ?thesis
      using True by (simp add: tb_AllowN_def Let_def rn)
  next
    case False
    then show ?thesis using u cap by (simp add: tb_AllowN_def Let_def rn)
  qed
  with fill show ?thesis
    by (simp add: tb_slack_def algebra_simps)
qed

lemma tb_Stats_charge:
  assumes fr: "float_rounding u rnd" and inv: "tb_inv rnd tb" and now: "tb_lastFill tb \<le> now"
  shows "tb_tokens (snd (tb_stats rnd now tb))
    \<le> tb_tokens tb + tb_accrual u (tb_rate tb) (now - tb_lastFill tb)
       + tb_slack u (tb_rate tb) (tb_capacity tb)"
proof -
  have "0 \<le> u" "0 \<le> tb_capacity tb" using fr inv by (simp_all add: float_rounding_def tb_inv_def)
  then have "0 \<le> u * (tb_capacity tb + 1)" by simp
  with tb_refill_le [OF assms] show ?thesis
    by (simp add: tb_stats_def Let_def tb_slack_def tb_accrual_def algebra_simps)
qed

definition tb_metered_inv :: "(rat \<Rightarrow> rat) \<Rightarrow> rat \<Rightarrow> rat \<Rightarrow> TokenBucket \<Rightarrow> bool" where
  "tb_metered_inv rnd r c tb \<longleftrightarrow> tb_inv rnd tb \<and> tb_rate tb = r \<and> tb_capacity tb = c"

lemma tb_metered_step:
  assumes "float_rounding u rnd" and "tb_metered_inv rnd r c tb" and "tb_metered tb e"
  shows "tb_metered_inv rnd r c (tb_step rnd tb e)"
proof -
  have "tb_legal tb e" using assms(3) by (cases e) simp_all
  then have "tb_inv rnd (tb_step rnd tb e)"
    using tb_step_inv assms(1,2) by (auto simp: tb_metered_inv_def)
  moreover have "tb_rate (tb_step rnd tb e) = tb_rate tb" "tb_capacity (tb_step rnd tb e) = tb_capacity tb"
    using assms(3) by (cases e; simp add: tb_AllowN_def tb_stats_def Let_def)+
  ultimately show ?thesis using assms(2) by (simp add: tb_metered_inv_def)
qed

lemma tb_metered_system:
  "float_rounding u rnd \<Longrightarrow> op_system (tb_step rnd) (tb_metered_inv rnd r c) tb_metered"
  by unfold_locales (rule tb_metered_step)

lemma tb_lastFill_op [simp]:
  "tb_lastFill (snd (tb_AllowN rnd now n tb)) = now"
  "tb_lastFill (snd (tb_stats rnd now tb)) = now"
  by (simp_all add: tb_AllowN_def tb_stats_def Let_def)

lemma tb_charge:
  assumes "float_rounding u rnd" and "tb_metered_inv rnd r c tb" and "tb_metered tb e"
  shows "tb_tokens (tb_step rnd tb e) + of_int (tb_grant rnd tb e)
    \<le> tb_tokens tb + (tb_accrual u r (tb_lastFill (tb_step rnd tb e) - tb_lastFill tb) + tb_slack u r c)"
proof -
  have inv: "tb_inv rnd tb" "tb_rate tb = r" "tb_capacity tb = c"
    using assms(2) by (simp_all add: tb_metered_inv_def)
  show ?thesis
  proof (cases e)
    case (TbAllowN now n)
    with assms(3) tb_AllowN_charge [OF assms(1) inv(1), of now n] show ?thesis
      by (simp add: inv add.assoc)
  next
    case (TbStats now)
    with assms(3) tb_Stats_charge [OF assms(1) inv(1), of now] show ?thesis
      by (simp add: inv add.assoc)
  qed (use assms(3) in simp_all)
qed

lemma tb_granted_bound:
  assumes fr: "float_rounding u rnd" and inv: "tb_inv rnd tb"
    and run: "legal_run (tb_step rnd) tb_metered tb es"
  shows "of_int (tb_granted rnd tb es) \<le> tb_tokens tb
    + tb_accrual u (tb_rate tb) (tb_lastFill (foldl (tb_step rnd) tb es) - tb_lastFill tb)
    + of_nat (length es) * tb_slack u (tb_rate tb) (tb_capacity tb)"
proof -
  let ?r = "tb_rate tb" and ?c = "tb_capacity tb"
  let ?cost = "\<lambda>s es. tb_accrual u ?r (tb_lastFill (foldl (tb_step rnd) s es) - tb_lastFill s)
      + of_nat (length es) * tb_slack u ?r ?c"
  have m: "tb_metered_inv rnd ?r ?c tb" using inv by (simp add: tb_metered_inv_def)
  have "tb_tokens (foldl (tb_step rnd) tb es) + of_int (tb_granted rnd tb es)
      \<le> tb_tokens tb + ?cost tb es"
  proof (rule op_system.run_budget [OF tb_metered_system [OF fr, of ?r ?c], where gain = "\<lambda>s e. of_int (tb_grant rnd s e)"
        and total_gain = "\<lambda>s es. of_int (tb_granted rnd s es)"
        and cost = "\<lambda>s e. tb_accrual u ?r (tb_lastFill (tb_step rnd s e) - tb_lastFill s) + tb_slack u ?r ?c"
        and total_cost = ?cost])
    show "?cost s (e # es) = tb_accrual u ?r (tb_lastFill (tb_step rnd s e) - tb_lastFill s)
        + tb_slack u ?r ?c + ?cost (tb_step rnd s e) es" for s e es
      using tb_accrual_add [of u ?r "tb_lastFill (tb_step rnd s e) - tb_lastFill s"
          "tb_lastFill (foldl (tb_step rnd) (tb_step rnd s e) es) - tb_lastFill (tb_step rnd s e)"]
      by (simp add: algebra_simps)
  qed (use tb_charge [OF fr] m run in \<open>simp_all add: tb_accrual_def\<close>)
  moreover have "0 \<le> tb_tokens (foldl (tb_step rnd) tb es)"
    using op_system.run_inv [OF tb_metered_system [OF fr] m run]
    by (simp add: tb_metered_inv_def tb_inv_def)
  ultimately show ?thesis by simp
qed

section \<open>Properties\<close>

text \<open>Whatever the float rounding, every legal sequence of calls on a new bucket
  keeps the number of tokens between zero and the capacity; the bucket never goes into debt
  and never saves up more than one burst.\<close>

theorem tb_tokens_bounded:
  assumes "float_rounding u rnd"
    and "legal_run (tb_step rnd) tb_legal (NewTokenBucket rnd rate burst t0) es"
    and "tb = foldl (tb_step rnd) (NewTokenBucket rnd rate burst t0) es"
  shows "0 \<le> tb_tokens tb \<and> tb_tokens tb \<le> tb_capacity tb"
  using op_system.run_inv [OF tb_op_system [OF assms(1)] NewTokenBucket_inv [OF assms(1)] assms(2)]
  by (simp add: tb_inv_def assms(3))

lemmas tb_eval = NewTokenBucket_def tb_AllowN_def tb_refill_def tb_stats_def tb_SetRate_def
  tb_Reset_def Seconds_def Second_def time_Sub_def min_int64_def max_int64_def go_div_def go_rem_def

theorem tb_tokens_bounded_witness:
  "tb_tokens (foldl (tb_step (\<lambda>x. x)) (NewTokenBucket (\<lambda>x. x) 100 2 0)
     [TbAllowN 0 1, TbAllowN 1000000 1, TbSetRate 2000000 50, TbAllowN 3000000 1]) \<le> 2"
proof -
  have "legal_run (tb_step (\<lambda>x. x)) tb_legal (NewTokenBucket (\<lambda>x. x) 100 2 0)
      [TbAllowN 0 1, TbAllowN 1000000 1, TbSetRate 2000000 50, TbAllowN 3000000 1]"
    by (simp add: tb_eval)
  from tb_tokens_bounded [OF float_rounding_id this refl] show ?thesis
    by (simp add: tb_eval)
qed

lemma tb_capacity_step: "tb_capacity (tb_step rnd tb e) = tb_capacity tb"
  by (cases e) (simp_all add: tb_AllowN_def tb_stats_def tb_SetRate_def tb_Reset_def Let_def)

lemma tb_capacity_run: "tb_capacity (foldl (tb_step rnd) tb es) = tb_capacity tb"
  by (induction es arbitrary: tb) (simp_all add: tb_capacity_step)

text \<open>C8: the rate limit holds. After any calls on a new bucket, changes of the rate and resets included, the tokens
  granted over any further stretch of calls of \<^verbatim>\<open>AllowN\<close> and \<^verbatim>\<open>Stats\<close> are at most one burst plus what the rate then in force accrues
  from the call before the stretch to its last call, up to a rounding error of at most \<open>tb_slack\<close> per call, which vanishes with \<open>u\<close>: what
  went before, and however long the bucket was left alone, is worth one burst and no more.\<close>

theorem tb_rate_limit:
  assumes "float_rounding u rnd" and "0 < burst" and "burst \<le> 2 ^ 53"
    and "legal_run (tb_step rnd) tb_legal (NewTokenBucket rnd rate burst t0) before"
    and "tb = foldl (tb_step rnd) (NewTokenBucket rnd rate burst t0) before"
    and "legal_run (tb_step rnd) tb_metered tb es"
  shows "of_int (tb_granted rnd tb es) \<le> of_int burst
    + tb_accrual u (tb_rate tb) (tb_lastFill (foldl (tb_step rnd) tb es) - tb_lastFill tb)
    + of_nat (length es) * tb_slack u (tb_rate tb) (of_int burst)"
proof -
  have "rnd (of_int burst) = of_int burst"
    using assms(1,2,3) by (simp add: float_rounding_def)
  then have capacity: "tb_capacity tb = of_int burst"
    using assms(2) by (simp add: assms(5) tb_capacity_run NewTokenBucket_def)
  have "tb_inv rnd tb"
    unfolding assms(5) using op_system.run_inv [OF tb_op_system [OF assms(1)] NewTokenBucket_inv [OF assms(1)] assms(4)] .
  with tb_granted_bound [OF assms(1) this assms(6)] capacity show ?thesis
    by (simp add: tb_inv_def)
qed

text \<open>In exact arithmetic: at 100 per second with a burst of two, the bucket is left alone for an hour; then, over 15 ms, at
  most three requests pass; the run below grants exactly three of its five.\<close>

theorem tb_rate_limit_witness:
  "let tb = foldl (tb_step (\<lambda>x. x)) (NewTokenBucket (\<lambda>x. x) 50 2 0) [TbSetRate 0 100, TbAllowN 0 1, TbStats 3600000000000];
       es = [TbAllowN 3600000000000 1, TbAllowN 3600000000000 1, TbAllowN 3600000000000 1, TbAllowN 3600010000000 1, TbAllowN 3600015000000 1];
       g = tb_granted (\<lambda>x. x) tb es
   in g = 3 \<and> of_int g \<le> (2 + 100 * (15 / 1000) :: rat)"
proof -
  let ?new = "NewTokenBucket (\<lambda>x. x) 50 2 0"
  let ?before = "[TbSetRate 0 100, TbAllowN 0 1, TbStats 3600000000000]"
  let ?tb = "foldl (tb_step (\<lambda>x. x)) ?new ?before"
  let ?es = "[TbAllowN 3600000000000 1, TbAllowN 3600000000000 1, TbAllowN 3600000000000 1, TbAllowN 3600010000000 1, TbAllowN 3600015000000 1]"
  have before: "legal_run (tb_step (\<lambda>x. x)) tb_legal ?new ?before"
    by (simp add: tb_eval)
  have tb: "?tb = \<lparr>tb_rate = 100, tb_capacity = 2, tb_tokens = 2, tb_lastFill = 3600000000000, tb_totalAllowed = 1, tb_totalDenied = 0\<rparr>"
    by (simp add: tb_eval)
  have run: "legal_run (tb_step (\<lambda>x. x)) tb_metered ?tb ?es"
    unfolding tb by (simp add: tb_eval)
  have "tb_granted (\<lambda>x. x) ?tb ?es = 3"
    unfolding tb by (simp add: tb_eval)
  moreover have "(of_int (tb_granted (\<lambda>x. x) ?tb ?es) :: rat) \<le> 2 + 100 * (15 / 1000)"
    using tb_rate_limit [OF float_rounding_id _ _ before refl run] unfolding tb
    by (simp add: tb_eval tb_accrual_def tb_slack_def)
  ultimately show ?thesis by (simp only: Let_def simp_thms)
qed

end
