(* ===== verification/Backend.thy ===== *)
theory Backend
  imports Go_Prelude "HOL-Library.Multiset"
begin

text \<open>
  Backends, their connection pools and the pooled connections of
  \<^verbatim>\<open>internal/backend/backend.go\<close>. Backends, pools and connections are shared by
  pointer, so they live in a heap and are referred to by number. The sockets are those of
  Go's \<^verbatim>\<open>net\<close> package: what a read or a dial returns is an argument. The critical
  sections of \<^verbatim>\<open>pooledConn\<close> (the parts under \<^verbatim>\<open>c.mu\<close>) and the channel operations of
  \<^verbatim>\<open>connPool\<close> are functions of their own: the methods are their compositions, and the
  step relation of the concurrent system interleaves them.
\<close>

section \<open>Sockets\<close>

datatype net_error = ErrTimeout | ErrEOF | ErrNetClosed | ErrDeadlineExceeded | ErrOther string

record socket =
  sock_isTCP :: bool
  sock_closed :: bool
  sock_finSent :: bool

definition sock_Close :: "socket \<Rightarrow> net_error option \<times> socket" where
  "sock_Close s = (if sock_closed s then (Some ErrNetClosed, s) else (None, s\<lparr>sock_closed := True\<rparr>))"

definition sock_CloseWrite :: "socket \<Rightarrow> net_error option \<times> socket" where
  "sock_CloseWrite s =
    (if sock_closed s then (Some ErrNetClosed, s) else (None, s\<lparr>sock_finSent := True\<rparr>))"

section \<open>Data\<close>

type_synonym backend_ref = nat
type_synonym pool_ref = nat
type_synonym conn_ref = nat

record PoolConfig =
  MaxIdle :: int
  IdleTimeout :: duration
  MaxLifetime :: duration

definition DefaultPoolConfig :: PoolConfig where
  "DefaultPoolConfig = \<lparr>MaxIdle = 64, IdleTimeout = 30 * Second, MaxLifetime = 120 * Second\<rparr>"

text \<open>The channel of idle connections is the list of its contents and its capacity.\<close>

record connPool =
  p_idle :: "conn_ref list"
  p_cap :: nat
  p_idleTimeout :: duration
  p_maxLifetime :: duration
  p_hits :: int
  p_misses :: int
  p_returned :: int
  p_dropped :: int

record pooledConn =
  c_Conn :: socket
  c_backend :: backend_ref
  c_pool :: "pool_ref option"
  c_createdAt :: go_time
  c_lastUsed :: go_time
  c_returned :: bool
  c_halfClosed :: bool

record Backend =
  b_addr :: string
  b_weight :: int
  b_healthy :: bool
  b_lastCheck :: go_time
  b_lastError :: "net_error option"
  b_activeConns :: int
  b_totalConns :: int
  b_failures :: int
  b_pool :: "pool_ref option"

text \<open>A reference below the allocation mark of its kind denotes an object.\<close>

record heap =
  h_backends :: "backend_ref \<Rightarrow> Backend"
  h_pools :: "pool_ref \<Rightarrow> connPool"
  h_conns :: "conn_ref \<Rightarrow> pooledConn"
  h_nextBackend :: nat
  h_nextPool :: nat
  h_nextConn :: nat

definition upd_backend :: "backend_ref \<Rightarrow> (Backend \<Rightarrow> Backend) \<Rightarrow> heap \<Rightarrow> heap" where
  "upd_backend b f h = h\<lparr>h_backends := (h_backends h)(b := f (h_backends h b))\<rparr>"

definition upd_pool :: "pool_ref \<Rightarrow> (connPool \<Rightarrow> connPool) \<Rightarrow> heap \<Rightarrow> heap" where
  "upd_pool p f h = h\<lparr>h_pools := (h_pools h)(p := f (h_pools h p))\<rparr>"

definition upd_conn :: "conn_ref \<Rightarrow> (pooledConn \<Rightarrow> pooledConn) \<Rightarrow> heap \<Rightarrow> heap" where
  "upd_conn c f h = h\<lparr>h_conns := (h_conns h)(c := f (h_conns h c))\<rparr>"

lemma upd_backend_sel [simp]:
  "h_backends (upd_backend b f h) = (h_backends h)(b := f (h_backends h b))"
  "h_pools (upd_backend b f h) = h_pools h" "h_conns (upd_backend b f h) = h_conns h"
  "h_nextBackend (upd_backend b f h) = h_nextBackend h" "h_nextPool (upd_backend b f h) = h_nextPool h"
  "h_nextConn (upd_backend b f h) = h_nextConn h"
  by (simp_all add: upd_backend_def)

lemma upd_pool_sel [simp]:
  "h_pools (upd_pool p g h) = (h_pools h)(p := g (h_pools h p))"
  "h_backends (upd_pool p g h) = h_backends h" "h_conns (upd_pool p g h) = h_conns h"
  "h_nextBackend (upd_pool p g h) = h_nextBackend h" "h_nextPool (upd_pool p g h) = h_nextPool h"
  "h_nextConn (upd_pool p g h) = h_nextConn h"
  by (simp_all add: upd_pool_def)

lemma upd_conn_sel [simp]:
  "h_conns (upd_conn c k h) = (h_conns h)(c := k (h_conns h c))"
  "h_backends (upd_conn c k h) = h_backends h" "h_pools (upd_conn c k h) = h_pools h"
  "h_nextBackend (upd_conn c k h) = h_nextBackend h" "h_nextPool (upd_conn c k h) = h_nextPool h"
  "h_nextConn (upd_conn c k h) = h_nextConn h"
  by (simp_all add: upd_conn_def)

section \<open>Backends\<close>

definition NewBackend :: "string \<Rightarrow> Backend" where
  "NewBackend addr = \<lparr>b_addr = addr, b_weight = 1, b_healthy = True, b_lastCheck = 0,
     b_lastError = None, b_activeConns = 0, b_totalConns = 0, b_failures = 0, b_pool = None\<rparr>"

definition NewBackendWithWeight :: "string \<Rightarrow> int \<Rightarrow> Backend" where
  "NewBackendWithWeight addr weight0 =
    (let weight = (if weight0 < 1 then 1 else weight0)
     in \<lparr>b_addr = addr, b_weight = weight, b_healthy = True, b_lastCheck = 0,
         b_lastError = None, b_activeConns = 0, b_totalConns = 0, b_failures = 0, b_pool = None\<rparr>)"

text \<open>The address of a new object.\<close>

definition alloc_backend :: "Backend \<Rightarrow> heap \<Rightarrow> backend_ref \<times> heap" where
  "alloc_backend v h = (h_nextBackend h,
     h\<lparr>h_backends := (h_backends h)(h_nextBackend h := v), h_nextBackend := Suc (h_nextBackend h)\<rparr>)"

definition newConnPool :: "PoolConfig \<Rightarrow> connPool" where
  "newConnPool cfg0 =
    (let cfg1 = (if MaxIdle cfg0 \<le> 0 then cfg0\<lparr>MaxIdle := MaxIdle DefaultPoolConfig\<rparr> else cfg0);
         cfg2 = (if IdleTimeout cfg1 \<le> 0 then cfg1\<lparr>IdleTimeout := IdleTimeout DefaultPoolConfig\<rparr> else cfg1);
         cfg3 = (if MaxLifetime cfg2 \<le> 0 then cfg2\<lparr>MaxLifetime := MaxLifetime DefaultPoolConfig\<rparr> else cfg2)
     in \<lparr>p_idle = [], p_cap = nat (MaxIdle cfg3), p_idleTimeout = IdleTimeout cfg3,
         p_maxLifetime = MaxLifetime cfg3, p_hits = 0, p_misses = 0, p_returned = 0, p_dropped = 0\<rparr>)"

definition b_EnablePooling :: "PoolConfig option \<Rightarrow> backend_ref \<Rightarrow> heap \<Rightarrow> heap" where
  "b_EnablePooling cfg b h =
    (case cfg of
       None \<Rightarrow> upd_backend b (\<lambda>v. v\<lparr>b_pool := None\<rparr>) h
     | Some c \<Rightarrow>
         (let p = h_nextPool h;
              h1 = h\<lparr>h_pools := (h_pools h)(p := newConnPool c), h_nextPool := Suc p\<rparr>
          in upd_backend b (\<lambda>v. v\<lparr>b_pool := Some p\<rparr>) h1))"

definition b_Addr :: "heap \<Rightarrow> backend_ref \<Rightarrow> string" where
  "b_Addr h b = b_addr (h_backends h b)"

definition b_Weight :: "heap \<Rightarrow> backend_ref \<Rightarrow> int" where
  "b_Weight h b = b_weight (h_backends h b)"

definition b_IsHealthy :: "heap \<Rightarrow> backend_ref \<Rightarrow> bool" where
  "b_IsHealthy h b = b_healthy (h_backends h b)"

definition b_SetHealthy :: "go_time \<Rightarrow> bool \<Rightarrow> net_error option \<Rightarrow> backend_ref \<Rightarrow> heap \<Rightarrow> heap" where
  "b_SetHealthy now healthy err b =
    upd_backend b (\<lambda>v. v\<lparr>b_healthy := healthy, b_lastCheck := now, b_lastError := err\<rparr>)"

definition b_ActiveConnections :: "heap \<Rightarrow> backend_ref \<Rightarrow> int" where
  "b_ActiveConnections h b = b_activeConns (h_backends h b)"

definition b_LastError :: "heap \<Rightarrow> backend_ref \<Rightarrow> net_error option" where
  "b_LastError h b = b_lastError (h_backends h b)"

definition b_LastCheck :: "heap \<Rightarrow> backend_ref \<Rightarrow> go_time" where
  "b_LastCheck h b = b_lastCheck (h_backends h b)"

definition b_TotalConnections :: "heap \<Rightarrow> backend_ref \<Rightarrow> int" where
  "b_TotalConnections h b = b_totalConns (h_backends h b)"

definition b_Failures :: "heap \<Rightarrow> backend_ref \<Rightarrow> int" where
  "b_Failures h b = b_failures (h_backends h b)"

definition b_addActive :: "int \<Rightarrow> backend_ref \<Rightarrow> heap \<Rightarrow> heap" where
  "b_addActive k b = upd_backend b (\<lambda>v. v\<lparr>b_activeConns := b_activeConns v + k\<rparr>)"

section \<open>The idle pool\<close>

text \<open>What the one-byte read of \<^verbatim>\<open>usable\<close> meets on a connection: an error of
  \<^verbatim>\<open>SetReadDeadline\<close>, and the error of \<^verbatim>\<open>Read\<close> (none when data arrived).\<close>

record liveness =
  live_deadlineErr :: "net_error option"
  live_readErr :: "net_error option"

definition c_usable :: "liveness \<Rightarrow> pooledConn \<Rightarrow> bool" where
  "c_usable l c =
    (if \<not> sock_isTCP (c_Conn c) then True
     else if live_deadlineErr l \<noteq> None then False
     else (case live_readErr l of
             None \<Rightarrow> False
           | Some ErrTimeout \<Rightarrow> True
           | Some ErrEOF \<Rightarrow> False
           | Some ErrNetClosed \<Rightarrow> False
           | Some _ \<Rightarrow> False))"

definition c_expired :: "go_time \<Rightarrow> duration \<Rightarrow> duration \<Rightarrow> pooledConn \<Rightarrow> bool" where
  "c_expired now idleTimeout maxLifetime c =
    (if maxLifetime > 0 \<and> time_Sub now (c_createdAt c) > maxLifetime then True
     else if idleTimeout > 0 \<and> time_Sub now (c_lastUsed c) > idleTimeout then True
     else False)"

definition c_touch :: "go_time \<Rightarrow> pooledConn \<Rightarrow> pooledConn" where
  "c_touch now c = c\<lparr>c_lastUsed := now, c_returned := False\<rparr>"

definition c_reuse :: "go_time \<Rightarrow> pooledConn \<Rightarrow> pooledConn" where
  "c_reuse now c = c\<lparr>c_lastUsed := now, c_returned := False\<rparr>"

definition c_isHalfClosed :: "pooledConn \<Rightarrow> bool" where
  "c_isHalfClosed c = c_halfClosed c"

text \<open>\<^verbatim>\<open>conn.Conn.Close()\<close>: the embedded socket, not the wrapper.\<close>

definition c_closeSocket :: "conn_ref \<Rightarrow> heap \<Rightarrow> net_error option \<times> heap" where
  "c_closeSocket c h =
    (let (err, s) = sock_Close (c_Conn (h_conns h c)) in (err, upd_conn c (\<lambda>v. v\<lparr>c_Conn := s\<rparr>) h))"

text \<open>What \<^verbatim>\<open>get\<close> does with a connection it has received from the channel: drop it, or
  hand it out.\<close>

definition p_consider :: "go_time \<Rightarrow> liveness \<Rightarrow> pool_ref \<Rightarrow> conn_ref \<Rightarrow> heap \<Rightarrow> bool \<times> heap" where
  "p_consider now l p c h =
    (if c_expired now (p_idleTimeout (h_pools h p)) (p_maxLifetime (h_pools h p)) (h_conns h c)
        \<or> \<not> c_usable l (h_conns h c)
     then (False, snd (c_closeSocket c (upd_pool p (\<lambda>v. v\<lparr>p_dropped := p_dropped v + 1\<rparr>) h)))
     else (True, upd_conn c (c_reuse now) (upd_pool p (\<lambda>v. v\<lparr>p_hits := p_hits v + 1\<rparr>) h)))"

text \<open>The loop of \<^verbatim>\<open>get\<close>, over the connections in the channel.\<close>

fun p_getLoop :: "go_time \<Rightarrow> (conn_ref \<Rightarrow> liveness) \<Rightarrow> pool_ref \<Rightarrow> conn_ref list \<Rightarrow> heap \<Rightarrow>
    conn_ref option \<times> heap" where
  "p_getLoop now live p [] h =
     (None, upd_pool p (\<lambda>v. v\<lparr>p_idle := [], p_misses := p_misses v + 1\<rparr>) h)"
| "p_getLoop now live p (c # cs) h =
     (let (ok, h1) = p_consider now (live c) p c (upd_pool p (\<lambda>v. v\<lparr>p_idle := cs\<rparr>) h)
      in if ok then (Some c, h1) else p_getLoop now live p cs h1)"

definition p_get :: "go_time \<Rightarrow> (conn_ref \<Rightarrow> liveness) \<Rightarrow> pool_ref \<Rightarrow> heap \<Rightarrow> conn_ref option \<times> heap" where
  "p_get now live p h = p_getLoop now live p (p_idle (h_pools h p)) h"

definition p_put :: "go_time \<Rightarrow> pool_ref \<Rightarrow> conn_ref \<Rightarrow> heap \<Rightarrow> bool \<times> heap" where
  "p_put now p c h =
    (let pool = h_pools h p
     in if c_expired now (p_idleTimeout pool) (p_maxLifetime pool) (h_conns h c)
        then (False, snd (c_closeSocket c (upd_pool p (\<lambda>v. v\<lparr>p_dropped := p_dropped v + 1\<rparr>) h)))
        else if length (p_idle pool) < p_cap pool
        then (True, upd_pool p (\<lambda>v. v\<lparr>p_idle := p_idle v @ [c], p_returned := p_returned v + 1\<rparr>) h)
        else (False, snd (c_closeSocket c (upd_pool p (\<lambda>v. v\<lparr>p_dropped := p_dropped v + 1\<rparr>) h))))"

record PoolStats =
  PS_Hits :: int
  PS_Misses :: int
  PS_Returned :: int
  PS_Dropped :: int
  PS_Size :: nat

definition p_Stats :: "connPool \<Rightarrow> PoolStats" where
  "p_Stats p = \<lparr>PS_Hits = p_hits p, PS_Misses = p_misses p, PS_Returned = p_returned p,
     PS_Dropped = p_dropped p, PS_Size = length (p_idle p)\<rparr>"

definition b_PoolStats :: "heap \<Rightarrow> backend_ref \<Rightarrow> PoolStats" where
  "b_PoolStats h b =
    (case b_pool (h_backends h b) of
       None \<Rightarrow> \<lparr>PS_Hits = 0, PS_Misses = 0, PS_Returned = 0, PS_Dropped = 0, PS_Size = 0\<rparr>
     | Some p \<Rightarrow> p_Stats (h_pools h p))"

section \<open>Pooled connections\<close>

text \<open>The part of \<^verbatim>\<open>Close\<close> under \<^verbatim>\<open>c.mu\<close>: nothing if the connection was already
  returned; otherwise mark it returned and read \<^verbatim>\<open>halfClosed\<close>.\<close>

definition c_CloseEnter :: "conn_ref \<Rightarrow> heap \<Rightarrow> bool option \<times> heap" where
  "c_CloseEnter c h =
    (if c_returned (h_conns h c) then (None, h)
     else (Some (c_halfClosed (h_conns h c)), upd_conn c (\<lambda>v. v\<lparr>c_returned := True\<rparr>) h))"

text \<open>The rest of \<^verbatim>\<open>Close\<close>, after the active counter: close the socket, or offer the
  connection to the pool and close the socket if the pool refuses it.\<close>

definition c_CloseDispose :: "go_time \<Rightarrow> conn_ref \<Rightarrow> bool \<Rightarrow> heap \<Rightarrow> net_error option \<times> heap" where
  "c_CloseDispose now c halfClosed h =
    (case c_pool (h_conns h c) of
       None \<Rightarrow> c_closeSocket c h
     | Some p \<Rightarrow>
         (if halfClosed then c_closeSocket c h
          else (let (ok, h1) = p_put now p c h in if ok then (None, h1) else c_closeSocket c h1)))"

definition c_Close :: "go_time \<Rightarrow> conn_ref \<Rightarrow> heap \<Rightarrow> net_error option \<times> heap" where
  "c_Close now c h =
    (case c_CloseEnter c h of
       (None, h1) \<Rightarrow> (None, h1)
     | (Some halfClosed, h1) \<Rightarrow>
         c_CloseDispose now c halfClosed (b_addActive (- 1) (c_backend (h_conns h1 c)) h1))"

text \<open>\<^verbatim>\<open>CloseWrite\<close> holds \<^verbatim>\<open>c.mu\<close> throughout, the FIN included.\<close>

definition c_CloseWrite :: "conn_ref \<Rightarrow> heap \<Rightarrow> net_error option \<times> heap" where
  "c_CloseWrite c h =
    (if c_returned (h_conns h c) then (None, h)
     else (let h1 = upd_conn c (\<lambda>v. v\<lparr>c_halfClosed := True\<rparr>) h
           in if sock_isTCP (c_Conn (h_conns h1 c))
              then (let (err, s) = sock_CloseWrite (c_Conn (h_conns h1 c))
                    in (err, upd_conn c (\<lambda>v. v\<lparr>c_Conn := s\<rparr>) h1))
              else (None, h1)))"

section \<open>Dialling\<close>

definition dial_timeout :: "go_time \<Rightarrow> go_time option \<Rightarrow> duration" where
  "dial_timeout now deadline =
    (case deadline of None \<Rightarrow> 10 * Second | Some d \<Rightarrow> time_Sub d now)"

text \<open>A new connection: allocated with its zero fields, then \<^verbatim>\<open>touch\<close>ed.\<close>

definition new_pooledConn :: "go_time \<Rightarrow> socket \<Rightarrow> backend_ref \<Rightarrow> heap \<Rightarrow> conn_ref \<times> heap" where
  "new_pooledConn now s b h =
    (let c = h_nextConn h;
         v = \<lparr>c_Conn = s, c_backend = b, c_pool = b_pool (h_backends h b), c_createdAt = now,
              c_lastUsed = 0, c_returned = False, c_halfClosed = False\<rparr>
     in (c, h\<lparr>h_conns := (h_conns h)(c := c_touch now v), h_nextConn := Suc c\<rparr>))"

text \<open>
  \<^verbatim>\<open>Dial\<close>: \<open>now\<close> is the clock at entry and \<open>now'\<close> after the dial; \<open>dial\<close>
  is the network, from the timeout and the address to an error or a connected socket.
\<close>

definition b_Dial :: "(duration \<Rightarrow> string \<Rightarrow> net_error + socket) \<Rightarrow> (conn_ref \<Rightarrow> liveness) \<Rightarrow>
    go_time \<Rightarrow> go_time \<Rightarrow> go_time option \<Rightarrow> backend_ref \<Rightarrow> heap \<Rightarrow> (net_error + conn_ref) \<times> heap" where
  "b_Dial dial live now now' deadline b h =
    (let (pooled, h1) =
           (case b_pool (h_backends h b) of None \<Rightarrow> (None, h) | Some p \<Rightarrow> p_get now live p h)
     in case pooled of
          Some c \<Rightarrow> (Inr c, b_addActive 1 b h1)
        | None \<Rightarrow>
            (let h2 = upd_backend b (\<lambda>v. v\<lparr>b_totalConns := b_totalConns v + 1\<rparr>) h1
             in case dial (dial_timeout now deadline) (b_Addr h2 b) of
                  Inl err \<Rightarrow> (Inl err, upd_backend b (\<lambda>v. v\<lparr>b_failures := b_failures v + 1\<rparr>) h2)
                | Inr s \<Rightarrow> (let (c, h3) = new_pooledConn now' s b h2 in (Inr c, b_addActive 1 b h3))))"

record HealthStatus =
  HS_Addr :: string
  HS_Healthy :: bool
  HS_LastCheck :: go_time
  HS_LastError :: "net_error option"
  HS_ActiveConnections :: int
  HS_TotalConnections :: int
  HS_Failures :: int

definition b_HealthStatus :: "heap \<Rightarrow> backend_ref \<Rightarrow> HealthStatus" where
  "b_HealthStatus h b =
    (let v = h_backends h b
     in \<lparr>HS_Addr = b_addr v, HS_Healthy = b_healthy v, HS_LastCheck = b_lastCheck v,
         HS_LastError = b_lastError v, HS_ActiveConnections = b_activeConns v,
         HS_TotalConnections = b_totalConns v, HS_Failures = b_failures v\<rparr>)"

section \<open>The concurrent system\<close>

text \<open>
  Goroutines between two atomic steps: one that has left the critical section of
  \<^verbatim>\<open>Close\<close> and has still to decrement the active counter, then to dispose of the
  connection; one that has received a connection from a pool's channel and has not decided
  about it; one that holds a connection from \<^verbatim>\<open>get\<close> or a fresh dial and has still to
  count it. Goroutines have no names, so they form a multiset.
\<close>

datatype pc =
    ClosingCount conn_ref bool
  | ClosingDispose conn_ref bool
  | GetDecide backend_ref pool_ref conn_ref
  | DialCount backend_ref conn_ref

text \<open>\<^verbatim>\<open>conn := <-p.idle\<close>\<close>

definition p_recv :: "pool_ref \<Rightarrow> heap \<Rightarrow> heap" where
  "p_recv p = upd_pool p (\<lambda>v. v\<lparr>p_idle := tl (p_idle v)\<rparr>)"

inductive conn_step :: "heap \<times> pc multiset \<Rightarrow> heap \<times> pc multiset \<Rightarrow> bool" where
  half_close: "c < h_nextConn h \<Longrightarrow> conn_step (h, T) (snd (c_CloseWrite c h), T)"
| close_again: "c < h_nextConn h \<Longrightarrow> c_CloseEnter c h = (None, h') \<Longrightarrow> conn_step (h, T) (h', T)"
| close_enter: "c < h_nextConn h \<Longrightarrow> c_CloseEnter c h = (Some hc, h') \<Longrightarrow>
    conn_step (h, T) (h', add_mset (ClosingCount c hc) T)"
| close_count: "conn_step (h, add_mset (ClosingCount c hc) T)
    (b_addActive (- 1) (c_backend (h_conns h c)) h, add_mset (ClosingDispose c hc) T)"
| close_dispose: "conn_step (h, add_mset (ClosingDispose c hc) T) (snd (c_CloseDispose now c hc h), T)"
| get_recv: "b < h_nextBackend h \<Longrightarrow> b_pool (h_backends h b) = Some p \<Longrightarrow>
    p_idle (h_pools h p) = c # cs \<Longrightarrow> conn_step (h, T) (p_recv p h, add_mset (GetDecide b p c) T)"
| get_miss: "p_idle (h_pools h p) = [] \<Longrightarrow>
    conn_step (h, T) (upd_pool p (\<lambda>v. v\<lparr>p_misses := p_misses v + 1\<rparr>) h, T)"
| get_drop: "p_consider now l p c h = (False, h') \<Longrightarrow>
    conn_step (h, add_mset (GetDecide b p c) T) (h', T)"
| get_hit: "p_consider now l p c h = (True, h') \<Longrightarrow>
    conn_step (h, add_mset (GetDecide b p c) T) (h', add_mset (DialCount b c) T)"
| dial_start: "conn_step (h, T) (upd_backend b (\<lambda>v. v\<lparr>b_totalConns := b_totalConns v + 1\<rparr>) h, T)"
| dial_fail: "conn_step (h, T) (upd_backend b (\<lambda>v. v\<lparr>b_failures := b_failures v + 1\<rparr>) h, T)"
| dial_new: "b < h_nextBackend h \<Longrightarrow> \<not> sock_closed s \<Longrightarrow> \<not> sock_finSent s \<Longrightarrow>
    new_pooledConn now s b h = (c, h') \<Longrightarrow> conn_step (h, T) (h', add_mset (DialCount b c) T)"
| dial_count: "conn_step (h, add_mset (DialCount b c) T) (b_addActive 1 b h, T)"

text \<open>A connection that has been returned is in the hands of at most one goroutine or pool
  slot; \<open>tokens\<close> counts them.\<close>

fun holds :: "conn_ref \<Rightarrow> pc \<Rightarrow> bool" where
  "holds c (ClosingCount c' hc) \<longleftrightarrow> c' = c"
| "holds c (ClosingDispose c' hc) \<longleftrightarrow> c' = c"
| "holds c (GetDecide b p c') \<longleftrightarrow> c' = c"
| "holds c (DialCount b c') \<longleftrightarrow> False"

definition idle_slots :: "heap \<Rightarrow> conn_ref \<Rightarrow> nat" where
  "idle_slots h c = (case c_pool (h_conns h c) of None \<Rightarrow> 0 | Some p \<Rightarrow> count_list (p_idle (h_pools h p)) c)"

definition tokens :: "heap \<Rightarrow> pc multiset \<Rightarrow> conn_ref \<Rightarrow> nat" where
  "tokens h T c = size (filter_mset (holds c) T) + idle_slots h c"

fun pc_ok :: "heap \<Rightarrow> pc \<Rightarrow> bool" where
  "pc_ok h (ClosingCount c hc) \<longleftrightarrow> c < h_nextConn h \<and> hc = c_halfClosed (h_conns h c)"
| "pc_ok h (ClosingDispose c hc) \<longleftrightarrow> c < h_nextConn h \<and> hc = c_halfClosed (h_conns h c)"
| "pc_ok h (GetDecide b p c) \<longleftrightarrow> c < h_nextConn h \<and> \<not> c_halfClosed (h_conns h c) \<and>
     c_backend (h_conns h c) = b \<and> c_pool (h_conns h c) = Some p"
| "pc_ok h (DialCount b c) \<longleftrightarrow> c < h_nextConn h \<and> c_backend (h_conns h c) = b"

definition idle_ok :: "heap \<Rightarrow> bool" where
  "idle_ok h \<longleftrightarrow> (\<forall>p c. c \<in> set (p_idle (h_pools h p)) \<longrightarrow>
     c < h_nextConn h \<and> \<not> c_halfClosed (h_conns h c) \<and> c_pool (h_conns h c) = Some p)"

definition conn_ok :: "heap \<Rightarrow> bool" where
  "conn_ok h \<longleftrightarrow> (\<forall>c < h_nextConn h.
     (sock_finSent (c_Conn (h_conns h c)) \<longrightarrow> c_halfClosed (h_conns h c)) \<and>
     c_pool (h_conns h c) = b_pool (h_backends h (c_backend (h_conns h c))) \<and>
     c_backend (h_conns h c) < h_nextBackend h)"

definition pools_ok :: "heap \<Rightarrow> bool" where
  "pools_ok h \<longleftrightarrow> (\<forall>b b' p. b < h_nextBackend h \<longrightarrow> b' < h_nextBackend h \<longrightarrow>
     b_pool (h_backends h b) = Some p \<longrightarrow> b_pool (h_backends h b') = Some p \<longrightarrow> b = b')"

text \<open>A connection in use or in somebody's hands has an open socket.\<close>

definition open_ok :: "heap \<Rightarrow> pc multiset \<Rightarrow> bool" where
  "open_ok h T \<longleftrightarrow> (\<forall>c < h_nextConn h. \<not> c_returned (h_conns h c) \<or> 0 < tokens h T c \<longrightarrow>
     \<not> sock_closed (c_Conn (h_conns h c)))"

definition tokens_ok :: "heap \<Rightarrow> pc multiset \<Rightarrow> bool" where
  "tokens_ok h T \<longleftrightarrow> (\<forall>c < h_nextConn h. tokens h T c \<le> (if c_returned (h_conns h c) then 1 else 0))"

fun conn_inv :: "heap \<times> pc multiset \<Rightarrow> bool" where
  "conn_inv (h, T) \<longleftrightarrow> conn_ok h \<and> pools_ok h \<and> idle_ok h \<and> (\<forall>t \<in># T. pc_ok h t) \<and>
     tokens_ok h T \<and> open_ok h T"


text \<open>A connection that nobody but its user holds.\<close>

lemma not_returned_free:
  assumes "conn_inv (h, T)" and "c < h_nextConn h" and "\<not> c_returned (h_conns h c)"
  shows "tokens h T c = 0" and "\<forall>t \<in># T. \<not> holds c t" and "c \<notin> set (p_idle (h_pools h p))"
proof -
  show z: "tokens h T c = 0" using assms by (auto simp: tokens_ok_def)
  show "\<forall>t \<in># T. \<not> holds c t" using z by (auto simp: tokens_def)
  show "c \<notin> set (p_idle (h_pools h p))"
    using z assms(1) by (auto simp: tokens_def idle_slots_def idle_ok_def count_list_0_iff split: option.splits)
qed

text \<open>A returned connection that a goroutine holds is in no pool and in no other hands.\<close>

lemma held_alone:
  assumes inv: "conn_inv (h, add_mset t T)" and "holds c t" and "c < h_nextConn h"
  shows "c_returned (h_conns h c)" and "\<forall>t' \<in># T. \<not> holds c t'" and "c \<notin> set (p_idle (h_pools h p))"
    and "tokens h T c = 0" and "\<not> sock_closed (c_Conn (h_conns h c))"
proof -
  have "tokens h (add_mset t T) c \<le> (if c_returned (h_conns h c) then 1 else 0)"
    using inv assms(3) by (simp add: tokens_ok_def)
  then show ret: "c_returned (h_conns h c)" and z: "tokens h T c = 0"
    using assms(2) by (auto simp: tokens_def split: if_splits)
  show "\<forall>t' \<in># T. \<not> holds c t'" using z by (auto simp: tokens_def)
  show "c \<notin> set (p_idle (h_pools h p))"
    using z inv by (auto simp: tokens_def idle_slots_def idle_ok_def count_list_0_iff split: option.splits)
  have "0 < tokens h (add_mset t T) c" using assms(2) by (simp add: tokens_def)
  then show "\<not> sock_closed (c_Conn (h_conns h c))"
    using inv assms(3) by (simp add: open_ok_def)
qed

lemma tokens_frame:
  assumes "\<And>p. p_idle (h_pools h' p) = p_idle (h_pools h p)"
    and "c_pool (h_conns h' c) = c_pool (h_conns h c)"
  shows "tokens h' T c = tokens h T c"
  using assms by (auto simp: tokens_def idle_slots_def split: option.splits)

lemma tokens_add: "tokens h (add_mset t T) c = (if holds c t then Suc (tokens h T c) else tokens h T c)"
  by (simp add: tokens_def)

lemma c_CloseWrite_sel [simp]:
  "h_pools (snd (c_CloseWrite c h)) = h_pools h"
  "h_backends (snd (c_CloseWrite c h)) = h_backends h"
  "h_nextConn (snd (c_CloseWrite c h)) = h_nextConn h"
  "h_nextBackend (snd (c_CloseWrite c h)) = h_nextBackend h"
  "c_pool (h_conns (snd (c_CloseWrite c h)) c') = c_pool (h_conns h c')"
  by (simp_all add: c_CloseWrite_def sock_CloseWrite_def Let_def)

lemma pc_ok_frame:
  assumes "pc_ok h t" and "\<not> holds c t" and "h_nextConn h \<le> h_nextConn h'"
    and "\<And>c'. c' < h_nextConn h \<Longrightarrow> c' \<noteq> c \<Longrightarrow> h_conns h' c' = h_conns h c'"
    and "c < h_nextConn h \<Longrightarrow> c_backend (h_conns h' c) = c_backend (h_conns h c)"
  shows "pc_ok h' t"
  using assms by (cases t) (force)+

lemma conn_invD:
  assumes "conn_inv (h, T)"
  shows "conn_ok h" "pools_ok h" "idle_ok h" "\<And>t. t \<in># T \<Longrightarrow> pc_ok h t" "tokens_ok h T" "open_ok h T"
  using assms by simp_all

lemma conn_okD:
  assumes "conn_ok h" and "c < h_nextConn h"
  shows "sock_finSent (c_Conn (h_conns h c)) \<Longrightarrow> c_halfClosed (h_conns h c)"
    and "c_pool (h_conns h c) = b_pool (h_backends h (c_backend (h_conns h c)))"
    and "c_backend (h_conns h c) < h_nextBackend h"
  using assms unfolding conn_ok_def by blast+

lemma idle_okD:
  assumes "idle_ok h" and "c \<in> set (p_idle (h_pools h p))"
  shows "c < h_nextConn h" "\<not> c_halfClosed (h_conns h c)" "c_pool (h_conns h c) = Some p"
  using assms unfolding idle_ok_def by blast+

text \<open>The steps that write one connection: what has to be checked of the new contents \<open>v\<close>.\<close>

lemma update_inv:
  assumes inv: "conn_inv (h, T)" and c: "c < h_nextConn h"
    and same: "h_nextConn h' = h_nextConn h" "h_nextBackend h' = h_nextBackend h" "h_backends h' = h_backends h"
    and idle: "\<And>p. p_idle (h_pools h' p) = p_idle (h_pools h p)"
    and conns: "h_conns h' = (h_conns h)(c := v)"
    and v: "c_pool v = c_pool (h_conns h c)" "c_backend v = c_backend (h_conns h c)"
      "sock_finSent (c_Conn v) \<Longrightarrow> c_halfClosed v"
    and T': "\<And>t. t \<in># T' \<Longrightarrow> \<not> holds c t \<and> pc_ok h t \<or> pc_ok h' t"
    and free: "\<And>p. c_halfClosed v \<Longrightarrow> c \<notin> set (p_idle (h_pools h p))"
    and tok: "tokens h T' c \<le> (if c_returned v then 1 else 0)"
    and sock: "\<not> c_returned v \<or> 0 < tokens h T' c \<Longrightarrow> \<not> sock_closed (c_Conn v)"
    and other: "\<And>c'. c' \<noteq> c \<Longrightarrow> tokens h T' c' \<le> tokens h T c'"
  shows "conn_inv (h', T')"
proof -
  note I = conn_invD [OF inv]
  have tk: "tokens h' T' c' = tokens h T' c'" for c'
    by (rule tokens_frame) (simp_all add: idle conns v(1))
  have "conn_ok h'" unfolding conn_ok_def
  proof (intro allI impI)
    fix c' assume "c' < h_nextConn h'"
    with conn_okD [OF I(1), of c'] v show "(sock_finSent (c_Conn (h_conns h' c')) \<longrightarrow> c_halfClosed (h_conns h' c')) \<and>
        c_pool (h_conns h' c') = b_pool (h_backends h' (c_backend (h_conns h' c'))) \<and>
        c_backend (h_conns h' c') < h_nextBackend h'"
      by (cases "c' = c") (simp_all add: conns same)
  qed
  moreover have "pools_ok h'" using I(2) by (simp add: pools_ok_def same)
  moreover have "idle_ok h'" unfolding idle_ok_def
  proof (intro allI impI)
    fix p c' assume "c' \<in> set (p_idle (h_pools h' p))"
    with idle_okD [OF I(3), of c' p] free v(1)
    show "c' < h_nextConn h' \<and> \<not> c_halfClosed (h_conns h' c') \<and> c_pool (h_conns h' c') = Some p"
      by (auto simp: conns same idle)
  qed
  moreover have "pc_ok h' t" if "t \<in># T'" for t
    using T' [OF that] c v by (auto simp: same conns intro: pc_ok_frame [of h t c])
  moreover have "tokens_ok h' T'" unfolding tokens_ok_def
  proof (intro allI impI)
    fix c' assume "c' < h_nextConn h'"
    with I(5) tok other [of c'] show "tokens h' T' c' \<le> (if c_returned (h_conns h' c') then 1 else 0)"
      by (cases "c' = c") (auto simp: tokens_ok_def tk conns same dest!: spec [of _ c'])
  qed
  moreover have "open_ok h' T'" unfolding open_ok_def
  proof (intro allI impI)
    fix c' assume "c' < h_nextConn h'" "\<not> c_returned (h_conns h' c') \<or> 0 < tokens h' T' c'"
    with I(6) sock other [of c'] show "\<not> sock_closed (c_Conn (h_conns h' c'))"
      by (cases "c' = c") (auto simp: open_ok_def tk conns same)
  qed
  ultimately show ?thesis by simp
qed

lemma half_close_inv:
  assumes inv: "conn_inv (h, T)" and c: "c < h_nextConn h"
  shows "conn_inv (snd (c_CloseWrite c h), T)"
proof (cases "c_returned (h_conns h c)")
  case True
  then show ?thesis using assms by (simp add: c_CloseWrite_def)
next
  case False
  note free = not_returned_free [OF inv c False]
  let ?h = "snd (c_CloseWrite c h)" and ?v = "h_conns (snd (c_CloseWrite c h)) c"
  have v: "h_conns ?h = (h_conns h)(c := ?v)" "c_halfClosed ?v" "\<not> c_returned ?v"
    "c_backend ?v = c_backend (h_conns h c)"
    "sock_closed (c_Conn ?v) = sock_closed (c_Conn (h_conns h c))"
    using False by (simp_all add: c_CloseWrite_def sock_CloseWrite_def Let_def)
  have "\<not> sock_closed (c_Conn ?v)" using inv c False unfolding v(5) by (simp add: open_ok_def)
  moreover have "\<not> holds c t \<and> pc_ok h t" if "t \<in># T" for t using free(2) conn_invD(4) [OF inv] that by blast
  ultimately show ?thesis
    by (intro update_inv [OF inv c, OF _ _ _ _ v(1)]) (use v(2-4) free in simp_all)
qed

lemma close_enter_inv:
  assumes inv: "conn_inv (h, T)" and c: "c < h_nextConn h" and enter: "c_CloseEnter c h = (Some hc, h')"
  shows "conn_inv (h', add_mset (ClosingCount c hc) T)"
proof -
  have False: "\<not> c_returned (h_conns h c)" and hc: "hc = c_halfClosed (h_conns h c)"
    and h': "h' = upd_conn c (\<lambda>v. v\<lparr>c_returned := True\<rparr>) h"
    using enter by (auto simp: c_CloseEnter_def split: if_splits)
  note free = not_returned_free [OF inv c False]
  have "\<not> sock_closed (c_Conn (h_conns h c))" using inv c False by (simp add: open_ok_def)
  then show ?thesis using inv free(2) conn_okD [OF conn_invD(1) [OF inv] c] c
    by (intro update_inv [OF inv c, where v = "(h_conns h c)\<lparr>c_returned := True\<rparr>"])
      (auto simp: h' hc free tokens_add)
qed

lemma addActive_sel [simp]:
  "h_conns (b_addActive k b h) = h_conns h" "h_pools (b_addActive k b h) = h_pools h"
  "h_nextConn (b_addActive k b h) = h_nextConn h" "h_nextBackend (b_addActive k b h) = h_nextBackend h"
  "b_pool (h_backends (b_addActive k b h) b') = b_pool (h_backends h b')"
  by (simp_all add: b_addActive_def)

lemma conn_inv_cong:
  assumes "h_conns h' = h_conns h" "h_nextConn h' = h_nextConn h" "h_nextBackend h' = h_nextBackend h"
    "\<And>p. p_idle (h_pools h' p) = p_idle (h_pools h p)"
    "\<And>b. b_pool (h_backends h' b) = b_pool (h_backends h b)"
  shows "conn_inv (h', T) = conn_inv (h, T)"
proof -
  have "tokens h' = tokens h" using assms by (auto simp: fun_eq_iff intro: tokens_frame)
  moreover have "pc_ok h' t = pc_ok h t" for t using assms by (cases t) simp_all
  ultimately show ?thesis using assms
    by (simp add: conn_ok_def pools_ok_def idle_ok_def tokens_ok_def open_ok_def)
qed

lemma addActive_inv [simp]: "conn_inv (b_addActive k b h, T) = conn_inv (h, T)"
  by (rule conn_inv_cong) simp_all

lemma close_count_inv:
  assumes "conn_inv (h, add_mset (ClosingCount c hc) T)"
  shows "conn_inv (b_addActive k b h, add_mset (ClosingDispose c hc) T)"
proof -
  have "tokens h (add_mset (ClosingCount c hc) T) = tokens h (add_mset (ClosingDispose c hc) T)"
    by (simp add: fun_eq_iff tokens_add)
  then have "tokens_ok h (add_mset (ClosingDispose c hc) T) = tokens_ok h (add_mset (ClosingCount c hc) T)"
    "open_ok h (add_mset (ClosingDispose c hc) T) = open_ok h (add_mset (ClosingCount c hc) T)"
    unfolding tokens_ok_def open_ok_def by simp_all
  moreover have "pc_ok h (ClosingDispose c hc)" using assms by simp
  ultimately show ?thesis using conn_invD [OF assms] unfolding addActive_inv
    by (auto simp: Ball_def)
qed

text \<open>Letting go of a held connection by closing its socket.\<close>

lemma close_socket_inv:
  assumes inv: "conn_inv (h, add_mset t T)" and t: "holds c t" and c: "c < h_nextConn h"
    and conns: "h_conns h' = (h_conns h)(c := (h_conns h c)\<lparr>c_Conn := (c_Conn (h_conns h c))\<lparr>sock_closed := True\<rparr>\<rparr>)"
    and idle: "\<And>p. p_idle (h_pools h' p) = p_idle (h_pools h p)"
    and same: "h_nextConn h' = h_nextConn h" "h_nextBackend h' = h_nextBackend h" "h_backends h' = h_backends h"
  shows "conn_inv (h', T)"
proof -
  note alone = held_alone [OF inv t c] and I = conn_invD [OF inv]
  show ?thesis
    using alone conn_okD(1) [OF I(1) c] I(4)
    by (intro update_inv [OF inv c same idle conns]) (auto simp: tokens_add)
qed

lemma c_closeSocket_conns:
  assumes "\<not> sock_closed (c_Conn (h_conns h c))"
  shows "h_conns (snd (c_closeSocket c h)) =
    (h_conns h)(c := (h_conns h c)\<lparr>c_Conn := (c_Conn (h_conns h c))\<lparr>sock_closed := True\<rparr>\<rparr>)"
  using assms by (simp add: c_closeSocket_def sock_Close_def)

lemma c_closeSocket_sel [simp]:
  "h_pools (snd (c_closeSocket c h)) = h_pools h" "h_backends (snd (c_closeSocket c h)) = h_backends h"
  "h_nextConn (snd (c_closeSocket c h)) = h_nextConn h"
  "h_nextBackend (snd (c_closeSocket c h)) = h_nextBackend h"
  by (simp_all add: c_closeSocket_def split: prod.splits)

text \<open>A second close of the same socket changes nothing.\<close>

lemma c_closeSocket_again:
  "sock_closed (c_Conn (h_conns h c)) \<Longrightarrow> c_closeSocket c h = (Some ErrNetClosed, h)"
  by (simp add: c_closeSocket_def sock_Close_def upd_conn_def)

lemma put_idle_inv:
  assumes inv: "conn_inv (h, add_mset (ClosingDispose c False) T)" and p: "c_pool (h_conns h c) = Some p"
  shows "conn_inv (upd_pool p (\<lambda>v. v\<lparr>p_idle := p_idle v @ [c], p_returned := k\<rparr>) h, T)"
proof -
  let ?h = "upd_pool p (\<lambda>v. v\<lparr>p_idle := p_idle v @ [c], p_returned := k\<rparr>) h"
  have c: "c < h_nextConn h" and hc: "\<not> c_halfClosed (h_conns h c)" using inv by auto
  have tk: "tokens ?h T c' = tokens h (add_mset (ClosingDispose c False) T) c'" for c'
    using p by (auto simp: tokens_def idle_slots_def split: option.splits)
  have "tokens_ok ?h T = tokens_ok h (add_mset (ClosingDispose c False) T)"
    "open_ok ?h T = open_ok h (add_mset (ClosingDispose c False) T)"
    unfolding tokens_ok_def open_ok_def tk by simp_all
  moreover have "pc_ok ?h t = pc_ok h t" for t by (cases t) simp_all
  moreover have "idle_ok ?h" unfolding idle_ok_def
    using idle_okD [OF conn_invD(3) [OF inv]] c hc p by auto
  ultimately show ?thesis using inv
    by (simp add: conn_ok_def pools_ok_def)
qed

lemma close_dispose_inv:
  assumes inv: "conn_inv (h, add_mset (ClosingDispose c hc) T)"
  shows "conn_inv (snd (c_CloseDispose now c hc h), T)"
proof -
  have c: "c < h_nextConn h" using inv by simp
  note alone = held_alone [OF inv _ c]
  have sock: "\<not> sock_closed (c_Conn (h_conns h c))" using alone(5) by simp
  have drop: "conn_inv (snd (c_closeSocket c (upd_pool p (\<lambda>v. v\<lparr>p_dropped := k\<rparr>) h)), T)" for p k
    by (rule close_socket_inv [OF inv _ c])
      (use sock in \<open>simp_all add: c_closeSocket_conns\<close>)
  have closed: "sock_closed (c_Conn (h_conns (snd (c_closeSocket c (upd_pool p (\<lambda>v. v\<lparr>p_dropped := k\<rparr>) h))) c))"
    for p k using sock by (simp add: c_closeSocket_conns)
  have plain: "conn_inv (snd (c_closeSocket c h), T)"
    by (rule close_socket_inv [OF inv _ c]) (use sock in \<open>simp_all add: c_closeSocket_conns\<close>)
  show ?thesis
  proof (cases "c_pool (h_conns h c)")
    case None
    with plain show ?thesis by (simp add: c_CloseDispose_def)
  next
    case (Some p)
    show ?thesis
    proof (cases hc)
      case True
      with Some plain show ?thesis by (simp add: c_CloseDispose_def)
    next
      case False
      have "conn_inv (upd_pool p (\<lambda>v. v\<lparr>p_idle := p_idle v @ [c], p_returned := p_returned v + 1\<rparr>) h, T)"
        using put_idle_inv [of h c T p "p_returned (h_pools h p) + 1"] inv False Some
        by (simp add: upd_pool_def)
      with Some False drop closed show ?thesis
        by (auto simp: c_CloseDispose_def p_put_def Let_def c_closeSocket_again upd_pool_def)
    qed
  qed
qed

lemma get_recv_inv:
  assumes inv: "conn_inv (h, T)" and b: "b < h_nextBackend h" and p: "b_pool (h_backends h b) = Some p"
    and idle: "p_idle (h_pools h p) = c # cs"
  shows "conn_inv (p_recv p h, add_mset (GetDecide b p c) T)"
proof -
  let ?h = "p_recv p h"
  have c: "c < h_nextConn h" "\<not> c_halfClosed (h_conns h c)" "c_pool (h_conns h c) = Some p"
    using idle_okD [OF conn_invD(3) [OF inv], of c p] idle by simp_all
  have "b_pool (h_backends h (c_backend (h_conns h c))) = Some p" "c_backend (h_conns h c) < h_nextBackend h"
    using conn_okD [OF conn_invD(1) [OF inv] c(1)] c by simp_all
  then have cb: "c_backend (h_conns h c) = b" using conn_invD(2) [OF inv] b p unfolding pools_ok_def by blast
  have tk: "tokens ?h (add_mset (GetDecide b p c) T) c' = tokens h T c'" if "c' < h_nextConn h" for c'
    using idle c(3) by (auto simp: tokens_def idle_slots_def p_recv_def split: option.splits)
  have sel: "h_nextConn ?h = h_nextConn h" "h_conns ?h = h_conns h" "h_backends ?h = h_backends h"
    "h_nextBackend ?h = h_nextBackend h" "set (p_idle (h_pools ?h p')) \<subseteq> set (p_idle (h_pools h p'))" for p'
    using idle by (auto simp: p_recv_def)
  have "pc_ok ?h t = pc_ok h t" for t by (cases t) (simp_all add: sel)
  moreover have "tokens_ok ?h (add_mset (GetDecide b p c) T)" "open_ok ?h (add_mset (GetDecide b p c) T)"
    using conn_invD(5,6) [OF inv] unfolding tokens_ok_def open_ok_def by (simp_all add: sel tk)
  moreover have "idle_ok ?h" unfolding idle_ok_def
    using idle_okD [OF conn_invD(3) [OF inv]] sel by (metis subsetD)
  ultimately show ?thesis using inv c cb by (simp add: conn_ok_def pools_ok_def sel)
qed

lemma get_drop_inv:
  assumes inv: "conn_inv (h, add_mset (GetDecide b p c) T)" and drop: "p_consider now l p c h = (False, h')"
  shows "conn_inv (h', T)"
proof -
  have c: "c < h_nextConn h" using inv by simp
  have sock: "\<not> sock_closed (c_Conn (h_conns h c))" using held_alone(5) [OF inv _ c] by simp
  have "h' = snd (c_closeSocket c (upd_pool p (\<lambda>v. v\<lparr>p_dropped := p_dropped v + 1\<rparr>) h))"
    using drop by (auto simp: p_consider_def split: if_splits)
  then show ?thesis
    by (intro close_socket_inv [OF inv _ c]) (use sock in \<open>simp_all add: c_closeSocket_conns\<close>)
qed

lemma get_hit_inv:
  assumes inv: "conn_inv (h, add_mset (GetDecide b p c) T)" and hit: "p_consider now l p c h = (True, h')"
  shows "conn_inv (h', add_mset (DialCount b c) T)"
proof -
  have c: "c < h_nextConn h" "c_backend (h_conns h c) = b" using inv by simp_all
  note alone = held_alone [OF inv _ c(1)]
  have h': "h' = upd_conn c (c_reuse now) (upd_pool p (\<lambda>v. v\<lparr>p_hits := p_hits v + 1\<rparr>) h)"
    using hit by (auto simp: p_consider_def split: if_splits)
  show ?thesis
    using alone conn_okD(1) [OF conn_invD(1) [OF inv] c(1)] conn_invD(4) [OF inv] c
    by (intro update_inv [OF inv c(1), where v = "c_reuse now (h_conns h c)"])
      (auto simp: h' c_reuse_def tokens_add)
qed

lemma dial_new_inv:
  assumes inv: "conn_inv (h, T)" and b: "b < h_nextBackend h"
    and s: "\<not> sock_closed s" "\<not> sock_finSent s" and new: "new_pooledConn now s b h = (c, h')"
  shows "conn_inv (h', add_mset (DialCount b c) T)"
proof -
  have c: "c = h_nextConn h" and next': "h_nextConn h' = Suc c" "h_nextBackend h' = h_nextBackend h"
    and same: "h_pools h' = h_pools h" "h_backends h' = h_backends h"
    and conns: "h_conns h' = (h_conns h)(c := h_conns h' c)"
    and fresh: "c_Conn (h_conns h' c) = s" "c_backend (h_conns h' c) = b"
      "c_pool (h_conns h' c) = b_pool (h_backends h b)" "\<not> c_returned (h_conns h' c)"
      "\<not> c_halfClosed (h_conns h' c)"
    using new by (auto simp: new_pooledConn_def c_touch_def Let_def)
  have old: "h_conns h' c' = h_conns h c'" if "c' < c" for c' using conns that by (metis fun_upd_other nat_neq_iff)
  have none: "\<forall>t \<in># T. \<not> holds c t" using inv c by (auto elim!: holds.elims)
  have nidle: "c \<notin> set (p_idle (h_pools h p))" for p using inv c by (auto simp: idle_ok_def)
  have tk: "tokens h' (add_mset (DialCount b c) T) c' = (if c' = c then 0 else tokens h T c')" if "c' \<le> c" for c'
  proof (cases "c' = c")
    case True
    then show ?thesis using none nidle by (auto simp: tokens_def idle_slots_def same count_list_0_iff split: option.splits)
  next
    case False
    with that show ?thesis using tokens_frame [of h' h c' T] old by (simp add: tokens_add same)
  qed
  note I = conn_invD [OF inv]
  have "pc_ok h' t" if "t \<in># T" for t
    by (rule pc_ok_frame [of h t c]) (use I(4) none that old in \<open>auto simp: next' c\<close>)
  moreover have "conn_ok h'" unfolding conn_ok_def
  proof (intro allI impI)
    fix c' assume "c' < h_nextConn h'"
    with conn_okD [OF I(1), of c'] old [of c'] b s fresh
    show "(sock_finSent (c_Conn (h_conns h' c')) \<longrightarrow> c_halfClosed (h_conns h' c')) \<and>
        c_pool (h_conns h' c') = b_pool (h_backends h' (c_backend (h_conns h' c'))) \<and>
        c_backend (h_conns h' c') < h_nextBackend h'"
      by (cases "c' = c") (simp_all add: same next' c less_Suc_eq)
  qed
  moreover have "idle_ok h'" unfolding idle_ok_def same next'
    using idle_okD [OF I(3)] old c by (metis less_SucI)
  moreover have "tokens_ok h' (add_mset (DialCount b c) T)" unfolding tokens_ok_def next'
    using I(5) tk old unfolding tokens_ok_def c [symmetric]
    by (metis less_imp_le_nat less_Suc_eq less_Suc_eq_le nat_neq_iff zero_le)
  moreover have "open_ok h' (add_mset (DialCount b c) T)" unfolding open_ok_def next'
    using I(6) tk old s(1) fresh(1) unfolding open_ok_def c [symmetric]
    by (metis less_imp_le_nat less_Suc_eq nat_neq_iff)
  ultimately show ?thesis using I(2) fresh by (simp add: pools_ok_def same next' c)
qed

lemma conn_step_inv: "conn_step s s' \<Longrightarrow> conn_inv s \<Longrightarrow> conn_inv s'"
proof (induction rule: conn_step.induct)
  case (close_again c h h' T)
  then show ?case by (auto simp: c_CloseEnter_def split: if_splits)
next
  case (get_miss h p T)
  then show ?case by (subst conn_inv_cong [of _ h]) simp_all
next
  case (dial_start h T b)
  then show ?case by (subst conn_inv_cong [of _ h]) simp_all
next
  case (dial_fail h T b)
  then show ?case by (subst conn_inv_cong [of _ h]) simp_all
next
  case (dial_count h b c T)
  then show ?case unfolding addActive_inv by (simp add: tokens_ok_def open_ok_def tokens_add)
qed (blast intro: half_close_inv close_enter_inv close_count_inv close_dispose_inv get_recv_inv get_drop_inv
    get_hit_inv dial_new_inv)+

definition fresh_heap :: "heap \<Rightarrow> bool" where
  "fresh_heap h \<longleftrightarrow> h_nextConn h = 0 \<and> (\<forall>p. p_idle (h_pools h p) = []) \<and> pools_ok h \<and>
     (\<forall>b. b_activeConns (h_backends h b) = 0)"

lemma fresh_inv: "fresh_heap h \<Longrightarrow> conn_inv (h, {#})"
  by (simp add: fresh_heap_def conn_ok_def idle_ok_def tokens_ok_def open_ok_def)

interpretation conn_sys: step_system conn_step conn_inv
  by unfold_locales (rule conn_step_inv)

lemmas conn_steps_inv = conn_sys.reach_keeps

subsection \<open>The active counter\<close>

definition in_use :: "heap \<Rightarrow> backend_ref \<Rightarrow> conn_ref set" where
  "in_use h b = {c. c < h_nextConn h \<and> c_backend (h_conns h c) = b \<and> \<not> c_returned (h_conns h c)}"

fun counts_dial :: "backend_ref \<Rightarrow> pc \<Rightarrow> bool" where
  "counts_dial b (DialCount b' c) \<longleftrightarrow> b' = b"
| "counts_dial b _ \<longleftrightarrow> False"

fun counts_close :: "heap \<Rightarrow> backend_ref \<Rightarrow> pc \<Rightarrow> bool" where
  "counts_close h b (ClosingCount c hc) \<longleftrightarrow> c_backend (h_conns h c) = b"
| "counts_close h b _ \<longleftrightarrow> False"

fun active_ok :: "heap \<times> pc multiset \<Rightarrow> bool" where
  "active_ok (h, T) \<longleftrightarrow> (\<forall>b. b_activeConns (h_backends h b) + int (size (filter_mset (counts_dial b) T)) =
     int (card (in_use h b)) + int (size (filter_mset (counts_close h b) T)))"

lemma finite_in_use [simp]: "finite (in_use h b)"
  by (simp add: in_use_def)

lemma counts_close_frame:
  assumes "\<And>t. t \<in># T \<Longrightarrow> pc_ok h t"
    and "\<And>c. c < h_nextConn h \<Longrightarrow> c_backend (h_conns h' c) = c_backend (h_conns h c)"
  shows "filter_mset (counts_close h' b) T = filter_mset (counts_close h b) T"
proof (rule filter_mset_cong [OF refl])
  fix t assume "t \<in># T"
  with assms show "counts_close h' b t = counts_close h b t" by (cases t) fastforce+
qed

text \<open>A step that leaves the counter alone and changes the flag of one connection.\<close>

lemma in_use_update:
  assumes "c < h_nextConn h" and "h_nextConn h' = h_nextConn h" and "h_conns h' = (h_conns h)(c := v)"
    and "c_backend v = c_backend (h_conns h c)"
  shows "in_use h' b = (if c_backend v \<noteq> b then in_use h b else if c_returned v then in_use h b - {c}
    else insert c (in_use h b))"
  using assms by (auto simp: in_use_def)

lemma in_use_frame:
  assumes "h_nextConn h' = h_nextConn h"
    and "\<And>c. c_backend (h_conns h' c) = c_backend (h_conns h c)"
    and "\<And>c. c_returned (h_conns h' c) = c_returned (h_conns h c)"
  shows "in_use h' b = in_use h b"
  using assms by (auto simp: in_use_def)

lemma c_closeSocket_fields [simp]:
  "c_backend (h_conns (snd (c_closeSocket c h)) c') = c_backend (h_conns h c')"
  "c_returned (h_conns (snd (c_closeSocket c h)) c') = c_returned (h_conns h c')"
  by (simp_all add: c_closeSocket_def split: prod.splits)

lemma c_CloseDispose_fields [simp]:
  "c_backend (h_conns (snd (c_CloseDispose now c hc h)) c') = c_backend (h_conns h c')"
  "c_returned (h_conns (snd (c_CloseDispose now c hc h)) c') = c_returned (h_conns h c')"
  "h_nextConn (snd (c_CloseDispose now c hc h)) = h_nextConn h"
  "h_backends (snd (c_CloseDispose now c hc h)) = h_backends h"
  by (simp_all add: c_CloseDispose_def p_put_def Let_def split: option.splits)

lemma c_CloseWrite_fields [simp]:
  "c_backend (h_conns (snd (c_CloseWrite c h)) c') = c_backend (h_conns h c')"
  "c_returned (h_conns (snd (c_CloseWrite c h)) c') = c_returned (h_conns h c')"
  by (simp_all add: c_CloseWrite_def sock_CloseWrite_def Let_def)

lemma counts_close_cong:
  assumes "\<And>c. c_backend (h_conns h' c) = c_backend (h_conns h c)"
  shows "counts_close h' b = counts_close h b"
proof
  fix t show "counts_close h' b t = counts_close h b t" using assms by (cases t) simp_all
qed

text \<open>A step that keeps the counter, the owners and the flags.\<close>

lemma active_frame:
  assumes "active_ok (h, T)" and "\<And>b. b_activeConns (h_backends h' b) = b_activeConns (h_backends h b)" and "h_nextConn h' = h_nextConn h"
    and "\<And>c. c_backend (h_conns h' c) = c_backend (h_conns h c)"
    and "\<And>c. c_returned (h_conns h' c) = c_returned (h_conns h c)"
    and "\<And>b. filter_mset (counts_dial b) T' = filter_mset (counts_dial b) T"
    and "\<And>b. filter_mset (counts_close h b) T' = filter_mset (counts_close h b) T"
  shows "active_ok (h', T')"
  using assms in_use_frame [of h' h] counts_close_cong [of h' h] by simp

lemma close_enter_active:
  assumes ok: "active_ok (h, T)" and c: "c < h_nextConn h" and enter: "c_CloseEnter c h = (Some hc, h')"
  shows "active_ok (h', add_mset (ClosingCount c hc) T)"
proof -
  have r: "\<not> c_returned (h_conns h c)" and h': "h' = upd_conn c (\<lambda>v. v\<lparr>c_returned := True\<rparr>) h"
    using enter by (auto simp: c_CloseEnter_def split: if_splits)
  have use: "card (in_use h b) = (if c_backend (h_conns h c) = b then Suc (card (in_use h' b)) else card (in_use h' b))" for b
  proof -
    have "in_use h' b = (if c_backend (h_conns h c) \<noteq> b then in_use h b else in_use h b - {c})"
      using in_use_update [of c h h' "(h_conns h c)\<lparr>c_returned := True\<rparr>" b] c by (simp add: h')
    moreover have "c \<in> in_use h b" if "c_backend (h_conns h c) = b" using c r that by (simp add: in_use_def)
    ultimately show ?thesis using card.remove [of "in_use h b" c] by simp
  qed
  have "counts_close h' b = counts_close h b" for b by (rule counts_close_cong) (simp add: h')
  with ok use show ?thesis by (simp add: h')
qed

lemma get_hit_active:
  assumes inv: "conn_inv (h, add_mset (GetDecide b p c) T)" and ok: "active_ok (h, add_mset (GetDecide b p c) T)"
    and hit: "p_consider now l p c h = (True, h')"
  shows "active_ok (h', add_mset (DialCount b c) T)"
proof -
  have c: "c < h_nextConn h" "c_backend (h_conns h c) = b" using inv by simp_all
  have r: "c_returned (h_conns h c)" using held_alone(1) [OF inv _ c(1)] by simp
  have h': "h' = upd_conn c (c_reuse now) (upd_pool p (\<lambda>v. v\<lparr>p_hits := p_hits v + 1\<rparr>) h)"
    using hit by (auto simp: p_consider_def split: if_splits)
  have use: "card (in_use h' b') = (if b' = b then Suc (card (in_use h b')) else card (in_use h b'))" for b'
    using in_use_update [of c h h' "c_reuse now (h_conns h c)" b'] c r
    by (auto simp: h' c_reuse_def in_use_def)
  have "counts_close h' b' = counts_close h b'" for b' by (rule counts_close_cong) (simp add: h' c_reuse_def)
  moreover have "h_backends h' = h_backends h" by (simp add: h')
  ultimately show ?thesis using ok use by auto
qed

lemma dial_new_active:
  assumes inv: "conn_inv (h, T)" and ok: "active_ok (h, T)" and new: "new_pooledConn now s b h = (c, h')"
  shows "active_ok (h', add_mset (DialCount b c) T)"
proof -
  have c: "c = h_nextConn h" and use: "in_use h' b' = (if b' = b then insert c (in_use h b') else in_use h b')" for b'
    using new by (auto simp: new_pooledConn_def c_touch_def Let_def in_use_def less_Suc_eq)
  have "c \<notin> in_use h b" using c by (simp add: in_use_def)
  moreover have "filter_mset (counts_close h' b') T = filter_mset (counts_close h b') T" for b'
    using new conn_invD(4) [OF inv] by (intro counts_close_frame) (auto simp: new_pooledConn_def Let_def)
  moreover have "h_backends h' = h_backends h" using new by (auto simp: new_pooledConn_def Let_def)
  ultimately show ?thesis using ok by (simp add: use)
qed

lemma conn_step_active: "conn_step s s' \<Longrightarrow> conn_inv s \<Longrightarrow> active_ok s \<Longrightarrow> active_ok s'"
proof (induction rule: conn_step.induct)
  case (half_close c h T)
  from half_close(3) show ?case by (rule active_frame) simp_all
next
  case (close_count h c hc T)
  have "counts_close (b_addActive (- 1) b h) b' = counts_close h b'" "in_use (b_addActive (- 1) b h) b' = in_use h b'" for b b'
    by (rule counts_close_cong, simp) (simp add: in_use_def)
  moreover have "b_activeConns (h_backends (b_addActive (- 1) b h) b') =
      (if b' = b then b_activeConns (h_backends h b') - 1 else b_activeConns (h_backends h b'))" for b b'
    by (simp add: b_addActive_def)
  moreover note spec [OF close_count(2) [unfolded active_ok.simps], of b' for b']
  ultimately show ?case unfolding active_ok.simps by (simp add: algebra_simps)
next
  case (close_dispose h c hc T now)
  from close_dispose(2) show ?case by (rule active_frame) simp_all
next
  case (get_recv b h p c cs T)
  from get_recv(5) show ?case by (rule active_frame) (simp_all add: p_recv_def)
next
  case (get_miss h p T)
  from get_miss(3) show ?case by (rule active_frame) simp_all
next
  case (dial_start h T b)
  from dial_start(2) show ?case by (rule active_frame) simp_all
next
  case (dial_fail h T b)
  from dial_fail(2) show ?case by (rule active_frame) simp_all
next
  case (get_drop now l p c h h' b T)
  have "h' = snd (c_closeSocket c (upd_pool p (\<lambda>v. v\<lparr>p_dropped := p_dropped v + 1\<rparr>) h))"
    using get_drop(1) by (auto simp: p_consider_def split: if_splits)
  with get_drop(3) show ?case by (elim active_frame) simp_all
next
  case (dial_count h b c T)
  have "counts_close (b_addActive 1 b h) b' = counts_close h b'" "in_use (b_addActive 1 b h) b' = in_use h b'" for b'
    by (rule counts_close_cong, simp) (simp add: in_use_def)
  note same = this
  have new: "b_activeConns (h_backends (b_addActive 1 b h) b') =
      (if b' = b then b_activeConns (h_backends h b') + 1 else b_activeConns (h_backends h b'))" for b'
    by (simp add: b_addActive_def)
  show ?case unfolding active_ok.simps new same
  proof
    fix b'
    show "(if b' = b then b_activeConns (h_backends h b') + 1 else b_activeConns (h_backends h b')) +
        int (size (filter_mset (counts_dial b') T)) =
        int (card (in_use h b')) + int (size (filter_mset (counts_close h b') T))"
      using spec [OF dial_count(2) [unfolded active_ok.simps], of b'] by (cases "b' = b") simp_all
  qed
next
  case (close_again c h h' T)
  then show ?case by (auto simp: c_CloseEnter_def split: if_splits)
qed (blast intro: close_enter_active get_hit_active dial_new_active)+

lemma fresh_active: "fresh_heap h \<Longrightarrow> active_ok (h, {#})"
  by (simp add: fresh_heap_def in_use_def)

interpretation active_sys: step_system conn_step "\<lambda>s. conn_inv s \<and> active_ok s"
  by unfold_locales (auto intro: conn_step_inv conn_step_active)

lemma conn_steps_active: "conn_step\<^sup>*\<^sup>* s s' \<Longrightarrow> conn_inv s \<Longrightarrow> active_ok s \<Longrightarrow> active_ok s'"
  using active_sys.reach_keeps by blast

subsection \<open>The methods are runs of the system\<close>

lemma Close_run: "c < h_nextConn h \<Longrightarrow> conn_step\<^sup>*\<^sup>* (h, T) (snd (c_Close now c h), T)"
proof (cases "c_CloseEnter c h")
  case (Pair o' h1)
  assume c: "c < h_nextConn h"
  show ?thesis
  proof (cases o')
    case None
    then show ?thesis using Pair c by (auto simp: c_Close_def intro: close_again)
  next
    case (Some hc)
    let ?h2 = "b_addActive (- 1) (c_backend (h_conns h1 c)) h1"
    have "conn_step (h, T) (h1, add_mset (ClosingCount c hc) T)"
      using Pair Some c by (simp add: close_enter)
    moreover have "conn_step (h1, add_mset (ClosingCount c hc) T) (?h2, add_mset (ClosingDispose c hc) T)"
      by (rule close_count)
    moreover have "conn_step (?h2, add_mset (ClosingDispose c hc) T) (snd (c_CloseDispose now c hc ?h2), T)"
      by (rule close_dispose)
    ultimately show ?thesis using Pair Some unfolding c_Close_def
      by (simp add: converse_rtranclp_into_rtranclp)
  qed
qed

lemma getLoop_run:
  assumes "b < h_nextBackend h" and "b_pool (h_backends h b) = Some p" and "p_idle (h_pools h p) = cs"
    and "p_getLoop now live p cs h = (r, h')"
  shows "conn_step\<^sup>*\<^sup>* (h, T) (h', case r of None \<Rightarrow> T | Some c \<Rightarrow> add_mset (DialCount b c) T)"
  using assms
proof (induction cs arbitrary: h)
  case Nil
  have "upd_pool p (\<lambda>v. v\<lparr>p_idle := [], p_misses := p_misses v + 1\<rparr>) h = upd_pool p (\<lambda>v. v\<lparr>p_misses := p_misses v + 1\<rparr>) h"
    using Nil(3) by (cases "h_pools h p") (simp add: upd_pool_def)
  with Nil get_miss [OF Nil(3), of T] show ?case by auto
next
  case (Cons c cs)
  let ?h1 = "p_recv p h"
  have h1: "?h1 = upd_pool p (\<lambda>v. v\<lparr>p_idle := cs\<rparr>) h" using Cons(4) by (simp add: p_recv_def upd_pool_def)
  obtain ok h2 where dec: "p_consider now (live c) p c ?h1 = (ok, h2)" by force
  have recv: "conn_step (h, T) (?h1, add_mset (GetDecide b p c) T)" using Cons(2-4) by (rule get_recv)
  show ?case
  proof (cases ok)
    case True
    with Cons(5) dec have "r = Some c" "h' = h2" by (simp_all add: h1)
    with recv get_hit [of now "live c" p c ?h1 h2 b T] dec True show ?thesis by auto
  next
    case False
    have h2: "h2 = snd (c_closeSocket c (upd_pool p (\<lambda>v. v\<lparr>p_dropped := p_dropped v + 1\<rparr>) ?h1))"
      using dec False by (auto simp: p_consider_def split: if_splits)
    have "conn_step (?h1, add_mset (GetDecide b p c) T) (h2, T)" using dec False by (simp add: get_drop)
    moreover have "conn_step\<^sup>*\<^sup>* (h2, T) (h', case r of None \<Rightarrow> T | Some c \<Rightarrow> add_mset (DialCount b c) T)"
      using Cons(2,3,5) dec False by (intro Cons.IH) (simp_all add: h2 h1)
    ultimately show ?thesis using recv by (meson converse_rtranclp_into_rtranclp)
  qed
qed

lemma getLoop_sel:
  assumes "p_getLoop now live p cs h = (r, h')"
  shows "h_backends h' = h_backends h" "h_nextBackend h' = h_nextBackend h" "h_nextConn h' = h_nextConn h"
  using assms
  by (induction cs arbitrary: h)
    (auto simp: Let_def p_consider_def split: prod.splits if_splits)

lemma Dial_run:
  assumes b: "b < h_nextBackend h"
    and net: "\<And>d a s. dial d a = Inr s \<Longrightarrow> \<not> sock_closed s \<and> \<not> sock_finSent s"
  shows "conn_step\<^sup>*\<^sup>* (h, T) (snd (b_Dial dial live now now' deadline b h), T)"
proof -
  obtain r h1 where get: "(case b_pool (h_backends h b) of None \<Rightarrow> (None, h) | Some p \<Rightarrow> p_get now live p h) = (r, h1)"
    by force
  have run1: "conn_step\<^sup>*\<^sup>* (h, T) (h1, case r of None \<Rightarrow> T | Some c \<Rightarrow> add_mset (DialCount b c) T)"
    using get b getLoop_run [of b h _ _ now live r h1 T] by (auto simp: p_get_def split: option.splits)
  have b1: "b < h_nextBackend h1"
    using get b getLoop_sel [of now live _ _ h r h1] by (auto simp: p_get_def split: option.splits)
  show ?thesis
  proof (cases r)
    case (Some c)
    with run1 get show ?thesis
      by (auto simp: b_Dial_def intro: rtranclp.rtrancl_into_rtrancl dial_count)
  next
    case None
    let ?h2 = "upd_backend b (\<lambda>v. v\<lparr>b_totalConns := b_totalConns v + 1\<rparr>) h1"
    have run2: "conn_step\<^sup>*\<^sup>* (h, T) (?h2, T)"
      using run1 None dial_start [of h1 T b] by auto
    show ?thesis
    proof (cases "dial (dial_timeout now deadline) (b_Addr ?h2 b)")
      case (Inl e)
      with None get run2 dial_fail [of ?h2 T b] show ?thesis by (auto simp: b_Dial_def Let_def)
    next
      case (Inr s)
      obtain c h3 where new: "new_pooledConn now' s b ?h2 = (c, h3)" by force
      have "conn_step (?h2, T) (h3, add_mset (DialCount b c) T)"
        using net [OF Inr] b1 new by (intro dial_new [where s = s and now = now']) auto
      with run2 have "conn_step\<^sup>*\<^sup>* (h, T) (b_addActive 1 b h3, T)"
        by (meson dial_count rtranclp.rtrancl_into_rtrancl)
      with None get Inr new show ?thesis by (simp add: b_Dial_def Let_def)
    qed
  qed
qed

section \<open>What the pool guarantees\<close>

text \<open>The heap at start-up, before the first dial, and a run that parks a connection.\<close>

definition empty_heap :: heap where
  "empty_heap = \<lparr>h_backends = (\<lambda>_. NewBackend []), h_pools = (\<lambda>_. newConnPool DefaultPoolConfig),
     h_conns = (\<lambda>_. \<lparr>c_Conn = \<lparr>sock_isTCP = True, sock_closed = True, sock_finSent = False\<rparr>, c_backend = 0,
        c_pool = None, c_createdAt = 0, c_lastUsed = 0, c_returned = True, c_halfClosed = False\<rparr>),
     h_nextBackend = 0, h_nextPool = 0, h_nextConn = 0\<rparr>"

definition sample_heap :: heap where
  "sample_heap = b_EnablePooling (Some DefaultPoolConfig) 0 (snd (alloc_backend (NewBackend ''a:80'') empty_heap))"

definition sample_dial :: "duration \<Rightarrow> string \<Rightarrow> net_error + socket" where
  "sample_dial d a = Inr \<lparr>sock_isTCP = True, sock_closed = False, sock_finSent = False\<rparr>"

definition sample_live :: "conn_ref \<Rightarrow> liveness" where
  "sample_live c = \<lparr>live_deadlineErr = None, live_readErr = Some ErrTimeout\<rparr>"

definition sample_dialled :: heap where
  "sample_dialled = snd (b_Dial sample_dial sample_live 0 0 None 0 sample_heap)"

definition sample_parked :: heap where
  "sample_parked = snd (c_Close 5 0 sample_dialled)"

lemmas sample_defs = sample_parked_def sample_dialled_def sample_heap_def empty_heap_def alloc_backend_def
  b_EnablePooling_def b_Dial_def p_get_def new_pooledConn_def sample_dial_def c_Close_def c_CloseEnter_def
  c_CloseDispose_def p_put_def newConnPool_def DefaultPoolConfig_def NewBackend_def b_addActive_def
  upd_conn_def upd_pool_def upd_backend_def c_touch_def c_expired_def Let_def time_Sub_def

lemma sample_heap_fresh: "fresh_heap sample_heap" "0 < h_nextBackend sample_heap"
  by (simp_all add: fresh_heap_def sample_defs pools_ok_def)

lemma sample_run: "conn_step\<^sup>*\<^sup>* (sample_heap, {#}) (sample_parked, {#})"
  "conn_step\<^sup>*\<^sup>* (sample_heap, {#}) (sample_dialled, {#})"
proof -
  show d: "conn_step\<^sup>*\<^sup>* (sample_heap, {#}) (sample_dialled, {#})"
    unfolding sample_dialled_def by (rule Dial_run) (auto simp: sample_heap_fresh sample_dial_def)
  have "0 < h_nextConn sample_dialled" by (simp add: sample_defs)
  from Close_run [OF this] have "conn_step\<^sup>*\<^sup>* (sample_dialled, {#}) (sample_parked, {#})"
    unfolding sample_parked_def .
  with d show "conn_step\<^sup>*\<^sup>* (sample_heap, {#}) (sample_parked, {#})" by (rule rtranclp_trans)
qed

lemma sample_parked_idle: "p_idle (h_pools sample_parked 0) = [0]"
  by (simp add: sample_defs Second_def max_int64_def min_int64_def)

text \<open>C1: the connection pool never holds, and a dial never considers, a half-closed connection:
  whatever the interleaving of \<^verbatim>\<open>Close\<close>, \<^verbatim>\<open>CloseWrite\<close>, \<^verbatim>\<open>get\<close> and
  \<^verbatim>\<open>Dial\<close> at the granularity of their critical sections and channel operations, a
  connection in an idle channel or taken from one has sent no FIN, has an open socket, is in
  nobody's use, and sits in exactly one slot of the pool of its own backend.\<close>

theorem pool_holds_clean_connections:
  assumes "fresh_heap h0" and "conn_step\<^sup>*\<^sup>* (h0, {#}) (h, T)"
    and "c \<in> set (p_idle (h_pools h p)) \<or> GetDecide b p c \<in># T"
  shows "\<not> c_halfClosed (h_conns h c) \<and> \<not> sock_finSent (c_Conn (h_conns h c)) \<and>
    \<not> sock_closed (c_Conn (h_conns h c)) \<and> c_returned (h_conns h c) \<and> tokens h T c = 1 \<and>
    b_pool (h_backends h (c_backend (h_conns h c))) = Some p"
proof -
  have inv: "conn_inv (h, T)" using conn_steps_inv assms(1,2) fresh_inv by blast
  note I = conn_invD [OF inv]
  have c: "c < h_nextConn h" "\<not> c_halfClosed (h_conns h c)" "c_pool (h_conns h c) = Some p"
    using assms(3) idle_okD [OF I(3)] I(4) by force+
  have "0 < tokens h T c"
    using assms(3)
  proof
    assume "c \<in> set (p_idle (h_pools h p))"
    then show ?thesis using c(3) by (simp add: tokens_def idle_slots_def count_list_0_iff flip: neq0_conv)
  next
    assume "GetDecide b p c \<in># T"
    then have "T = add_mset (GetDecide b p c) (T - {#GetDecide b p c#})" by simp
    then show ?thesis by (metis tokens_add holds.simps(3) zero_less_Suc)
  qed
  moreover have "tokens h T c \<le> (if c_returned (h_conns h c) then 1 else 0)" "0 < tokens h T c \<Longrightarrow> \<not> sock_closed (c_Conn (h_conns h c))"
    using I(5,6) c(1) by (simp_all add: tokens_ok_def open_ok_def)
  ultimately show ?thesis using c conn_okD [OF I(1) c(1)] by (auto split: if_splits)
qed

theorem pool_holds_clean_connections_witness:
  "0 \<in> set (p_idle (h_pools sample_parked 0)) \<and> \<not> c_halfClosed (h_conns sample_parked 0) \<and>
   \<not> sock_finSent (c_Conn (h_conns sample_parked 0))"
  using pool_holds_clean_connections [OF sample_heap_fresh(1) sample_run(1), of 0 0 0] sample_parked_idle by simp

text \<open>C25: the active-connection counter, from which least-connections balancing decides, counts
  exactly the connections in use: at any moment it differs from their number by the goroutines
  that have checked a connection out or in and have not yet updated the counter, and with no
  such goroutine it equals it.\<close>

theorem active_connections_exact:
  assumes "fresh_heap h0" and "conn_step\<^sup>*\<^sup>* (h0, {#}) (h, T)"
  shows "b_ActiveConnections h b + int (size (filter_mset (counts_dial b) T)) =
      int (card (in_use h b)) + int (size (filter_mset (counts_close h b) T)) \<and>
    (T = {#} \<longrightarrow> b_ActiveConnections h b = int (card (in_use h b)))"
  using conn_steps_active [OF assms(2) fresh_inv [OF assms(1)] fresh_active [OF assms(1)]]
  by (auto simp: b_ActiveConnections_def)

theorem active_connections_exact_witness:
  "b_ActiveConnections sample_dialled 0 = int (card (in_use sample_dialled 0)) \<and>
   b_ActiveConnections sample_dialled 0 = 1"
  using active_connections_exact [OF sample_heap_fresh(1) sample_run(2), of 0]
  by (simp add: b_ActiveConnections_def sample_defs)

text \<open>\<^verbatim>\<open>Close\<close> is idempotent: the second call changes nothing and returns no
  error, so the counter is decremented and the connection offered to the pool once.\<close>

theorem Close_idempotent:
  "c_Close now' c (snd (c_Close now c h)) = (None, snd (c_Close now c h))"
proof -
  have "c_returned (h_conns (snd (c_Close now c h)) c)"
    by (auto simp: c_Close_def c_CloseEnter_def)
  then show ?thesis unfolding c_Close_def [of now'] by (simp add: c_CloseEnter_def)
qed

text \<open>When the pool refuses a connection, because it expired or because the channel is full,
  \<^verbatim>\<open>put\<close> has already closed the socket and \<^verbatim>\<open>Close\<close> closes it again: the caller
  of a first \<^verbatim>\<open>Close\<close> on a healthy connection receives \<^verbatim>\<open>net.ErrClosed\<close>.\<close>

theorem Close_refused_reports_error:
  assumes "\<not> c_returned (h_conns h c)" and "\<not> c_halfClosed (h_conns h c)"
    and "c_pool (h_conns h c) = Some p" and "\<not> sock_closed (c_Conn (h_conns h c))"
    and "c_expired now (p_idleTimeout (h_pools h p)) (p_maxLifetime (h_pools h p)) (h_conns h c) \<or>
      p_cap (h_pools h p) \<le> length (p_idle (h_pools h p))"
  shows "fst (c_Close now c h) = Some ErrNetClosed"
proof -
  let ?h = "b_addActive (- 1) (c_backend (h_conns h c)) (upd_conn c (\<lambda>v. v\<lparr>c_returned := True\<rparr>) h)"
  have "c_expired now i m (h_conns ?h c) = c_expired now i m (h_conns h c)" for i m
    by (simp add: c_expired_def)
  with assms have "p_put now p c ?h = (False, snd (c_closeSocket c (upd_pool p (\<lambda>v. v\<lparr>p_dropped := p_dropped v + 1\<rparr>) ?h)))"
    by (auto simp: p_put_def Let_def)
  moreover have "sock_closed (c_Conn (h_conns (snd (c_closeSocket c h')) c))" for h'
    by (simp add: c_closeSocket_def sock_Close_def)
  ultimately show ?thesis using assms c_closeSocket_again
    by (simp add: c_Close_def c_CloseEnter_def c_CloseDispose_def)
qed

theorem Close_refused_reports_error_witness:
  "fst (c_Close (31 * Second) 0 sample_dialled) = Some ErrNetClosed"
  by (rule Close_refused_reports_error [of _ _ 0])
    (simp_all add: sample_defs Second_def max_int64_def min_int64_def)

end
