(* ===== verification/LoadBalancer.thy ===== *)
theory LoadBalancer
  imports Backend
begin

text \<open>
  The three balancers of \<^verbatim>\<open>internal/loadbalancer/loadbalancer.go\<close> and the interface
  they implement. A balancer keeps pointers to backends; \<^verbatim>\<open>Next\<close> reads the health flag
  and the active counter of each backend at most once, so the values it meets are those of a
  heap, which is its argument. Slices are lists: nothing below depends on two balancers
  sharing a backing array.
\<close>

section \<open>Data\<close>

datatype lb_error = ErrNoHealthyBackends | ErrNoBackends

record RoundRobin =
  rr_backends :: "backend_ref list"
  rr_counter :: "64 word"

record LeastConnections =
  lc_backends :: "backend_ref list"

record weightedBackend =
  wb_backend :: backend_ref
  effectiveWeight :: int
  currentWeight :: int

record WeightedRoundRobin =
  wrr_backends :: "weightedBackend list"

section \<open>Removal by address\<close>

text \<open>The loop of the three \<^verbatim>\<open>RemoveBackend\<close> methods: the last entry takes the place of
  the first one with the address, and the slice is cut.\<close>

fun first_at :: "('a \<Rightarrow> string) \<Rightarrow> string \<Rightarrow> 'a list \<Rightarrow> nat option" where
  "first_at addrOf addr [] = None"
| "first_at addrOf addr (x # xs) =
     (if addrOf x = addr then Some 0 else map_option Suc (first_at addrOf addr xs))"

definition swap_remove :: "('a \<Rightarrow> string) \<Rightarrow> string \<Rightarrow> 'a list \<Rightarrow> bool \<times> 'a list" where
  "swap_remove addrOf addr xs =
    (case first_at addrOf addr xs of
       None \<Rightarrow> (False, xs)
     | Some i \<Rightarrow> (True, take (length xs - 1) (xs[i := xs ! (length xs - 1)])))"

text \<open>What the same loop leaves in the backing array, which whoever passed the slice still reads.\<close>

definition swap_write :: "('a \<Rightarrow> string) \<Rightarrow> string \<Rightarrow> 'a list \<Rightarrow> 'a list" where
  "swap_write addrOf addr xs =
    (case first_at addrOf addr xs of
       None \<Rightarrow> xs
     | Some i \<Rightarrow> xs[i := xs ! (length xs - 1)])"

section \<open>Round robin\<close>

definition NewRoundRobin :: "backend_ref list \<Rightarrow> RoundRobin" where
  "NewRoundRobin backends = \<lparr>rr_backends = backends, rr_counter = 0\<rparr>"

fun rr_scan :: "heap \<Rightarrow> backend_ref list \<Rightarrow> nat \<Rightarrow> nat list \<Rightarrow> lb_error + backend_ref" where
  "rr_scan h bs startIdx [] = Inl ErrNoHealthyBackends"
| "rr_scan h bs startIdx (i # is) =
     (let idx = (startIdx + i) mod length bs; b = bs ! idx
      in if b_IsHealthy h b then Inr b else rr_scan h bs startIdx is)"

definition rr_Next :: "heap \<Rightarrow> RoundRobin \<Rightarrow> (lb_error + backend_ref) \<times> RoundRobin" where
  "rr_Next h rr =
    (let bs = rr_backends rr
     in if length bs = 0 then (Inl ErrNoBackends, rr)
        else (let count = rr_counter rr + 1;
                  startIdx = unat (count mod of_nat (length bs))
              in (rr_scan h bs startIdx [0..<length bs], rr\<lparr>rr_counter := count\<rparr>)))"

definition rr_Backends :: "RoundRobin \<Rightarrow> backend_ref list" where
  [simp]: "rr_Backends rr = rr_backends rr"

definition rr_AddBackend :: "backend_ref \<Rightarrow> RoundRobin \<Rightarrow> RoundRobin" where
  "rr_AddBackend b rr = rr\<lparr>rr_backends := rr_backends rr @ [b]\<rparr>"

definition rr_RemoveBackend :: "heap \<Rightarrow> string \<Rightarrow> RoundRobin \<Rightarrow> bool \<times> RoundRobin" where
  "rr_RemoveBackend h addr rr =
    (let (ok, bs) = swap_remove (b_Addr h) addr (rr_backends rr) in (ok, rr\<lparr>rr_backends := bs\<rparr>))"

definition rr_UpdateBackends :: "backend_ref list \<Rightarrow> RoundRobin \<Rightarrow> RoundRobin" where
  "rr_UpdateBackends backends rr = rr\<lparr>rr_backends := backends\<rparr>"

section \<open>Least connections\<close>

definition NewLeastConnections :: "backend_ref list \<Rightarrow> LeastConnections" where
  "NewLeastConnections backends = \<lparr>lc_backends = backends\<rparr>"

fun lc_scan :: "heap \<Rightarrow> backend_ref list \<Rightarrow> backend_ref option \<Rightarrow> int \<Rightarrow> backend_ref option" where
  "lc_scan h [] selected minConns = selected"
| "lc_scan h (b # bs) selected minConns =
     (if \<not> b_IsHealthy h b then lc_scan h bs selected minConns
      else (let conns = b_ActiveConnections h b
            in if conns < minConns then lc_scan h bs (Some b) conns
               else lc_scan h bs selected minConns))"

definition lc_Next :: "heap \<Rightarrow> LeastConnections \<Rightarrow> lb_error + backend_ref" where
  "lc_Next h lc =
    (if length (lc_backends lc) = 0 then Inl ErrNoBackends
     else (case lc_scan h (lc_backends lc) None max_int64 of
             None \<Rightarrow> Inl ErrNoHealthyBackends
           | Some b \<Rightarrow> Inr b))"

definition lc_Backends :: "LeastConnections \<Rightarrow> backend_ref list" where
  [simp]: "lc_Backends lc = lc_backends lc"

definition lc_AddBackend :: "backend_ref \<Rightarrow> LeastConnections \<Rightarrow> LeastConnections" where
  "lc_AddBackend b lc = lc\<lparr>lc_backends := lc_backends lc @ [b]\<rparr>"

definition lc_RemoveBackend :: "heap \<Rightarrow> string \<Rightarrow> LeastConnections \<Rightarrow> bool \<times> LeastConnections" where
  "lc_RemoveBackend h addr lc =
    (let (ok, bs) = swap_remove (b_Addr h) addr (lc_backends lc) in (ok, lc\<lparr>lc_backends := bs\<rparr>))"

definition lc_UpdateBackends :: "backend_ref list \<Rightarrow> LeastConnections \<Rightarrow> LeastConnections" where
  "lc_UpdateBackends backends lc = lc\<lparr>lc_backends := backends\<rparr>"

section \<open>Smooth weighted round robin\<close>

definition wrap_backend :: "heap \<Rightarrow> backend_ref \<Rightarrow> weightedBackend" where
  "wrap_backend h b = \<lparr>wb_backend = b, effectiveWeight = b_Weight h b, currentWeight = 0\<rparr>"

definition NewWeightedRoundRobin :: "heap \<Rightarrow> backend_ref list \<Rightarrow> WeightedRoundRobin" where
  "NewWeightedRoundRobin h backends = \<lparr>wrr_backends = map (wrap_backend h) backends\<rparr>"

text \<open>The loop of \<^verbatim>\<open>Next\<close>. The pointer \<^verbatim>\<open>selected\<close> is the position of the entry and
  its current weight, which the rest of the loop does not change.\<close>

definition wb_bump :: "weightedBackend \<Rightarrow> weightedBackend" where
  "wb_bump wb = wb\<lparr>currentWeight := currentWeight wb + effectiveWeight wb\<rparr>"

fun wrr_scan :: "heap \<Rightarrow> nat \<Rightarrow> weightedBackend list \<Rightarrow> (nat \<times> int) option \<Rightarrow> int \<Rightarrow>
    weightedBackend list \<times> (nat \<times> int) option \<times> int" where
  "wrr_scan h i [] selected totalWeight = ([], selected, totalWeight)"
| "wrr_scan h i (wb # wbs) selected totalWeight =
     (if \<not> b_IsHealthy h (wb_backend wb)
      then (let (r, s, t) = wrr_scan h (Suc i) wbs selected totalWeight in (wb # r, s, t))
      else (let wb' = wb_bump wb;
                selected' = (case selected of
                    None \<Rightarrow> Some (i, currentWeight wb')
                  | Some (j, cw) \<Rightarrow> if currentWeight wb' > cw then Some (i, currentWeight wb') else selected);
                (r, s, t) = wrr_scan h (Suc i) wbs selected' (totalWeight + effectiveWeight wb)
            in (wb' # r, s, t)))"

definition wrr_Next :: "heap \<Rightarrow> WeightedRoundRobin \<Rightarrow> (lb_error + backend_ref) \<times> WeightedRoundRobin" where
  "wrr_Next h wrr =
    (if length (wrr_backends wrr) = 0 then (Inl ErrNoBackends, wrr)
     else (let (wbs, selected, totalWeight) = wrr_scan h 0 (wrr_backends wrr) None 0
           in case selected of
                None \<Rightarrow> (Inl ErrNoHealthyBackends, wrr\<lparr>wrr_backends := wbs\<rparr>)
              | Some (i, cw) \<Rightarrow>
                  (Inr (wb_backend (wbs ! i)),
                   wrr\<lparr>wrr_backends :=
                     wbs[i := (wbs ! i)\<lparr>currentWeight := currentWeight (wbs ! i) - totalWeight\<rparr>]\<rparr>)))"

definition wrr_Backends :: "WeightedRoundRobin \<Rightarrow> backend_ref list" where
  "wrr_Backends wrr = map wb_backend (wrr_backends wrr)"

definition wrr_AddBackend :: "heap \<Rightarrow> backend_ref \<Rightarrow> WeightedRoundRobin \<Rightarrow> WeightedRoundRobin" where
  "wrr_AddBackend h b wrr = wrr\<lparr>wrr_backends := wrr_backends wrr @ [wrap_backend h b]\<rparr>"

definition wrr_RemoveBackend :: "heap \<Rightarrow> string \<Rightarrow> WeightedRoundRobin \<Rightarrow> bool \<times> WeightedRoundRobin" where
  "wrr_RemoveBackend h addr wrr =
    (let (ok, wbs) = swap_remove (\<lambda>wb. b_Addr h (wb_backend wb)) addr (wrr_backends wrr)
     in (ok, wrr\<lparr>wrr_backends := wbs\<rparr>))"

definition wrr_UpdateBackends :: "heap \<Rightarrow> backend_ref list \<Rightarrow> WeightedRoundRobin \<Rightarrow> WeightedRoundRobin" where
  "wrr_UpdateBackends h backends wrr = wrr\<lparr>wrr_backends := map (wrap_backend h) backends\<rparr>"

section \<open>The interface\<close>

datatype LoadBalancer = RR RoundRobin | LC LeastConnections | WRR WeightedRoundRobin

fun lb_Next :: "heap \<Rightarrow> LoadBalancer \<Rightarrow> (lb_error + backend_ref) \<times> LoadBalancer" where
  "lb_Next h (RR rr) = (let (r, rr') = rr_Next h rr in (r, RR rr'))"
| "lb_Next h (LC lc) = (lc_Next h lc, LC lc)"
| "lb_Next h (WRR wrr) = (let (r, wrr') = wrr_Next h wrr in (r, WRR wrr'))"

fun lb_Backends :: "LoadBalancer \<Rightarrow> backend_ref list" where
  "lb_Backends (RR rr) = rr_Backends rr"
| "lb_Backends (LC lc) = lc_Backends lc"
| "lb_Backends (WRR wrr) = wrr_Backends wrr"

fun lb_AddBackend :: "heap \<Rightarrow> backend_ref \<Rightarrow> LoadBalancer \<Rightarrow> LoadBalancer" where
  "lb_AddBackend h b (RR rr) = RR (rr_AddBackend b rr)"
| "lb_AddBackend h b (LC lc) = LC (lc_AddBackend b lc)"
| "lb_AddBackend h b (WRR wrr) = WRR (wrr_AddBackend h b wrr)"

fun lb_RemoveBackend :: "heap \<Rightarrow> string \<Rightarrow> LoadBalancer \<Rightarrow> bool \<times> LoadBalancer" where
  "lb_RemoveBackend h addr (RR rr) = map_prod id RR (rr_RemoveBackend h addr rr)"
| "lb_RemoveBackend h addr (LC lc) = map_prod id LC (lc_RemoveBackend h addr lc)"
| "lb_RemoveBackend h addr (WRR wrr) = map_prod id WRR (wrr_RemoveBackend h addr wrr)"

fun lb_UpdateBackends :: "heap \<Rightarrow> backend_ref list \<Rightarrow> LoadBalancer \<Rightarrow> LoadBalancer" where
  "lb_UpdateBackends h bs (RR rr) = RR (rr_UpdateBackends bs rr)"
| "lb_UpdateBackends h bs (LC lc) = LC (lc_UpdateBackends bs lc)"
| "lb_UpdateBackends h bs (WRR wrr) = WRR (wrr_UpdateBackends h bs wrr)"

text \<open>
  What the proxies and the reload rely on. \<open>fits\<close> is the condition on the counters
  under which \<^verbatim>\<open>Next\<close> keeps its promise.
\<close>

locale load_balancer =
  fixes nxt :: "heap \<Rightarrow> 's \<Rightarrow> (lb_error + backend_ref) \<times> 's"
    and members :: "'s \<Rightarrow> backend_ref list"
    and add :: "heap \<Rightarrow> backend_ref \<Rightarrow> 's \<Rightarrow> 's"
    and remove :: "heap \<Rightarrow> string \<Rightarrow> 's \<Rightarrow> bool \<times> 's"
    and update :: "heap \<Rightarrow> backend_ref list \<Rightarrow> 's \<Rightarrow> 's"
    and fits :: "heap \<Rightarrow> bool"
  assumes next_members: "members (snd (nxt h s)) = members s"
    and next_none: "fst (nxt h s) = Inl ErrNoBackends \<longleftrightarrow> members s = []"
    and next_member: "fst (nxt h s) = Inr b \<Longrightarrow> b \<in> set (members s) \<and> b_IsHealthy h b"
    and next_down: "fits h \<Longrightarrow> fst (nxt h s) = Inl ErrNoHealthyBackends \<Longrightarrow>
      \<forall>b \<in> set (members s). \<not> b_IsHealthy h b"
    and add_members: "members (add h b s) = members s @ [b]"
    and remove_members: "remove h addr s = (ok, s') \<Longrightarrow>
      if ok then \<exists>b. b_Addr h b = addr \<and> mset (members s) = add_mset b (mset (members s'))
      else s' = s \<and> (\<forall>b \<in> set (members s). b_Addr h b \<noteq> addr)"
    and update_members: "members (update h bs s) = bs"
begin

text \<open>Every outcome of \<^verbatim>\<open>Next\<close> is decided by the membership and the health flags.\<close>

lemma next_outcome:
  assumes "fits h"
  shows "case fst (nxt h s) of
      Inr b \<Rightarrow> b \<in> set (members s) \<and> b_IsHealthy h b
    | Inl ErrNoBackends \<Rightarrow> members s = []
    | Inl ErrNoHealthyBackends \<Rightarrow> members s \<noteq> [] \<and> (\<forall>b \<in> set (members s). \<not> b_IsHealthy h b)"
  using next_none [of h s] next_member [of h s] next_down [OF assms, of s]
  by (auto split: sum.splits lb_error.splits)

lemma next_available:
  assumes "fits h" and "b \<in> set (members s)" and "b_IsHealthy h b"
  shows "\<exists>b'. fst (nxt h s) = Inr b' \<and> b' \<in> set (members s) \<and> b_IsHealthy h b'"
  using next_outcome [OF assms(1), of s] assms(2,3)
  by (auto split: sum.splits lb_error.splits)

text \<open>After a reload no request goes to a backend that is not in the new list.\<close>

lemma next_after_update: "fst (nxt h (update h' bs s)) = Inr b \<Longrightarrow> b \<in> set bs"
  using next_member [of h "update h' bs s"] by (simp add: update_members)

end


section \<open>The balancers keep the contract\<close>

lemma first_at_Some:
  "first_at f a xs = Some i \<Longrightarrow> i < length xs \<and> f (xs ! i) = a"
  by (induction xs arbitrary: i) (auto split: if_splits)

lemma first_at_None: "first_at f a xs = None \<longleftrightarrow> (\<forall>x \<in> set xs. f x \<noteq> a)"
  by (induction xs) auto

text \<open>Moving the last entry over another one and cutting the slice drops that one.\<close>

lemma mset_swap_cut:
  assumes "i < length xs"
  shows "mset xs = add_mset (xs ! i) (mset (take (length xs - 1) (xs[i := xs ! (length xs - 1)])))"
proof -
  obtain ys y where xs: "xs = ys @ [y]" using assms by (cases xs rule: rev_cases) auto
  show ?thesis
  proof (cases "i < length ys")
    case True
    then have "take (length xs - 1) (xs[i := xs ! (length xs - 1)]) = ys[i := y]" by (simp add: xs list_update_append)
    then show ?thesis using True by (simp add: xs nth_append mset_update)
  next
    case False
    with assms have "i = length ys" by (simp add: xs)
    then show ?thesis by (simp add: xs list_update_append)
  qed
qed

lemma swap_remove_spec:
  assumes "swap_remove f a xs = (ok, ys)"
  shows "if ok then \<exists>x. f x = a \<and> mset xs = add_mset x (mset ys) else ys = xs \<and> (\<forall>x \<in> set xs. f x \<noteq> a)"
proof (cases "first_at f a xs")
  case None
  with assms first_at_None [of f a xs] show ?thesis by (auto simp: swap_remove_def)
next
  case (Some i)
  with assms have "ok" "ys = take (length xs - 1) (xs[i := xs ! (length xs - 1)])" by (auto simp: swap_remove_def)
  with first_at_Some [OF Some] mset_swap_cut [of i xs] show ?thesis by auto
qed

lemma swap_remove_write: "snd (swap_remove f a xs) = take (length xs - (if fst (swap_remove f a xs) then 1 else 0)) (swap_write f a xs)"
  by (simp add: swap_remove_def swap_write_def split: option.split)

text \<open>A slice of different backends that the balancer shares with another component no longer holds the removed backend there either, but
  keeps its length: the last backend is in it twice.\<close>

theorem shared_slice_after_remove:
  assumes "distinct xs" and "first_at f a xs = Some i" and "Suc i < length xs"
  shows "length (swap_write f a xs) = length xs \<and> xs ! i \<notin> set (swap_write f a xs) \<and>
    swap_write f a xs ! i = last xs \<and> last (swap_write f a xs) = last xs"
proof -
  let ?n = "length xs - 1"
  have ne: "xs \<noteq> []" and i: "i < length xs" "i \<noteq> ?n" using assms(3) by auto
  have w: "swap_write f a xs = xs[i := xs ! ?n]" by (simp add: swap_write_def assms(2))
  have "xs ! i \<noteq> xs[i := xs ! ?n] ! j" if j: "j < length xs" for j
    using assms(1) i j by (cases "j = i") (auto simp: nth_eq_iff_index_eq)
  then have "xs ! i \<notin> set (xs[i := xs ! ?n])" by (metis in_set_conv_nth length_list_update)
  then show ?thesis using ne i by (simp add: w last_conv_nth)
qed

subsection \<open>Round robin\<close>

lemma rr_scan_Inr: "rr_scan h bs st is = Inr b \<Longrightarrow> bs \<noteq> [] \<Longrightarrow> b \<in> set bs \<and> b_IsHealthy h b"
  by (induction "is") (auto simp: Let_def split: if_splits)

lemma rr_scan_Inl:
  "rr_scan h bs st is = Inl e \<Longrightarrow> e = ErrNoHealthyBackends \<and> (\<forall>i \<in> set is. \<not> b_IsHealthy h (bs ! ((st + i) mod length bs)))"
  by (induction "is") (auto simp: Let_def split: if_splits)

text \<open>The scan visits every index.\<close>

lemma rotation_onto:
  assumes "j < (n::nat)"
  shows "\<exists>i < n. (st + i) mod n = j"
proof -
  let ?i = "(j + n - st mod n) mod n"
  have "(st + ?i) mod n = (st mod n + (j + n - st mod n)) mod n" by (metis mod_add_eq mod_mod_trivial)
  also have "st mod n + (j + n - st mod n) = j + n" using assms mod_less_divisor [of n st] by linarith
  finally show ?thesis using assms by (intro exI [of _ ?i]) simp
qed

lemma rr_scan_all_down:
  assumes "rr_scan h bs st [0..<length bs] = Inl e" and "b \<in> set bs"
  shows "\<not> b_IsHealthy h b"
proof -
  obtain j where "j < length bs" "b = bs ! j" using assms(2) by (auto simp: in_set_conv_nth)
  moreover obtain i where "i < length bs" "(st + i) mod length bs = j" using rotation_onto calculation(1) by blast
  ultimately show ?thesis using rr_scan_Inl [OF assms(1)] by auto
qed

lemma rr_scan_first:
  assumes "b_IsHealthy h (bs ! (st mod length bs))" and "bs \<noteq> []"
  shows "rr_scan h bs st [0..<length bs] = Inr (bs ! (st mod length bs))"
  using assms by (simp add: upt_conv_Cons)

lemma rr_balancer:
  "load_balancer rr_Next rr_backends (\<lambda>_. rr_AddBackend) rr_RemoveBackend (\<lambda>_. rr_UpdateBackends) (\<lambda>_. True)"
proof
  fix h s b addr ok s' bs
  show "rr_backends (snd (rr_Next h s)) = rr_backends s"
    by (simp add: rr_Next_def Let_def)
  show "fst (rr_Next h s) = Inl ErrNoBackends \<longleftrightarrow> rr_backends s = []"
    by (auto simp: rr_Next_def Let_def dest: rr_scan_Inl)
  show "fst (rr_Next h s) = Inr b \<Longrightarrow> b \<in> set (rr_backends s) \<and> b_IsHealthy h b"
    by (auto simp: rr_Next_def Let_def split: if_splits dest: rr_scan_Inr)
  show "fst (rr_Next h s) = Inl ErrNoHealthyBackends \<Longrightarrow> \<forall>b \<in> set (rr_backends s). \<not> b_IsHealthy h b"
    by (auto simp: rr_Next_def Let_def split: if_splits dest: rr_scan_all_down)
  show "rr_RemoveBackend h addr s = (ok, s') \<Longrightarrow>
      if ok then \<exists>b. b_Addr h b = addr \<and> mset (rr_backends s) = add_mset b (mset (rr_backends s'))
      else s' = s \<and> (\<forall>b \<in> set (rr_backends s). b_Addr h b \<noteq> addr)"
    by (auto simp: rr_RemoveBackend_def split: prod.splits if_splits dest!: swap_remove_spec)
qed (simp_all add: rr_AddBackend_def rr_UpdateBackends_def)

interpretation rr: load_balancer rr_Next rr_backends "\<lambda>_. rr_AddBackend" rr_RemoveBackend
    "\<lambda>_. rr_UpdateBackends" "\<lambda>_. True"
  by (rule rr_balancer)

subsection \<open>Least connections\<close>

definition conns_fit :: "heap \<Rightarrow> bool" where
  "conns_fit h \<longleftrightarrow> (\<forall>b. b_ActiveConnections h b < max_int64)"

text \<open>The scan returns an entry with the least counter among the healthy ones below the bound
  it starts with, and the first of those.\<close>

lemma lc_scan_spec:
  assumes "lc_scan h bs sel m = r"
  shows "(r = sel \<and> (\<forall>b \<in> set bs. b_IsHealthy h b \<longrightarrow> m \<le> b_ActiveConnections h b)) \<or>
    (\<exists>us b vs. r = Some b \<and> bs = us @ b # vs \<and> b_IsHealthy h b \<and> b_ActiveConnections h b < m \<and>
      (\<forall>b' \<in> set us. b_IsHealthy h b' \<longrightarrow> b_ActiveConnections h b < b_ActiveConnections h b') \<and>
      (\<forall>b' \<in> set vs. b_IsHealthy h b' \<longrightarrow> b_ActiveConnections h b \<le> b_ActiveConnections h b'))"
  using assms
proof (induction bs arbitrary: sel m)
  case Nil
  then show ?case by simp
next
  case (Cons x bs)
  let ?a = "b_ActiveConnections h"
  show ?case
  proof (cases "b_IsHealthy h x \<and> ?a x < m")
    case True
    with Cons.prems have "lc_scan h bs (Some x) (?a x) = r" by (simp add: Let_def)
    from Cons.IH [OF this] show ?thesis
    proof
      assume *: "r = Some x \<and> (\<forall>b \<in> set bs. b_IsHealthy h b \<longrightarrow> ?a x \<le> ?a b)"
      with True show ?thesis by (intro disjI2 exI [of _ "[]"] exI [of _ x] exI [of _ bs]) simp
    next
      assume "\<exists>us b vs. r = Some b \<and> bs = us @ b # vs \<and> b_IsHealthy h b \<and> ?a b < ?a x \<and>
        (\<forall>b' \<in> set us. b_IsHealthy h b' \<longrightarrow> ?a b < ?a b') \<and> (\<forall>b' \<in> set vs. b_IsHealthy h b' \<longrightarrow> ?a b \<le> ?a b')"
      then obtain us b vs where "r = Some b" "bs = us @ b # vs" "b_IsHealthy h b" "?a b < ?a x"
        "\<forall>b' \<in> set us. b_IsHealthy h b' \<longrightarrow> ?a b < ?a b'" "\<forall>b' \<in> set vs. b_IsHealthy h b' \<longrightarrow> ?a b \<le> ?a b'" by blast
      with True show ?thesis by (intro disjI2 exI [of _ "x # us"] exI [of _ b] exI [of _ vs]) simp
    qed
  next
    case False
    with Cons.prems have "lc_scan h bs sel m = r" by (simp add: Let_def split: if_splits)
    from Cons.IH [OF this] show ?thesis
    proof
      assume "r = sel \<and> (\<forall>b \<in> set bs. b_IsHealthy h b \<longrightarrow> m \<le> ?a b)"
      with False show ?thesis by auto
    next
      assume "\<exists>us b vs. r = Some b \<and> bs = us @ b # vs \<and> b_IsHealthy h b \<and> ?a b < m \<and>
        (\<forall>b' \<in> set us. b_IsHealthy h b' \<longrightarrow> ?a b < ?a b') \<and> (\<forall>b' \<in> set vs. b_IsHealthy h b' \<longrightarrow> ?a b \<le> ?a b')"
      then obtain us b vs where *: "r = Some b" "bs = us @ b # vs" "b_IsHealthy h b" "?a b < m"
        "\<forall>b' \<in> set us. b_IsHealthy h b' \<longrightarrow> ?a b < ?a b'" "\<forall>b' \<in> set vs. b_IsHealthy h b' \<longrightarrow> ?a b \<le> ?a b'" by blast
      with False show ?thesis by (intro disjI2 exI [of _ "x # us"] exI [of _ b] exI [of _ vs]) auto
    qed
  qed
qed

lemma lc_Next_Inr:
  assumes "lc_Next h lc = Inr b"
  shows "\<exists>us vs. lc_backends lc = us @ b # vs \<and> b_IsHealthy h b \<and>
      (\<forall>b' \<in> set us. b_IsHealthy h b' \<longrightarrow> b_ActiveConnections h b < b_ActiveConnections h b') \<and>
      (\<forall>b' \<in> set vs. b_IsHealthy h b' \<longrightarrow> b_ActiveConnections h b \<le> b_ActiveConnections h b')"
  using assms lc_scan_spec [OF refl, of h "lc_backends lc" None max_int64]
  by (auto simp: lc_Next_def split: if_splits option.splits)

lemma lc_Next_down:
  assumes "lc_Next h lc = Inl ErrNoHealthyBackends" and "conns_fit h" and "b \<in> set (lc_backends lc)"
  shows "\<not> b_IsHealthy h b"
proof -
  have "lc_scan h (lc_backends lc) None max_int64 = None"
    using assms(1) by (simp add: lc_Next_def split: if_splits option.splits)
  then show ?thesis using assms(2,3) lc_scan_spec [OF refl, of h "lc_backends lc" None max_int64]
    unfolding conns_fit_def by (metis not_less option.distinct(1))
qed

interpretation lc: load_balancer "\<lambda>h lc. (lc_Next h lc, lc)" lc_backends "\<lambda>_. lc_AddBackend" lc_RemoveBackend
    "\<lambda>_. lc_UpdateBackends" conns_fit
proof
  fix h s b addr ok s' bs
  show "fst (lc_Next h s, s) = Inl ErrNoBackends \<longleftrightarrow> lc_backends s = []"
    by (auto simp: lc_Next_def split: option.splits)
  show "fst (lc_Next h s, s) = Inr b \<Longrightarrow> b \<in> set (lc_backends s) \<and> b_IsHealthy h b"
    using lc_Next_Inr [of h s b] by auto
  show "conns_fit h \<Longrightarrow> fst (lc_Next h s, s) = Inl ErrNoHealthyBackends \<Longrightarrow>
      \<forall>b \<in> set (lc_backends s). \<not> b_IsHealthy h b"
    using lc_Next_down by simp
  show "lc_RemoveBackend h addr s = (ok, s') \<Longrightarrow>
      if ok then \<exists>b. b_Addr h b = addr \<and> mset (lc_backends s) = add_mset b (mset (lc_backends s'))
      else s' = s \<and> (\<forall>b \<in> set (lc_backends s). b_Addr h b \<noteq> addr)"
    by (auto simp: lc_RemoveBackend_def split: prod.splits if_splits dest!: swap_remove_spec)
qed (simp_all add: lc_AddBackend_def lc_UpdateBackends_def)

subsection \<open>Weighted round robin\<close>

definition wrr_bumped :: "heap \<Rightarrow> weightedBackend list \<Rightarrow> weightedBackend list" where
  "wrr_bumped h = map (\<lambda>wb. if b_IsHealthy h (wb_backend wb) then wb_bump wb else wb)"

lemma wb_bump_sel [simp]:
  "wb_backend (wb_bump wb) = wb_backend wb" "effectiveWeight (wb_bump wb) = effectiveWeight wb"
  "currentWeight (wb_bump wb) = currentWeight wb + effectiveWeight wb"
  by (simp_all add: wb_bump_def)

definition wrr_pick :: "heap \<Rightarrow> nat \<Rightarrow> weightedBackend \<Rightarrow> (nat \<times> int) option \<Rightarrow> (nat \<times> int) option" where
  "wrr_pick h i wb sel =
    (if b_IsHealthy h (wb_backend wb)
     then (case sel of None \<Rightarrow> Some (i, currentWeight (wb_bump wb))
           | Some (j, cw) \<Rightarrow> if currentWeight (wb_bump wb) > cw then Some (i, currentWeight (wb_bump wb)) else sel)
     else sel)"

lemma wrr_scan_Cons:
  "wrr_scan h i (wb # wbs) sel tot =
    (let healthy = b_IsHealthy h (wb_backend wb);
         rest = wrr_scan h (Suc i) wbs (wrr_pick h i wb sel) (if healthy then tot + effectiveWeight wb else tot)
     in ((if healthy then wb_bump wb else wb) # fst rest, fst (snd rest), snd (snd rest)))"
  by (simp add: wrr_pick_def Let_def split: prod.splits)

declare wrr_scan.simps(2) [simp del]

lemma wrr_scan_list: "fst (wrr_scan h i wbs sel tot) = wrr_bumped h wbs"
  by (induction wbs arbitrary: i sel tot) (simp_all add: wrr_bumped_def Let_def wrr_scan_Cons)

lemma wrr_scan_total:
  "snd (snd (wrr_scan h i wbs sel tot)) =
    tot + sum_list (map effectiveWeight (filter (\<lambda>wb. b_IsHealthy h (wb_backend wb)) wbs))"
  by (induction wbs arbitrary: i sel tot) (simp_all add: Let_def wrr_scan_Cons)

text \<open>The selected position: kept from before, or a healthy entry of the list, with a weight no
  healthy entry of the list exceeds.\<close>

lemma wrr_scan_sel:
  assumes "fst (snd (wrr_scan h i wbs sel tot)) = r"
  shows "(r = None \<longleftrightarrow> sel = None \<and> (\<forall>wb \<in> set wbs. \<not> b_IsHealthy h (wb_backend wb))) \<and>
    (\<forall>j cw. r = Some (j, cw) \<longrightarrow>
      (sel = r \<or> (\<exists>k < length wbs. j = i + k \<and> b_IsHealthy h (wb_backend (wbs ! k)) \<and>
         cw = currentWeight (wbs ! k) + effectiveWeight (wbs ! k))) \<and>
      (\<forall>wb \<in> set wbs. b_IsHealthy h (wb_backend wb) \<longrightarrow> currentWeight wb + effectiveWeight wb \<le> cw) \<and>
      (\<forall>j' cw'. sel = Some (j', cw') \<longrightarrow> cw' \<le> cw))"
  using assms
proof (induction wbs arbitrary: i sel tot)
  case Nil
  then show ?case by simp
next
  case (Cons wb wbs)
  let ?cw = "currentWeight wb + effectiveWeight wb"
  obtain tot' where "fst (snd (wrr_scan h (Suc i) wbs (wrr_pick h i wb sel) tot')) = r"
    using Cons.prems by (simp add: Let_def wrr_scan_Cons)
  note IH = Cons.IH [OF this]
  have shift: "\<exists>k' < length (wb # wbs). j = i + k' \<and> b_IsHealthy h (wb_backend ((wb # wbs) ! k')) \<and>
      cw = currentWeight ((wb # wbs) ! k') + effectiveWeight ((wb # wbs) ! k')"
    if "k < length wbs" "j = Suc i + k" "b_IsHealthy h (wb_backend (wbs ! k))"
      "cw = currentWeight (wbs ! k) + effectiveWeight (wbs ! k)" for j cw k
    using that by (intro exI [of _ "Suc k"]) simp
  have here: "\<exists>k' < length (wb # wbs). j = i + k' \<and> b_IsHealthy h (wb_backend ((wb # wbs) ! k')) \<and>
      cw = currentWeight ((wb # wbs) ! k') + effectiveWeight ((wb # wbs) ! k')"
    if "j = i" "b_IsHealthy h (wb_backend wb)" "cw = ?cw" for j cw
    using that by (intro exI [of _ 0]) simp
  show ?case
  proof (intro conjI allI impI)
    show "r = None \<longleftrightarrow> sel = None \<and> (\<forall>wb \<in> set (wb # wbs). \<not> b_IsHealthy h (wb_backend wb))"
      using IH by (auto simp: wrr_pick_def split: option.splits if_splits)
  next
    fix j cw assume r: "r = Some (j, cw)"
    show "sel = r \<or> (\<exists>k < length (wb # wbs). j = i + k \<and> b_IsHealthy h (wb_backend ((wb # wbs) ! k)) \<and>
        cw = currentWeight ((wb # wbs) ! k) + effectiveWeight ((wb # wbs) ! k))"
      using IH r shift here by (auto simp: wrr_pick_def split: option.splits if_splits)
    show "\<forall>wb \<in> set (wb # wbs). b_IsHealthy h (wb_backend wb) \<longrightarrow> currentWeight wb + effectiveWeight wb \<le> cw"
      using IH r by (fastforce simp: wrr_pick_def split: option.splits if_splits)
    fix j' cw' assume "sel = Some (j', cw')"
    then show "cw' \<le> cw" using IH r by (fastforce simp: wrr_pick_def split: if_splits)
  qed
qed


text \<open>One call, in terms of the list before it.\<close>

lemma wrr_bumped_nth:
  "k < length wbs \<Longrightarrow> wrr_bumped h wbs ! k = (if b_IsHealthy h (wb_backend (wbs ! k)) then wb_bump (wbs ! k) else wbs ! k)"
  by (simp add: wrr_bumped_def)

lemma wrr_bumped_length [simp]: "length (wrr_bumped h wbs) = length wbs"
  by (simp add: wrr_bumped_def)

lemma wrr_bumped_backends [simp]: "map wb_backend (wrr_bumped h wbs) = map wb_backend wbs"
  by (simp add: wrr_bumped_def)

lemma wrr_Next_cases:
  assumes "wrr_Next h wrr = (r, wrr')" and "wbs = wrr_backends wrr"
  obtains (empty) "wbs = []" "r = Inl ErrNoBackends" "wrr' = wrr"
  | (down) "wbs \<noteq> []" "r = Inl ErrNoHealthyBackends" "\<forall>wb \<in> set wbs. \<not> b_IsHealthy h (wb_backend wb)"
      "wrr_backends wrr' = wrr_bumped h wbs"
  | (pick) i where "i < length wbs" "b_IsHealthy h (wb_backend (wbs ! i))" "r = Inr (wb_backend (wbs ! i))"
      "\<forall>wb \<in> set wbs. b_IsHealthy h (wb_backend wb) \<longrightarrow> currentWeight wb + effectiveWeight wb
         \<le> currentWeight (wbs ! i) + effectiveWeight (wbs ! i)"
      "wrr_backends wrr' = (wrr_bumped h wbs)[i := (wb_bump (wbs ! i))\<lparr>currentWeight :=
         currentWeight (wbs ! i) + effectiveWeight (wbs ! i) -
         sum_list (map effectiveWeight (filter (\<lambda>wb. b_IsHealthy h (wb_backend wb)) wbs))\<rparr>]"
proof (cases "wbs = []")
  case True
  then show ?thesis using assms by (intro empty) (auto simp: wrr_Next_def)
next
  case False
  let ?scan = "wrr_scan h 0 wbs None 0"
  have "wrr_Next h wrr = (case fst (snd ?scan) of
      None \<Rightarrow> (Inl ErrNoHealthyBackends, wrr\<lparr>wrr_backends := fst ?scan\<rparr>)
    | Some (i, cw) \<Rightarrow> (Inr (wb_backend (fst ?scan ! i)),
        wrr\<lparr>wrr_backends := (fst ?scan)[i := (fst ?scan ! i)\<lparr>currentWeight := currentWeight (fst ?scan ! i) - snd (snd ?scan)\<rparr>]\<rparr>))"
    using False unfolding wrr_Next_def assms(2)
    by (cases "wrr_scan h 0 (wrr_backends wrr) None 0") (simp split: option.split)
  note wrr' = assms(1) [symmetric, unfolded this]
  note sel = wrr_scan_sel [of h 0 wbs None 0, OF refl]
  show ?thesis
  proof (cases "fst (snd ?scan)")
    case None
    with wrr' sel False show ?thesis by (intro down) (simp_all add: wrr_scan_list)
  next
    case (Some x)
    then obtain i cw where x: "fst (snd ?scan) = Some (i, cw)" by (cases x) simp
    with sel have i: "i < length wbs" "b_IsHealthy h (wb_backend (wbs ! i))"
        "cw = currentWeight (wbs ! i) + effectiveWeight (wbs ! i)"
        "\<forall>wb \<in> set wbs. b_IsHealthy h (wb_backend wb) \<longrightarrow> currentWeight wb + effectiveWeight wb \<le> cw" by auto
    from wrr' x i show ?thesis
      by (intro pick [of i]) (simp_all add: wrr_scan_list wrr_scan_total wrr_bumped_nth)
  qed
qed

lemma wrr_Next_Backends: "wrr_Backends (snd (wrr_Next h wrr)) = wrr_Backends wrr"
proof (cases "wrr_Next h wrr")
  case (Pair r wrr')
  from Pair refl show ?thesis
  proof (cases rule: wrr_Next_cases)
    case (pick i)
    then show ?thesis by (simp add: Pair wrr_Backends_def map_update list_update_same_conv)
  qed (simp_all add: Pair wrr_Backends_def)
qed

interpretation wrr: load_balancer wrr_Next wrr_Backends wrr_AddBackend wrr_RemoveBackend
    wrr_UpdateBackends "\<lambda>_. True"
proof
  fix h s b addr ok s' bs
  show "wrr_Backends (snd (wrr_Next h s)) = wrr_Backends s" by (rule wrr_Next_Backends)
  obtain r s'' where n: "wrr_Next h s = (r, s'')" by force
  show "fst (wrr_Next h s) = Inl ErrNoBackends \<longleftrightarrow> wrr_Backends s = []"
    using n refl by (cases rule: wrr_Next_cases) (auto simp: n wrr_Backends_def)
  show "fst (wrr_Next h s) = Inr b \<Longrightarrow> b \<in> set (wrr_Backends s) \<and> b_IsHealthy h b"
    using n refl by (cases rule: wrr_Next_cases) (auto simp: n wrr_Backends_def)
  show "fst (wrr_Next h s) = Inl ErrNoHealthyBackends \<Longrightarrow> \<forall>b \<in> set (wrr_Backends s). \<not> b_IsHealthy h b"
    using n refl by (cases rule: wrr_Next_cases) (auto simp: n wrr_Backends_def)
  show "wrr_RemoveBackend h addr s = (ok, s') \<Longrightarrow>
      if ok then \<exists>b. b_Addr h b = addr \<and> mset (wrr_Backends s) = add_mset b (mset (wrr_Backends s'))
      else s' = s \<and> (\<forall>b \<in> set (wrr_Backends s). b_Addr h b \<noteq> addr)"
    by (auto simp: wrr_RemoveBackend_def wrr_Backends_def split: prod.splits if_splits dest!: swap_remove_spec)
qed (simp_all add: wrr_AddBackend_def wrr_UpdateBackends_def wrr_Backends_def wrap_backend_def comp_def)

subsection \<open>The interface value\<close>

interpretation lb: load_balancer lb_Next lb_Backends lb_AddBackend lb_RemoveBackend lb_UpdateBackends conns_fit
proof
  fix h s b addr ok s' bs
  show "lb_Backends (snd (lb_Next h s)) = lb_Backends s"
    using rr.next_members wrr.next_members by (cases s) (simp_all add: case_prod_unfold Let_def)
  show "fst (lb_Next h s) = Inl ErrNoBackends \<longleftrightarrow> lb_Backends s = []"
    using rr.next_none wrr.next_none lc.next_none by (cases s) (simp_all add: case_prod_unfold Let_def)
  show "fst (lb_Next h s) = Inr b \<Longrightarrow> b \<in> set (lb_Backends s) \<and> b_IsHealthy h b"
    using rr.next_member wrr.next_member lc.next_member by (cases s) (simp_all add: case_prod_unfold Let_def)
  show "conns_fit h \<Longrightarrow> fst (lb_Next h s) = Inl ErrNoHealthyBackends \<Longrightarrow> \<forall>b \<in> set (lb_Backends s). \<not> b_IsHealthy h b"
    using rr.next_down wrr.next_down lc.next_down by (cases s) (simp_all add: case_prod_unfold Let_def)
  show "lb_Backends (lb_AddBackend h b s) = lb_Backends s @ [b]"
    using rr.add_members wrr.add_members lc.add_members by (cases s) simp_all
  show "lb_Backends (lb_UpdateBackends h bs s) = bs"
    using rr.update_members wrr.update_members lc.update_members by (cases s) simp_all
  show "lb_RemoveBackend h addr s = (ok, s') \<Longrightarrow>
      if ok then \<exists>b. b_Addr h b = addr \<and> mset (lb_Backends s) = add_mset b (mset (lb_Backends s'))
      else s' = s \<and> (\<forall>b \<in> set (lb_Backends s). b_Addr h b \<noteq> addr)"
    using rr.remove_members [of h addr _ ok] wrr.remove_members [of h addr _ ok] lc.remove_members [of h addr _ ok]
    by (cases s) (fastforce simp: map_prod_def split: prod.splits)+
qed


section \<open>Fairness\<close>

subsection \<open>Round robin\<close>

text \<open>As long as the counter does not wrap, the starting index of the \<open>j\<close>-th call is the
  residue of the count.\<close>

definition rr_start :: "RoundRobin \<Rightarrow> nat" where
  "rr_start rr = Suc (unat (rr_counter rr)) mod length (rr_backends rr)"

lemma rr_Next_nowrap:
  assumes "rr_backends rr \<noteq> []" and "Suc (unat (rr_counter rr)) < 2 ^ 64" and "length (rr_backends rr) < 2 ^ 64"
  shows "rr_Next h rr = (rr_scan h (rr_backends rr) (rr_start rr) [0..<length (rr_backends rr)],
      rr\<lparr>rr_counter := rr_counter rr + 1\<rparr>)"
    and "unat (rr_counter rr + 1) = Suc (unat (rr_counter rr))"
proof -
  show inc: "unat (rr_counter rr + 1) = Suc (unat (rr_counter rr))"
    using assms(2) by (simp add: unat_word_ariths)
  have "unat (of_nat (length (rr_backends rr)) :: 64 word) = length (rr_backends rr)"
    using assms(3) by (simp add: unat_of_nat)
  then show "rr_Next h rr = (rr_scan h (rr_backends rr) (rr_start rr) [0..<length (rr_backends rr)],
      rr\<lparr>rr_counter := rr_counter rr + 1\<rparr>)"
    using assms(1) inc by (simp add: rr_Next_def Let_def rr_start_def unat_mod)
qed

lemma rr_run_nowrap:
  assumes "rr_backends rr = bs" and "bs \<noteq> []" and "unat (rr_counter rr) + m < 2 ^ 64" and "length bs < 2 ^ 64"
  shows "fst (iterate_op (rr_Next h) m rr) =
      map (\<lambda>j. rr_scan h bs ((Suc (unat (rr_counter rr)) + j) mod length bs) [0..<length bs]) [0..<m] \<and>
    snd (iterate_op (rr_Next h) m rr) = rr\<lparr>rr_counter := rr_counter rr + of_nat m\<rparr>"
  using assms(1,3)
proof (induction m arbitrary: rr)
  case 0
  then show ?case by simp
next
  case (Suc m)
  let ?rr = "rr\<lparr>rr_counter := rr_counter rr + 1\<rparr>"
  have nxt: "rr_Next h rr = (rr_scan h bs (rr_start rr) [0..<length bs], ?rr)"
    and inc: "unat (rr_counter rr + 1) = Suc (unat (rr_counter rr))"
    using rr_Next_nowrap [of rr] Suc.prems assms(2,4) by simp_all
  have "fst (iterate_op (rr_Next h) m ?rr) =
      map (\<lambda>j. rr_scan h bs ((Suc (unat (rr_counter ?rr)) + j) mod length bs) [0..<length bs]) [0..<m] \<and>
    snd (iterate_op (rr_Next h) m ?rr) = ?rr\<lparr>rr_counter := rr_counter ?rr + of_nat m\<rparr>"
    using Suc.prems inc by (intro Suc.IH) simp_all
  moreover have "map g [0..<Suc m] = g 0 # map (\<lambda>j. g (Suc j)) [0..<m]" for g :: "nat \<Rightarrow> lb_error + backend_ref"
    by (rule map_upt_Suc)
  ultimately show ?case using Suc.prems(1) inc
    by (simp add: nxt case_prod_unfold Let_def rr_start_def del: upt_Suc)
qed

text \<open>Round robin is exact: while no backend is down and the 64-bit counter does not wrap,
  any \<open>k\<close> rounds of calls, started anywhere, give every entry of the list exactly \<open>k\<close>
  requests.\<close>

theorem rr_fair:
  assumes "rr_backends rr = bs" and "bs \<noteq> []" and "\<forall>b \<in> set bs. b_IsHealthy h b"
    and "unat (rr_counter rr) + k * length bs < 2 ^ 64"
  shows "mset (fst (iterate_op (rr_Next h) (k * length bs) rr)) = repeat_mset k (mset (map Inr bs))"
proof (cases "k = 0")
  case False
  then have len: "length bs < 2 ^ 64" using assms(4) by (cases k) simp_all
  have scan: "rr_scan h bs (a mod length bs) [0..<length bs] = Inr (bs ! (a mod length bs))" for a
    using rr_scan_first [of h bs "a mod length bs"] assms(2,3) by simp
  have "fst (iterate_op (rr_Next h) (k * length bs) rr) =
      map (\<lambda>j. Inr (bs ! ((Suc (unat (rr_counter rr)) + j) mod length bs))) [0..<k * length bs]"
    unfolding conjunct1 [OF rr_run_nowrap [OF assms(1,2,4) len, of h]] scan ..
  then have "mset (fst (iterate_op (rr_Next h) (k * length bs) rr)) =
      repeat_mset k (mset (map (\<lambda>i. Inr (bs ! i)) [0..<length bs]))"
    using mset_windows [of "\<lambda>i. Inr (bs ! i) :: lb_error + backend_ref" "Suc (unat (rr_counter rr))" "length bs" k] by (simp only:)
  also have "map (\<lambda>i. Inr (bs ! i)) [0..<length bs] = map Inr bs"
    by (rule nth_equalityI) simp_all
  finally show ?thesis .
qed simp

text \<open>With one backend down the distribution is no longer even: the entry that follows it in
  the list takes its requests too, so over each round of calls that entry receives two
  requests and every other healthy one receives one.\<close>

theorem rr_skewed_by_failure:
  assumes "rr_backends rr = bs" and "u < length bs" and "2 \<le> length bs"
    and "\<forall>i < length bs. b_IsHealthy h (bs ! i) \<longleftrightarrow> i \<noteq> u"
    and "unat (rr_counter rr) + length bs < 2 ^ 64"
  shows "mset (fst (iterate_op (rr_Next h) (length bs) rr)) =
    mset (map Inr (bs[u := bs ! (Suc u mod length bs)]))"
proof -
  let ?n = "length bs" and ?f = "\<lambda>i. Inr (bs ! (if i = u then Suc u mod length bs else i)) :: lb_error + backend_ref"
  have ne: "bs \<noteq> []" and len: "length bs < 2 ^ 64" using assms(3,5) by auto
  have su: "Suc u mod ?n \<noteq> u" "Suc u mod ?n < ?n" using assms(2,3) by (auto simp: mod_Suc)
  have scan: "rr_scan h bs i [0..<?n] = ?f i" if "i < ?n" for i
  proof -
    have "[0..<?n] = 0 # 1 # [2..<?n]" using assms(3) ne upt_conv_Cons [of 0 ?n] upt_conv_Cons [of 1 ?n]
      by (simp add: numeral_2_eq_2)
    then show ?thesis using that assms(4) su by (auto simp: Let_def)
  qed
  have "fst (iterate_op (rr_Next h) ?n rr) = map (\<lambda>j. ?f ((Suc (unat (rr_counter rr)) + j) mod ?n)) [0..<?n]"
    unfolding conjunct1 [OF rr_run_nowrap [OF assms(1) ne assms(5) len, of h]]
    using ne by (auto simp: scan simp del: add_Suc)
  then have "mset (fst (iterate_op (rr_Next h) ?n rr)) = mset (map ?f [0..<?n])"
    using mset_window [of ?f "Suc (unat (rr_counter rr))" ?n] by (simp only:)
  also have "map ?f [0..<?n] = map Inr (bs[u := bs ! (Suc u mod ?n)])"
    by (rule nth_equalityI) (simp_all add: nth_list_update)
  finally show ?thesis .
qed


subsection \<open>Weighted round robin\<close>

text \<open>The state after \<open>t\<close> calls of which entry \<open>k\<close> got \<open>cnt k\<close>, all entries being
  healthy: the current weight is the credit \<open>t * w\<close> less what was spent.\<close>

definition wrr_total :: "heap \<Rightarrow> backend_ref list \<Rightarrow> int" where
  "wrr_total h bs = sum_list (map (b_Weight h) bs)"

definition wrr_at :: "heap \<Rightarrow> backend_ref list \<Rightarrow> nat \<Rightarrow> (nat \<Rightarrow> nat) \<Rightarrow> weightedBackend list" where
  "wrr_at h bs t cnt = map (\<lambda>k. \<lparr>wb_backend = bs ! k, effectiveWeight = b_Weight h (bs ! k),
     currentWeight = int t * b_Weight h (bs ! k) - wrr_total h bs * int (cnt k)\<rparr>) [0..<length bs]"

definition wrr_progress :: "heap \<Rightarrow> backend_ref list \<Rightarrow> nat \<Rightarrow> (nat \<Rightarrow> nat) \<Rightarrow> bool" where
  "wrr_progress h bs t cnt \<longleftrightarrow> (\<Sum>k < length bs. cnt k) = t \<and>
     (\<forall>k < length bs. wrr_total h bs * int (cnt k) < int t * b_Weight h (bs ! k) + wrr_total h bs)"

lemma wrr_total_sum: "wrr_total h bs = (\<Sum>k < length bs. b_Weight h (bs ! k))"
  by (simp add: wrr_total_def sum_list_sum_nth atLeast0LessThan)

lemma wrr_total_pos:
  assumes "bs \<noteq> []" and "\<forall>b \<in> set bs. b_IsHealthy h b \<and> 1 \<le> b_Weight h b"
  shows "0 < wrr_total h bs"
  unfolding wrr_total_sum using assms by (intro sum_pos) (auto simp: nth_mem less_le_trans [OF zero_less_one])

lemma wrr_at_length [simp]: "length (wrr_at h bs t cnt) = length bs"
  by (simp add: wrr_at_def)

lemma wrr_at_nth:
  "k < length bs \<Longrightarrow> wrr_at h bs t cnt ! k = \<lparr>wb_backend = bs ! k, effectiveWeight = b_Weight h (bs ! k),
     currentWeight = int t * b_Weight h (bs ! k) - wrr_total h bs * int (cnt k)\<rparr>"
  by (simp add: wrr_at_def)

lemma wrr_at_0: "wrr_at h bs 0 (\<lambda>_. 0) = wrr_backends (NewWeightedRoundRobin h bs)"
  by (rule nth_equalityI) (simp_all add: wrr_at_nth NewWeightedRoundRobin_def wrap_backend_def)

text \<open>The call: the entry with the greatest weight has positive credit, because the credits
  of all entries add up to the total weight.\<close>

lemma max_credit_positive:
  fixes w :: "nat \<Rightarrow> int"
  assumes "\<forall>k < n. int (Suc t) * w k - W * int (cnt k) \<le> m" and "W = (\<Sum>k < n. w k)" and "0 < W"
    and "(\<Sum>k < n. cnt k) = t"
  shows "0 < m"
proof (rule ccontr)
  assume "\<not> 0 < m"
  with assms(1) have "\<forall>k < n. int (Suc t) * w k - W * int (cnt k) \<le> 0" by force
  then have "(\<Sum>k < n. int (Suc t) * w k - W * int (cnt k)) \<le> 0" by (intro sum_nonpos) simp
  moreover have "(\<Sum>k < n. int (Suc t) * w k - W * int (cnt k)) = int (Suc t) * W - W * int t"
    using assms(2,4) by (simp add: sum_subtractf sum_distrib_left [symmetric] flip: of_nat_sum)
  ultimately show False using assms(3) by (simp add: algebra_simps)
qed

lemma wrr_Next_step:
  assumes ok: "bs \<noteq> []" "\<forall>b \<in> set bs. b_IsHealthy h b \<and> 1 \<le> b_Weight h b"
    and st: "wrr_backends wrr = wrr_at h bs t cnt" "wrr_progress h bs t cnt"
  obtains i where "i < length bs" "fst (wrr_Next h wrr) = Inr (bs ! i)"
    "wrr_backends (snd (wrr_Next h wrr)) = wrr_at h bs (Suc t) (cnt(i := Suc (cnt i)))"
    "wrr_progress h bs (Suc t) (cnt(i := Suc (cnt i)))"
proof -
  let ?w = "\<lambda>k. b_Weight h (bs ! k)" and ?W = "wrr_total h bs" and ?wbs = "wrr_at h bs t cnt"
  have healthy: "b_IsHealthy h (wb_backend wb)" if "wb \<in> set ?wbs" for wb
    using that ok(2) by (auto simp: wrr_at_def)
  have W: "0 < ?W" by (rule wrr_total_pos [OF ok])
  have total: "sum_list (map effectiveWeight (filter (\<lambda>wb. b_IsHealthy h (wb_backend wb)) ?wbs)) = ?W"
    using healthy by (simp add: filter_True)
      (simp add: wrr_at_def comp_def wrr_total_sum interv_sum_list_conv_sum_set_nat atLeast0LessThan)
  have bumped: "wrr_bumped h ?wbs ! k = wb_bump (?wbs ! k)" if "k < length bs" for k
    using that healthy by (simp add: wrr_bumped_nth)
  obtain r wrr' where n: "wrr_Next h wrr = (r, wrr')" by force
  from n st(1) [symmetric] show ?thesis
  proof (cases rule: wrr_Next_cases)
    case empty
    with ok(1) show ?thesis by (metis list.size(3) length_0_conv wrr_at_length)
  next
    case down
    with healthy show ?thesis by (metis hd_in_set)
  next
    case (pick i)
    then have i: "i < length bs" by simp
    let ?cnt = "cnt(i := Suc (cnt i))"
    have "\<forall>k < length bs. int (Suc t) * ?w k - ?W * int (cnt k) \<le> int (Suc t) * ?w i - ?W * int (cnt i)"
    proof (intro allI impI)
      fix k assume k: "k < length bs"
      then have "?wbs ! k \<in> set ?wbs" by (simp add: nth_mem)
      with pick(4) healthy k i show "int (Suc t) * ?w k - ?W * int (cnt k) \<le> int (Suc t) * ?w i - ?W * int (cnt i)"
        by (fastforce simp: wrr_at_nth algebra_simps)
    qed
    from max_credit_positive [OF this wrr_total_sum W] st(2)
    have pos: "?W * int (cnt i) < int (Suc t) * ?w i" by (simp add: wrr_progress_def)
    have "wrr_progress h bs (Suc t) ?cnt" unfolding wrr_progress_def
    proof (intro conjI allI impI)
      show "(\<Sum>k < length bs. ?cnt k) = Suc t"
        using st(2) i sum.remove [of "{..<length bs}" i ?cnt] sum.remove [of "{..<length bs}" i cnt]
        by (simp add: wrr_progress_def)
      fix k assume k: "k < length bs"
      have "0 \<le> ?w k" using ok(2) k by (meson nth_mem order_trans zero_le_one)
      with st(2) k pos show "?W * int (?cnt k) < int (Suc t) * ?w k + ?W"
        by (auto simp: wrr_progress_def algebra_simps dest!: spec [of _ k])
    qed
    moreover have "wrr_backends wrr' = wrr_at h bs (Suc t) ?cnt"
    proof (rule nth_equalityI)
      fix k assume "k < length (wrr_backends wrr')"
      then have "k < length bs" using pick(5) by simp
      with i show "wrr_backends wrr' ! k = wrr_at h bs (Suc t) ?cnt ! k"
        unfolding pick(5) total by (cases "k = i") (simp_all add: bumped wrr_at_nth wb_bump_def algebra_simps)
    qed (simp add: pick(5))
    ultimately show ?thesis using that [of i] i pick(3) by (simp add: n wrr_at_nth)
  qed
qed

lemma wrr_run:
  assumes ok: "bs \<noteq> []" "\<forall>b \<in> set bs. b_IsHealthy h b \<and> 1 \<le> b_Weight h b" and "distinct bs"
    and run: "iterate_op (wrr_Next h) t (NewWeightedRoundRobin h bs) = (rs, wrr)"
  shows "wrr_backends wrr = wrr_at h bs t (\<lambda>k. if k < length bs then count_list rs (Inr (bs ! k)) else 0) \<and>
    wrr_progress h bs t (\<lambda>k. if k < length bs then count_list rs (Inr (bs ! k)) else 0)"
  using run
proof (induction t arbitrary: rs wrr)
  case 0
  from 0 wrr_total_pos [OF ok] show ?case by (auto simp: wrr_at_0 [symmetric] wrr_progress_def wrr_at_def)
next
  case (Suc t)
  obtain rs1 wrr1 where prev: "iterate_op (wrr_Next h) t (NewWeightedRoundRobin h bs) = (rs1, wrr1)" by force
  let ?cnt = "\<lambda>rs k. if k < length bs then count_list rs (Inr (bs ! k)) else 0"
  note IH = Suc.IH [OF prev]
  obtain i where i: "i < length bs" "fst (wrr_Next h wrr1) = Inr (bs ! i)"
    "wrr_backends (snd (wrr_Next h wrr1)) = wrr_at h bs (Suc t) ((?cnt rs1)(i := Suc (?cnt rs1 i)))"
    "wrr_progress h bs (Suc t) ((?cnt rs1)(i := Suc (?cnt rs1 i)))"
    using wrr_Next_step [OF ok conjunct1 [OF IH] conjunct2 [OF IH]] by blast
  have rs: "rs = rs1 @ [Inr (bs ! i)]" "wrr = snd (wrr_Next h wrr1)"
    using Suc.prems prev i(2) unfolding iterate_op_snoc by (auto split: prod.splits)
  have "?cnt rs = (?cnt rs1)(i := Suc (?cnt rs1 i))"
    using i(1) \<open>distinct bs\<close> by (auto simp: rs nth_eq_iff_index_eq)
  with i rs show ?case by simp
qed

lemma wrr_cycle:
  assumes "bs \<noteq> []" and "distinct bs" and "\<forall>b \<in> set bs. b_IsHealthy h b \<and> 1 \<le> b_Weight h b"
    and "iterate_op (wrr_Next h) (nat (wrr_total h bs)) (NewWeightedRoundRobin h bs) = (rs, wrr)" and "k < length bs"
  shows "int (count_list rs (Inr (bs ! k))) = b_Weight h (bs ! k)"
proof -
  let ?W = "wrr_total h bs" and ?cnt = "\<lambda>k. if k < length bs then count_list rs (Inr (bs ! k)) else 0"
  have W: "0 < ?W" by (rule wrr_total_pos [OF assms(1,3)])
  have run: "wrr_progress h bs (nat ?W) ?cnt" using wrr_run [OF assms(1,3,2,4)] by blast
  have le: "int (?cnt k) \<le> b_Weight h (bs ! k)" if "k < length bs" for k
  proof -
    have "?W * int (?cnt k) < ?W * (b_Weight h (bs ! k) + 1)"
      using run that W by (auto simp: wrr_progress_def algebra_simps)
    then show ?thesis using W by (simp add: mult_less_cancel_left)
  qed
  have "(\<Sum>k < length bs. b_Weight h (bs ! k) - int (?cnt k)) = 0"
    using run W by (simp add: sum_subtractf wrr_progress_def wrr_total_sum flip: of_nat_sum)
  then have "b_Weight h (bs ! k) = int (?cnt k)" using assms(5) le by (subst (asm) sum_nonneg_eq_0_iff) auto
  then show ?thesis using assms(5) by simp
qed

text \<open>C6: smooth weighted round robin is exact over a cycle: with distinct healthy backends of
  positive weight, as many calls as the sum of the weights select each backend exactly as often
  as its weight says, and leave every current weight at zero, so that the next cycle repeats.\<close>

theorem wrr_exact_cycle:
  assumes "bs \<noteq> []" and "distinct bs" and "\<forall>b \<in> set bs. b_IsHealthy h b \<and> 1 \<le> b_Weight h b"
    and "iterate_op (wrr_Next h) (nat (sum_list (map (b_Weight h) bs))) (NewWeightedRoundRobin h bs) = (rs, wrr)"
  shows "(\<forall>b \<in> set bs. int (count_list rs (Inr b)) = b_Weight h b) \<and> wrr = NewWeightedRoundRobin h bs"
proof -
  let ?cnt = "\<lambda>k. if k < length bs then count_list rs (Inr (bs ! k)) else 0"
  have eq: "int (count_list rs (Inr (bs ! k))) = b_Weight h (bs ! k)" if "k < length bs" for k
    using wrr_cycle [OF assms(1-3) _ that] assms(4) by (simp add: wrr_total_def)
  have "wrr_backends wrr = wrr_at h bs (nat (wrr_total h bs)) ?cnt"
    using wrr_run [OF assms(1,3,2)] assms(4) unfolding wrr_total_def by blast
  also have "\<dots> = wrr_at h bs 0 (\<lambda>_. 0)"
    using wrr_total_pos [OF assms(1,3)] eq by (intro nth_equalityI) (simp_all add: wrr_at_nth)
  finally have "wrr = NewWeightedRoundRobin h bs" by (simp add: wrr_at_0 WeightedRoundRobin.equality)
  moreover have "\<forall>b \<in> set bs. int (count_list rs (Inr b)) = b_Weight h b"
    using eq by (auto simp: in_set_conv_nth)
  ultimately show ?thesis by simp
qed

text \<open>On the way through a cycle no backend gets ahead of its share by a full request: after
  any number \<open>t\<close> of calls a backend of weight \<open>w\<close> out of \<open>W\<close> has been chosen fewer
  than \<open>t * w / W + 1\<close> times, and the running weights stay above \<open>- W\<close>, so the sums of
  the code cannot leave the range of an \<^verbatim>\<open>int\<close>.\<close>

theorem wrr_smooth:
  assumes "bs \<noteq> []" and "distinct bs" and "\<forall>b \<in> set bs. b_IsHealthy h b \<and> 1 \<le> b_Weight h b"
    and "iterate_op (wrr_Next h) t (NewWeightedRoundRobin h bs) = (rs, wrr)" and "b \<in> set bs"
  shows "sum_list (map (b_Weight h) bs) * int (count_list rs (Inr b)) < int t * b_Weight h b + sum_list (map (b_Weight h) bs) \<and>
    sum_list (map currentWeight (wrr_backends wrr)) = 0 \<and>
    (\<forall>wb \<in> set (wrr_backends wrr). - sum_list (map (b_Weight h) bs) < currentWeight wb)"
proof -
  let ?cnt = "\<lambda>k. if k < length bs then count_list rs (Inr (bs ! k)) else 0"
  have run: "wrr_backends wrr = wrr_at h bs t ?cnt" "wrr_progress h bs t ?cnt"
    using wrr_run [OF assms(1,3,2,4)] by blast+
  obtain k where "k < length bs" "b = bs ! k" using assms(5) by (auto simp: in_set_conv_nth)
  then have "wrr_total h bs * int (count_list rs (Inr b)) < int t * b_Weight h b + wrr_total h bs"
    using run(2) by (auto simp: wrr_progress_def)
  moreover have "sum_list (map currentWeight (wrr_backends wrr)) = 0"
  proof -
    have "sum_list (map currentWeight (wrr_backends wrr)) =
        (\<Sum>k < length bs. int t * b_Weight h (bs ! k) - wrr_total h bs * int (?cnt k))"
      by (simp add: run(1) wrr_at_def comp_def interv_sum_list_conv_sum_set_nat atLeast0LessThan)
    also have "\<dots> = int t * wrr_total h bs - wrr_total h bs * int t"
      using run(2) by (simp add: sum_subtractf wrr_total_sum wrr_progress_def flip: sum_distrib_left of_nat_sum)
    finally show ?thesis by simp
  qed
  moreover have "\<forall>wb \<in> set (wrr_backends wrr). - wrr_total h bs < currentWeight wb"
    using run(2) by (auto simp: run(1) wrr_at_def wrr_progress_def)
  ultimately show ?thesis unfolding wrr_total_def by blast
qed

section \<open>Further properties\<close>

text \<open>Three backends with weights 5, 1 and 1; \<open>down\<close> lists the unhealthy ones.\<close>

definition sample_pool :: "nat list \<Rightarrow> heap" where
  "sample_pool down = fold (\<lambda>b. b_SetHealthy 0 False None b) down
     (snd (alloc_backend (NewBackendWithWeight ''c'' 1) (snd (alloc_backend (NewBackendWithWeight ''b'' 1)
       (snd (alloc_backend (NewBackendWithWeight ''a'' 5) empty_heap))))))"

lemmas sample_pool_defs = sample_pool_def alloc_backend_def empty_heap_def NewBackendWithWeight_def Let_def
  b_SetHealthy_def upd_backend_def b_IsHealthy_def b_Weight_def b_ActiveConnections_def NewBackend_def

lemma sample_pool_healthy: "b_IsHealthy (sample_pool []) b" "b_ActiveConnections (sample_pool []) b = 0"
  "b_Weight (sample_pool []) b = (if b = 0 then 5 else 1)"
  by (simp_all add: sample_pool_defs)

lemma sample_pool_down: "b_IsHealthy (sample_pool [2]) b \<longleftrightarrow> b \<noteq> 2" "b_ActiveConnections (sample_pool [2]) b = 0"
  by (simp_all add: sample_pool_defs)

theorem rr_fair_witness:
  "mset (fst (iterate_op (rr_Next (sample_pool [])) (2 * length [0 :: nat, 1, 2]) (NewRoundRobin [0, 1, 2]))) =
    repeat_mset 2 (mset (map Inr [0, 1, 2]))"
  by (rule rr_fair) (simp_all add: NewRoundRobin_def sample_pool_healthy)

theorem rr_skewed_by_failure_witness:
  "mset (fst (iterate_op (rr_Next (sample_pool [2])) (length [0 :: nat, 1, 2]) (NewRoundRobin [0, 1, 2]))) =
    mset (map Inr ([0, 1, 2][2 := [0, 1, 2] ! (Suc 2 mod length [0 :: nat, 1, 2])]))"
  by (rule rr_skewed_by_failure) (simp_all add: NewRoundRobin_def sample_pool_down nth_Cons' less_Suc_eq)

theorem wrr_exact_cycle_witness:
  "count_list (fst (iterate_op (wrr_Next (sample_pool [])) 7 (NewWeightedRoundRobin (sample_pool []) [0, 1, 2]))) (Inr 0) = 5"
  using wrr_exact_cycle [of "[0, 1, 2]" "sample_pool []"]
  by (simp add: sample_pool_healthy prod_eq_iff)

theorem wrr_smooth_witness:
  "7 * int (count_list (fst (iterate_op (wrr_Next (sample_pool [])) 3 (NewWeightedRoundRobin (sample_pool []) [0, 1, 2]))) (Inr 0))
    < 3 * 5 + 7"
  using wrr_smooth [of "[0, 1, 2]" "sample_pool []" 3 _ _ 0]
  by (simp add: sample_pool_healthy prod_eq_iff)

text \<open>With weights 5, 1, 1 the order of a cycle is A A B A C A A.\<close>

theorem wrr_sample_order:
  "fst (iterate_op (wrr_Next (sample_pool [])) 7 (NewWeightedRoundRobin (sample_pool []) [0, 1, 2])) =
    map Inr [0, 0, 1, 0, 2, 0, 0]"
  by (simp add: sample_pool_healthy NewWeightedRoundRobin_def wrap_backend_def wrr_Next_def wrr_scan_Cons
      wrr_pick_def wb_bump_def Let_def eval_nat_numeral)

text \<open>Every outcome of \<^verbatim>\<open>Next\<close>, for each of the three balancers, is decided by the
  members and their health flags: a result is a healthy member, \<^verbatim>\<open>ErrNoBackends\<close> means
  that the list is empty, \<^verbatim>\<open>ErrNoHealthyBackends\<close> that all of a non-empty list are down;
  and a call never changes the membership.\<close>

theorem lb_Next_outcome:
  assumes "\<forall>b. b_ActiveConnections h b < max_int64"
  shows "(case fst (lb_Next h lb) of
      Inr b \<Rightarrow> b \<in> set (lb_Backends lb) \<and> b_IsHealthy h b
    | Inl ErrNoBackends \<Rightarrow> lb_Backends lb = []
    | Inl ErrNoHealthyBackends \<Rightarrow> lb_Backends lb \<noteq> [] \<and> (\<forall>b \<in> set (lb_Backends lb). \<not> b_IsHealthy h b)) \<and>
    lb_Backends (snd (lb_Next h lb)) = lb_Backends lb"
  using lb.next_outcome [of h lb] lb.next_members [of h lb] assms unfolding conns_fit_def by blast

theorem lb_Next_outcome_witness:
  "fst (lb_Next (sample_pool [2]) (RR (NewRoundRobin [2, 1]))) = Inr 1 \<and>
   lb_Backends (snd (lb_Next (sample_pool [2]) (RR (NewRoundRobin [2, 1])))) = [2, 1]"
  using lb_Next_outcome [of "sample_pool [2]" "RR (NewRoundRobin [2, 1])"]
  by (simp add: sample_pool_down max_int64_def NewRoundRobin_def split: sum.splits lb_error.splits)
    auto

text \<open>Least connections returns a healthy backend whose counter is least among the healthy
  ones, and the first such in the list.\<close>

theorem lc_minimal:
  assumes "lc_Next h lc = Inr b"
  shows "\<exists>us vs. lc_backends lc = us @ b # vs \<and> b_IsHealthy h b \<and>
      (\<forall>b' \<in> set us. b_IsHealthy h b' \<longrightarrow> b_ActiveConnections h b < b_ActiveConnections h b') \<and>
      (\<forall>b' \<in> set vs. b_IsHealthy h b' \<longrightarrow> b_ActiveConnections h b \<le> b_ActiveConnections h b')"
  using assms by (rule lc_Next_Inr)

theorem lc_minimal_witness:
  "\<exists>us vs. [2, 0, 1] = us @ 2 # vs \<and> b_IsHealthy (sample_pool []) 2"
  using lc_minimal [of "sample_pool []" "NewLeastConnections [2, 0, 1]" 2]
  by (simp add: NewLeastConnections_def lc_Next_def sample_pool_healthy max_int64_def) blast

end
