(* ===== verification/Splitter.thy ===== *)
theory Splitter
  imports LoadBalancer
begin

text \<open>
  The two traffic splitters of \<^verbatim>\<open>internal/splitter/splitter.go\<close>. The random number of
  \<^verbatim>\<open>Select\<close> is an argument; the result \<open>None\<close> is a panic. The load balancers of the
  targets are opaque here.
\<close>

section \<open>Weighted random selection\<close>

datatype split_error = ErrNoTargets | ErrInvalidWeight

record 'lb Target =
  t_Name :: string
  t_LoadBalancer :: 'lb
  t_Weight :: int

record 'lb Splitter =
  targets :: "'lb Target list"
  totalWeight :: int
  selections :: "string \<rightharpoonup> int"

text \<open>The loop shared by \<^verbatim>\<open>NewSplitter\<close> and \<^verbatim>\<open>UpdateTargets\<close>.\<close>

fun collect_targets :: "'lb Target list \<Rightarrow> 'lb Splitter \<Rightarrow> split_error + 'lb Splitter" where
  "collect_targets [] s = Inr s"
| "collect_targets (t # ts) s =
     (if t_Weight t \<le> 0 then Inl ErrInvalidWeight
      else collect_targets ts
        (s\<lparr>targets := targets s @ [t], totalWeight := totalWeight s + t_Weight t,
           selections := (selections s)(t_Name t \<mapsto> 0)\<rparr>))"

definition NewSplitter :: "'lb Target list \<Rightarrow> split_error + 'lb Splitter" where
  "NewSplitter ts =
    (if length ts = 0 then Inl ErrNoTargets
     else collect_targets ts \<lparr>targets = [], totalWeight = 0, selections = Map.empty\<rparr>)"

text \<open>\<^verbatim>\<open>s.selections[t.Name].Add(1)\<close>: a nil pointer when the name has no counter.\<close>

definition count_selection :: "'lb Target \<Rightarrow> 'lb Splitter \<Rightarrow> ('lb Target \<times> 'lb Splitter) option" where
  "count_selection t s =
    (case selections s (t_Name t) of
       None \<Rightarrow> None
     | Some n \<Rightarrow> Some (t, s\<lparr>selections := (selections s)(t_Name t \<mapsto> n + 1)\<rparr>))"

fun walk :: "('t \<Rightarrow> int) \<Rightarrow> int \<Rightarrow> 't list \<Rightarrow> 't option" where
  "walk weight r [] = None"
| "walk weight r (t # ts) = (let r' = r - weight t in if r' < 0 then Some t else walk weight r' ts)"

definition sp_Select :: "int \<Rightarrow> 'lb Splitter \<Rightarrow> ('lb Target \<times> 'lb Splitter) option" where
  "sp_Select r s =
    (if length (targets s) = 1 then count_selection (targets s ! 0) s
     else if totalWeight s \<le> 0 then None
     else (case walk t_Weight r (targets s) of
             Some t \<Rightarrow> count_selection t s
           | None \<Rightarrow> (if targets s = [] then None
                      else count_selection (targets s ! (length (targets s) - 1)) s)))"

definition sp_Targets :: "'lb Splitter \<Rightarrow> 'lb Target list" where
  "sp_Targets s = targets s"

definition UpdateTargets :: "'lb Target list \<Rightarrow> 'lb Splitter \<Rightarrow> split_error option \<times> 'lb Splitter" where
  "UpdateTargets ts s =
    (if length ts = 0 then (Some ErrNoTargets, s)
     else (case collect_targets ts \<lparr>targets = [], totalWeight = 0, selections = Map.empty\<rparr> of
             Inl e \<Rightarrow> (Some e, s)
           | Inr n \<Rightarrow> (None, s\<lparr>targets := targets n, totalWeight := totalWeight n, selections := selections n\<rparr>)))"

definition sp_Stats :: "'lb Splitter \<Rightarrow> (string \<rightharpoonup> int)" where
  "sp_Stats s = selections s"

section \<open>Deterministic splitting\<close>

text \<open>The predicates of a pool are part of the struct; no operation calls them.\<close>

record 'lb Pool =
  pl_Name :: string
  pl_Weight :: int
  pl_Balancer :: 'lb
  pl_Predicates :: "(unit \<Rightarrow> bool) list"

record 'lb SimpleSplitter =
  ss_pools :: "'lb Pool list"
  ss_totalWeight :: int
  ss_counter :: "64 word"

definition NewSimpleSplitter :: "'lb SimpleSplitter" where
  "NewSimpleSplitter = \<lparr>ss_pools = [], ss_totalWeight = 0, ss_counter = 0\<rparr>"

definition NewSplitter2 :: "'lb SimpleSplitter" where
  "NewSplitter2 = NewSimpleSplitter"

definition AddPool :: "'lb Pool \<Rightarrow> 'lb SimpleSplitter \<Rightarrow> 'lb SimpleSplitter" where
  "AddPool p s = s\<lparr>ss_pools := ss_pools s @ [p], ss_totalWeight := ss_totalWeight s + pl_Weight p\<rparr>"

fun pool_walk :: "int \<Rightarrow> int \<Rightarrow> 'lb Pool list \<Rightarrow> 'lb Pool option" where
  "pool_walk position cumulative [] = None"
| "pool_walk position cumulative (p # ps) =
     (let cumulative' = cumulative + pl_Weight p
      in if position < cumulative' then Some p else pool_walk position cumulative' ps)"

text \<open>\<^verbatim>\<open>int(count % uint64(s.totalWeight))\<close> at 64 bits.\<close>

definition ss_Route :: "'lb SimpleSplitter \<Rightarrow> ('lb \<times> string) option \<times> 'lb SimpleSplitter" where
  "ss_Route s =
    (if length (ss_pools s) = 0 \<or> ss_totalWeight s = 0 then (None, s)
     else (let count = ss_counter s + 1;
               position = sint (count mod (word_of_int (ss_totalWeight s)));
               p = (case pool_walk position 0 (ss_pools s) of
                      Some p \<Rightarrow> p | None \<Rightarrow> ss_pools s ! (length (ss_pools s) - 1))
           in (Some (pl_Balancer p, pl_Name p), s\<lparr>ss_counter := count\<rparr>)))"

section \<open>Exactness\<close>

text \<open>The numbers below the total fall into the segments of the weights, in order.\<close>

lemma walk_segments:
  assumes "\<forall>t \<in> set ts. 0 < weight t"
  shows "map (\<lambda>r. walk weight (int r) ts) [0..<nat (sum_list (map weight ts))] =
    concat (map (\<lambda>t. replicate (nat (weight t)) (Some t)) ts)"
  using assms
proof (induction ts)
  case (Cons t ts)
  let ?w = "nat (weight t)" and ?W = "nat (sum_list (map weight ts))"
  have "0 \<le> sum_list (map weight ts)" using Cons.prems by (intro sum_list_nonneg) (auto intro: less_imp_le)
  then have "[0..<nat (sum_list (map weight (t # ts)))] = [0..<?w] @ map (\<lambda>r. r + ?w) [0..<?W]"
    using Cons.prems by (simp add: nat_add_distrib map_add_upt upt_add_eq_append [of 0, simplified] add.commute)
  moreover have "map (\<lambda>r. walk weight (int r) (t # ts)) [0..<?w] = replicate ?w (Some t)"
    by (rule nth_equalityI) auto
  moreover have "walk weight (int (r + ?w)) (t # ts) = walk weight (int r) ts" for r
    using Cons.prems by simp
  ultimately show ?case using Cons by (simp add: comp_def del: walk.simps)
qed simp

lemma sum_list_map_pos:
  fixes f :: "'a \<Rightarrow> int"
  shows "xs \<noteq> [] \<Longrightarrow> \<forall>x \<in> set xs. 0 < f x \<Longrightarrow> 0 < sum_list (map f xs)"
  by (induction xs rule: list_nonempty_induct) simp_all

lemma walk_Some:
  assumes "\<forall>t \<in> set ts. 0 < weight t" and "0 \<le> r" and "r < sum_list (map weight ts)"
  shows "\<exists>t \<in> set ts. walk weight r ts = Some t"
  using assms by (induction ts arbitrary: r) (auto simp: Let_def)

lemma pool_walk_eq: "pool_walk pos cum ps = walk pl_Weight (pos - cum) ps"
  by (induction ps arbitrary: cum) (simp_all add: Let_def algebra_simps)

definition splitter_ok :: "'lb Splitter \<Rightarrow> bool" where
  "splitter_ok s \<longleftrightarrow> targets s \<noteq> [] \<and> (\<forall>t \<in> set (targets s). 0 < t_Weight t) \<and>
     totalWeight s = sum_list (map t_Weight (targets s)) \<and> dom (selections s) = t_Name ` set (targets s)"

lemma collect_targets_Inr:
  assumes "collect_targets ts s = Inr s'"
  shows "(\<forall>t \<in> set ts. 0 < t_Weight t) \<and> targets s' = targets s @ ts \<and>
    totalWeight s' = totalWeight s + sum_list (map t_Weight ts) \<and>
    dom (selections s') = dom (selections s) \<union> t_Name ` set ts \<and>
    (\<forall>n y. selections s' n = Some y \<longrightarrow> y = 0 \<or> selections s n = Some y)"
  using assms
proof (induction ts arbitrary: s)
  case Nil
  then show ?case by simp
next
  case (Cons t ts)
  then have w: "0 < t_Weight t" and run: "collect_targets ts
      (s\<lparr>targets := targets s @ [t], totalWeight := totalWeight s + t_Weight t,
         selections := (selections s)(t_Name t \<mapsto> 0)\<rparr>) = Inr s'" by (auto split: if_splits)
  from Cons.IH [OF run] w show ?case by (auto simp: fun_upd_def split: if_splits) (metis+)
qed

lemma collect_targets_Inl:
  "(\<exists>e. collect_targets ts s = Inl e) \<longleftrightarrow> (\<exists>t \<in> set ts. t_Weight t \<le> 0)"
  "collect_targets ts s = Inl e \<Longrightarrow> e = ErrInvalidWeight"
  by (induction ts arbitrary: s) (auto split: if_splits)

lemma count_selection_ok:
  assumes "splitter_ok s" and "t \<in> set (targets s)"
  obtains n where "selections s (t_Name t) = Some n"
    "count_selection t s = Some (t, s\<lparr>selections := (selections s)(t_Name t \<mapsto> n + 1)\<rparr>)"
    "splitter_ok (s\<lparr>selections := (selections s)(t_Name t \<mapsto> n + 1)\<rparr>)"
proof -
  have "t_Name t \<in> dom (selections s)" using assms by (auto simp: splitter_ok_def)
  then obtain n where "selections s (t_Name t) = Some n" by auto
  moreover from this assms have "splitter_ok (s\<lparr>selections := (selections s)(t_Name t \<mapsto> n + 1)\<rparr>)"
    by (auto simp: splitter_ok_def)
  ultimately show ?thesis using that by (simp add: count_selection_def)
qed

text \<open>The choice of \<^verbatim>\<open>Select\<close>, fast path included, is the walk; the fallback is not reached.\<close>

lemma sp_Select_walk:
  assumes ok: "splitter_ok s" and r: "0 \<le> r" "r < totalWeight s"
  obtains t where "t \<in> set (targets s)" "walk t_Weight r (targets s) = Some t" "sp_Select r s = count_selection t s"
proof -
  obtain t where t: "t \<in> set (targets s)" "walk t_Weight r (targets s) = Some t"
    using walk_Some [of "targets s" t_Weight r] ok r by (auto simp: splitter_ok_def)
  moreover have "sp_Select r s = count_selection t s"
  proof (cases "length (targets s) = 1")
    case True
    then have "targets s = [t]" using t by (cases "targets s") auto
    then show ?thesis by (simp add: sp_Select_def)
  qed (use r t in \<open>simp add: sp_Select_def\<close>)
  ultimately show ?thesis using that by blast
qed

text \<open>C35: weighted selection is exact: of the \<open>totalWeight\<close> values the random source can
  deliver, each target is chosen by exactly as many as its weight, in consecutive segments;
  the fallback behind the loop is dead code.\<close>

theorem sp_Select_exact:
  assumes "splitter_ok s"
  shows "map (\<lambda>r. map_option fst (sp_Select (int r) s)) [0..<nat (totalWeight s)] =
    concat (map (\<lambda>t. replicate (nat (t_Weight t)) (Some t)) (targets s))"
proof -
  have "map_option fst (sp_Select (int r) s) = walk t_Weight (int r) (targets s)" if "r < nat (totalWeight s)" for r
  proof -
    from that have "int r < totalWeight s" by simp
    then obtain t where t: "t \<in> set (targets s)" "walk t_Weight (int r) (targets s) = Some t"
        "sp_Select (int r) s = count_selection t s"
      using sp_Select_walk [OF assms, of "int r"] by auto
    then show ?thesis using count_selection_ok [OF assms t(1)] by (metis fst_conv option.simps(9))
  qed
  then have "map (\<lambda>r. map_option fst (sp_Select (int r) s)) [0..<nat (totalWeight s)] =
      map (\<lambda>r. walk t_Weight (int r) (targets s)) [0..<nat (totalWeight s)]" by simp
  also have "\<dots> = map (\<lambda>r. walk t_Weight (int r) (targets s)) [0..<nat (sum_list (map t_Weight (targets s)))]"
    using assms by (simp add: splitter_ok_def)
  also have "\<dots> = concat (map (\<lambda>t. replicate (nat (t_Weight t)) (Some t)) (targets s))"
    using assms by (intro walk_segments) (simp add: splitter_ok_def)
  finally show ?thesis .
qed

text \<open>\<^verbatim>\<open>Select\<close> on a splitter in service never panics, whatever the random number,
  keeps the splitter well formed, and counts the selection under the name of the target it
  returns.\<close>

theorem sp_Select_counts:
  assumes "splitter_ok s" and "0 \<le> r" and "r < totalWeight s"
  shows "\<exists>t n s'. sp_Select r s = Some (t, s') \<and> t \<in> set (targets s) \<and> splitter_ok s' \<and>
    sp_Stats s (t_Name t) = Some n \<and> sp_Stats s' = (sp_Stats s)(t_Name t \<mapsto> n + 1)"
proof -
  obtain t where t: "t \<in> set (targets s)" "sp_Select r s = count_selection t s"
    using sp_Select_walk [OF assms] by blast
  obtain n where "selections s (t_Name t) = Some n"
    "count_selection t s = Some (t, s\<lparr>selections := (selections s)(t_Name t \<mapsto> n + 1)\<rparr>)"
    "splitter_ok (s\<lparr>selections := (selections s)(t_Name t \<mapsto> n + 1)\<rparr>)"
    using count_selection_ok [OF assms(1) t(1)] .
  with t show ?thesis by (intro exI [of _ t] exI [of _ n]) (simp add: sp_Stats_def)
qed

text \<open>A reconfiguration is all or nothing: it is accepted exactly when there are targets and
  all weights are positive, and then the splitter is well formed with all counters at zero;
  otherwise the splitter is unchanged.\<close>

theorem UpdateTargets_atomic:
  "(fst (UpdateTargets ts s) = None \<longleftrightarrow> ts \<noteq> [] \<and> (\<forall>t \<in> set ts. 0 < t_Weight t)) \<and>
   (case UpdateTargets ts s of
      (Some e, s') \<Rightarrow> s' = s
    | (None, s') \<Rightarrow> splitter_ok s' \<and> sp_Targets s' = ts \<and> (\<forall>n y. sp_Stats s' n = Some y \<longrightarrow> y = 0))"
proof (cases "ts = []")
  case True
  then show ?thesis by (simp add: UpdateTargets_def)
next
  case False
  let ?run = "collect_targets ts \<lparr>targets = [], totalWeight = 0, selections = Map.empty\<rparr>"
  show ?thesis
  proof (cases ?run)
    case (Inl e)
    then have "\<exists>t \<in> set ts. t_Weight t \<le> 0" using collect_targets_Inl(1) by metis
    with Inl False show ?thesis by (auto simp: UpdateTargets_def not_less)
  next
    case (Inr n)
    from collect_targets_Inr [OF Inr] Inr False show ?thesis
      by (auto simp: UpdateTargets_def splitter_ok_def sp_Stats_def sp_Targets_def)
  qed
qed

section \<open>The deterministic splitter\<close>

definition simple_ok :: "'lb SimpleSplitter \<Rightarrow> bool" where
  "simple_ok s \<longleftrightarrow> (\<forall>p \<in> set (ss_pools s). 0 < pl_Weight p) \<and> ss_totalWeight s = sum_list (map pl_Weight (ss_pools s)) \<and>
     ss_totalWeight s < 2 ^ 63"

lemma AddPool_ok:
  "simple_ok s \<Longrightarrow> 0 < pl_Weight p \<Longrightarrow> ss_totalWeight s + pl_Weight p < 2 ^ 63 \<Longrightarrow> simple_ok (AddPool p s)"
  by (auto simp: simple_ok_def AddPool_def)

lemma ss_Route_nowrap:
  assumes ok: "simple_ok s" "ss_pools s \<noteq> []" and c: "Suc (unat (ss_counter s)) < 2 ^ 64"
  shows "ss_Route s = (map_option (\<lambda>p. (pl_Balancer p, pl_Name p))
      (walk pl_Weight (int (Suc (unat (ss_counter s)) mod nat (ss_totalWeight s))) (ss_pools s)),
      s\<lparr>ss_counter := ss_counter s + 1\<rparr>)"
    and "unat (ss_counter s + 1) = Suc (unat (ss_counter s))"
proof -
  show inc: "unat (ss_counter s + 1) = Suc (unat (ss_counter s))" using c by (simp add: unat_word_ariths)
  let ?W = "ss_totalWeight s" and ?n = "Suc (unat (ss_counter s))"
  have "0 < sum_list (map pl_Weight (ss_pools s))"
    using ok by (intro sum_list_map_pos) (simp_all add: simple_ok_def)
  then have W: "0 < ?W" "?W < 2 ^ 63" using ok by (simp_all add: simple_ok_def)
  have small: "int (?n mod nat ?W) < ?W" using W mod_less_divisor [of "nat ?W" ?n] by linarith
  have "unat (word_of_int ?W :: 64 word) = nat ?W"
    using W by (simp add: unat_eq_nat_uint uint_word_of_int take_bit_int_eq_self)
  then have "unat ((ss_counter s + 1) mod word_of_int ?W) = ?n mod nat ?W" by (simp add: unat_mod inc)
  then have "uint ((ss_counter s + 1) mod word_of_int ?W) = int (?n mod nat ?W)"
    by (metis uint_nat)
  then have "sint ((ss_counter s + 1) mod word_of_int ?W) = int (?n mod nat ?W)"
    using small W by (simp add: sint_uint signed_take_bit_int_eq_self)
  moreover obtain p where "walk pl_Weight (int (?n mod nat ?W)) (ss_pools s) = Some p"
    using walk_Some [of "ss_pools s" pl_Weight "int (?n mod nat ?W)"] ok small by (auto simp: simple_ok_def)
  ultimately show "ss_Route s = (map_option (\<lambda>p. (pl_Balancer p, pl_Name p))
      (walk pl_Weight (int (Suc (unat (ss_counter s)) mod nat (ss_totalWeight s))) (ss_pools s)),
      s\<lparr>ss_counter := ss_counter s + 1\<rparr>)"
    using ok W by (simp add: ss_Route_def Let_def pool_walk_eq)
qed

text \<open>The deterministic splitter is exact over time: with positive weights whose sum fits an
  \<^verbatim>\<open>int\<close> and a counter that does not wrap, any \<open>k * totalWeight\<close> consecutive calls
  choose each pool exactly \<open>k\<close> times its weight.\<close>

theorem ss_Route_exact:
  assumes "simple_ok s" and "ss_pools s \<noteq> []" and "unat (ss_counter s) + k * nat (ss_totalWeight s) < 2 ^ 64"
  shows "mset (fst (iterate_op ss_Route (k * nat (ss_totalWeight s)) s)) =
    repeat_mset k (mset (concat (map (\<lambda>p. replicate (nat (pl_Weight p)) (Some (pl_Balancer p, pl_Name p))) (ss_pools s))))"
proof -
  let ?W = "nat (ss_totalWeight s)"
  let ?f = "\<lambda>i. map_option (\<lambda>p. (pl_Balancer p, pl_Name p)) (walk pl_Weight (int i) (ss_pools s))"
  have run: "fst (iterate_op ss_Route m u) = map (\<lambda>j. ?f ((Suc (unat (ss_counter u)) + j) mod ?W)) [0..<m]"
    if "ss_pools u = ss_pools s" "ss_totalWeight u = ss_totalWeight s" "unat (ss_counter u) + m < 2 ^ 64" for m u
    using that
  proof (induction m arbitrary: u)
    case (Suc m)
    have "simple_ok u" using Suc.prems assms(1) by (simp add: simple_ok_def)
    then have nxt: "ss_Route u = (?f (Suc (unat (ss_counter u)) mod ?W), u\<lparr>ss_counter := ss_counter u + 1\<rparr>)"
      and inc: "unat (ss_counter u + 1) = Suc (unat (ss_counter u))"
      using ss_Route_nowrap [of u] Suc.prems assms(2) by simp_all
    have "fst (iterate_op ss_Route m (u\<lparr>ss_counter := ss_counter u + 1\<rparr>)) =
        map (\<lambda>j. ?f ((Suc (Suc (unat (ss_counter u))) + j) mod ?W)) [0..<m]"
      using Suc.IH [of "u\<lparr>ss_counter := ss_counter u + 1\<rparr>"] Suc.prems inc by simp
    then show ?case unfolding map_upt_Suc by (simp add: nxt case_prod_unfold Let_def)
  qed simp
  have "mset (fst (iterate_op ss_Route (k * ?W) s)) = repeat_mset k (mset (map ?f [0..<?W]))"
    unfolding run [OF refl refl assms(3)] by (rule mset_windows)
  also have "map ?f [0..<?W] = map (map_option (\<lambda>p. (pl_Balancer p, pl_Name p)))
      (map (\<lambda>i. walk pl_Weight (int i) (ss_pools s)) [0..<nat (sum_list (map pl_Weight (ss_pools s)))])"
    using assms(1) by (simp add: simple_ok_def)
  also have "\<dots> = concat (map (\<lambda>p. replicate (nat (pl_Weight p)) (Some (pl_Balancer p, pl_Name p))) (ss_pools s))"
    using walk_segments [of "ss_pools s" pl_Weight] assms(1)
    by (simp add: simple_ok_def map_concat comp_def)
  finally show ?thesis .
qed

section \<open>Instances\<close>

definition sample_splitter :: "unit Splitter" where
  "sample_splitter = \<lparr>targets = [\<lparr>t_Name = ''prod'', t_LoadBalancer = (), t_Weight = 3\<rparr>,
       \<lparr>t_Name = ''canary'', t_LoadBalancer = (), t_Weight = 1\<rparr>],
     totalWeight = 4, selections = [''prod'' \<mapsto> 0, ''canary'' \<mapsto> 0]\<rparr>"

lemma sample_splitter_ok: "splitter_ok sample_splitter"
  by (auto simp: splitter_ok_def sample_splitter_def)

theorem sp_Select_exact_witness:
  "map (\<lambda>r. map_option (t_Name \<circ> fst) (sp_Select (int r) sample_splitter)) [0, 1, 2, 3] =
    [Some ''prod'', Some ''prod'', Some ''prod'', Some ''canary'']"
proof -
  have "map (map_option t_Name) (map (\<lambda>r. map_option fst (sp_Select (int r) sample_splitter)) [0..<nat (totalWeight sample_splitter)]) =
      map (map_option t_Name) (concat (map (\<lambda>t. replicate (nat (t_Weight t)) (Some t)) (targets sample_splitter)))"
    unfolding sp_Select_exact [OF sample_splitter_ok] ..
  then show ?thesis by (simp add: sample_splitter_def option.map_comp upt_rec eval_nat_numeral)
qed

theorem sp_Select_counts_witness:
  "\<exists>t n s'. sp_Select 3 sample_splitter = Some (t, s') \<and> splitter_ok s' \<and> sp_Stats sample_splitter (t_Name t) = Some n \<and>
    sp_Stats s' = (sp_Stats sample_splitter)(t_Name t \<mapsto> n + 1)"
  using sp_Select_counts [OF sample_splitter_ok, of 3] by (auto simp: sample_splitter_def)

theorem UpdateTargets_atomic_witness:
  "fst (UpdateTargets [\<lparr>t_Name = ''x'', t_LoadBalancer = (), t_Weight = 0\<rparr>] sample_splitter) \<noteq> None \<and>
   snd (UpdateTargets [\<lparr>t_Name = ''x'', t_LoadBalancer = (), t_Weight = 0\<rparr>] sample_splitter) = sample_splitter"
  using UpdateTargets_atomic [of "[\<lparr>t_Name = ''x'', t_LoadBalancer = (), t_Weight = 0\<rparr>]" sample_splitter]
  by (auto split: prod.splits option.splits)

theorem ss_Route_exact_witness:
  "count (mset (fst (iterate_op ss_Route (2 * nat 4) (AddPool \<lparr>pl_Name = ''canary'', pl_Weight = 1, pl_Balancer = (), pl_Predicates = []\<rparr>
      (AddPool \<lparr>pl_Name = ''prod'', pl_Weight = 3, pl_Balancer = (), pl_Predicates = []\<rparr> NewSimpleSplitter))))) (Some ((), ''prod'')) = 6"
  using ss_Route_exact [of "AddPool \<lparr>pl_Name = ''canary'', pl_Weight = 1, pl_Balancer = (), pl_Predicates = []\<rparr>
      (AddPool \<lparr>pl_Name = ''prod'', pl_Weight = 3, pl_Balancer = (), pl_Predicates = []\<rparr> NewSimpleSplitter)" 2]
  by (simp add: AddPool_def NewSimpleSplitter_def simple_ok_def)

end
