(* ===== verification/Http.thy ===== *)
theory Http
  imports Go_Prelude "HOL-Library.Product_Lexorder"
begin

text \<open>
  What the HTTP side of the gateway uses of Go's \<^verbatim>\<open>net/http\<close> and \<^verbatim>\<open>strings\<close>
  packages: headers with canonical keys, requests, response writers and handlers. Strings
  are byte strings. A handler is a function of the response writer, the request and the
  shared state of the program, and returns them changed, with a flag that says whether it
  left by a panic.
\<close>

section \<open>Strings\<close>

definition ascii_lower :: "char \<Rightarrow> char" where
  "ascii_lower c = (if 65 \<le> (of_char c :: nat) \<and> (of_char c :: nat) \<le> 90 then char_of ((of_char c :: nat) + 32) else c)"

definition ascii_upper :: "char \<Rightarrow> char" where
  "ascii_upper c = (if 97 \<le> (of_char c :: nat) \<and> (of_char c :: nat) \<le> 122 then char_of ((of_char c :: nat) - 32) else c)"

text \<open>\<^verbatim>\<open>strings.EqualFold\<close> on ASCII strings.\<close>

definition EqualFold :: "string \<Rightarrow> string \<Rightarrow> bool" where
  "EqualFold s t \<longleftrightarrow> map ascii_lower s = map ascii_lower t"

text \<open>\<^verbatim>\<open>strings.HasPrefix\<close>, \<^verbatim>\<open>strings.TrimPrefix\<close>, and \<^verbatim>\<open>strings.LastIndex\<close>
  and \<^verbatim>\<open>strings.Index\<close> for a one-byte separator, with \<open>None\<close> for \<open>-1\<close>.\<close>

definition HasPrefix :: "string \<Rightarrow> string \<Rightarrow> bool" where
  "HasPrefix s p \<longleftrightarrow> prefix p s"

definition TrimPrefix :: "string \<Rightarrow> string \<Rightarrow> string" where
  "TrimPrefix s p = (if HasPrefix s p then drop (length p) s else s)"

definition HasSuffix :: "string \<Rightarrow> string \<Rightarrow> bool" where
  "HasSuffix s t \<longleftrightarrow> suffix t s"

definition TrimSuffix :: "string \<Rightarrow> string \<Rightarrow> string" where
  "TrimSuffix s t = (if HasSuffix s t then take (length s - length t) s else s)"

fun Index_byte :: "string \<Rightarrow> char \<Rightarrow> nat option" where
  "Index_byte [] c = None"
| "Index_byte (x # s) c = (if x = c then Some 0 else map_option Suc (Index_byte s c))"

fun LastIndex_byte :: "string \<Rightarrow> char \<Rightarrow> nat option" where
  "LastIndex_byte [] c = None"
| "LastIndex_byte (x # s) c =
     (case LastIndex_byte s c of Some i \<Rightarrow> Some (Suc i) | None \<Rightarrow> if x = c then Some 0 else None)"

text \<open>\<^verbatim>\<open>strings.Join\<close>, separator first.\<close>

fun join :: "string \<Rightarrow> string list \<Rightarrow> string" where
  "join sep [] = []"
| "join sep [x] = x"
| "join sep (x # y # xs) = x @ sep @ join sep (y # xs)"

text \<open>The decimal digits of \<^verbatim>\<open>%d\<close>.\<close>

definition decimal :: string where
  "decimal = ''0123456789''"

fun digits :: "nat \<Rightarrow> string" where
  "digits n = (if n < 10 then [decimal ! n] else digits (n div 10) @ [decimal ! (n mod 10)])"

definition Itoa :: "int \<Rightarrow> string" where
  "Itoa i = (if i < 0 then ''-'' @ digits (nat (- i)) else digits (nat i))"

lemma EqualFold_refl [simp]: "EqualFold s s"
  by (simp add: EqualFold_def)

lemma Index_byte_None: "Index_byte s c = None \<longleftrightarrow> c \<notin> set s"
  by (induction s) auto

lemma LastIndex_byte_None: "LastIndex_byte s c = None \<longleftrightarrow> c \<notin> set s"
  by (induction s) (auto split: option.splits)

lemma LastIndex_byte_snoc: "c \<notin> set t \<Longrightarrow> LastIndex_byte (s @ c # t) c = Some (length s)"
  by (induction s) (auto simp: LastIndex_byte_None split: option.splits)

declare digits.simps [simp del]

lemma decimal_nth: "n < 10 \<Longrightarrow> decimal ! n \<in> set decimal"
  by (rule nth_mem) (simp add: decimal_def)

lemma digits_range: "set (digits n) \<subseteq> set decimal"
proof (induction n rule: digits.induct)
  case (1 n)
  then show ?case using decimal_nth [of n] decimal_nth [of "n mod 10"]
    by (cases "n < 10") (simp_all add: digits.simps [of n])
qed

lemma Itoa_range: "set (Itoa i) \<subseteq> insert CHR ''-'' (set decimal)"
  using digits_range by (auto simp: Itoa_def)

section \<open>Headers\<close>

text \<open>\<^verbatim>\<open>textproto.CanonicalMIMEHeaderKey\<close> for keys made of token characters: the first
  letter and every letter after a hyphen in upper case, the others in lower case.\<close>

fun canonical_from :: "bool \<Rightarrow> string \<Rightarrow> string" where
  "canonical_from up [] = []"
| "canonical_from up (c # s) = (if up then ascii_upper c else ascii_lower c) # canonical_from (c = CHR ''-'') s"

definition canonical_key :: "string \<Rightarrow> string" where
  "canonical_key s = canonical_from True s"

type_synonym header = "string \<Rightarrow> string list"

definition no_header :: header where
  "no_header = (\<lambda>_. [])"

definition hdr_Get :: "header \<Rightarrow> string \<Rightarrow> string" where
  "hdr_Get h k = (case h (canonical_key k) of [] \<Rightarrow> [] | v # _ \<Rightarrow> v)"

definition hdr_Set :: "string \<Rightarrow> string \<Rightarrow> header \<Rightarrow> header" where
  "hdr_Set k v h = h(canonical_key k := [v])"

definition hdr_Add :: "string \<Rightarrow> string \<Rightarrow> header \<Rightarrow> header" where
  "hdr_Add k v h = h(canonical_key k := h (canonical_key k) @ [v])"

definition hdr_Del :: "string \<Rightarrow> header \<Rightarrow> header" where
  "hdr_Del k h = h(canonical_key k := [])"

lemma hdr_Get_Set: "hdr_Get (hdr_Set k v h) k' = (if canonical_key k' = canonical_key k then v else hdr_Get h k')"
  by (simp add: hdr_Get_def hdr_Set_def)

section \<open>Requests, responses, handlers\<close>

record route_info =
  Name :: string
  Host :: string
  PathPrefix :: string
  Methods :: "string list"
  Backend_name :: string

text \<open>The values the gateway keeps in a request's context; extensible.\<close>

record http_ctx =
  ctx_route :: "route_info option"

record 'x request =
  r_Method :: string
  r_Host :: string
  r_Path :: string
  r_RawPath :: string
  r_RawQuery :: string
  r_RequestURI :: string
  r_Header :: header
  r_RemoteAddr :: string
  r_TLS :: bool
  r_ContentLength :: int
  r_Close :: bool
  r_ctx :: "'x http_ctx_scheme"

text \<open>
  A response writer: the header map under construction, what was sent with the status line, and
  the body, together with the wrappers of \<^verbatim>\<open>internal/middleware/logging.go\<close> that are in
  place around it, the outermost first.
\<close>

record responseWriter =
  rw_status :: int
  rw_wroteHeader :: bool
  rw_bytes :: int

record writer =
  w_Header :: header
  w_status :: "int option"
  w_sent :: header
  w_body :: string
  w_wraps :: "responseWriter list"

definition new_writer :: writer where
  "new_writer = \<lparr>w_Header = no_header, w_status = None, w_sent = no_header, w_body = [], w_wraps = []\<rparr>"

text \<open>\<^verbatim>\<open>WriteHeader\<close> of the server's writer: only the first final status counts.
  Informational codes do not end the header, and a code that is not three digits panics.\<close>

definition base_WriteHeader :: "int \<Rightarrow> writer \<Rightarrow> bool \<times> writer" where
  "base_WriteHeader code w =
    (if code < 100 \<or> 999 < code then (True, w)
     else if w_status w \<noteq> None then (False, w)
     else if code \<le> 199 \<and> code \<noteq> 101 then (False, w)
     else (False, w\<lparr>w_status := Some code, w_sent := w_Header w\<rparr>))"

text \<open>\<^verbatim>\<open>Write\<close> of the server's writer: an implicit \<^verbatim>\<open>WriteHeader(200)\<close>, then the bytes,
  unless the status allows no body.\<close>

definition bodyAllowedForStatus :: "int \<Rightarrow> bool" where
  "bodyAllowedForStatus status \<longleftrightarrow> \<not> (100 \<le> status \<and> status \<le> 199) \<and> status \<noteq> 204 \<and> status \<noteq> 304"

definition base_Write :: "string \<Rightarrow> writer \<Rightarrow> nat \<times> writer" where
  "base_Write b w =
    (let w1 = snd (base_WriteHeader 200 w)
     in if (case w_status w1 of Some s \<Rightarrow> bodyAllowedForStatus s | None \<Rightarrow> True)
        then (length b, w1\<lparr>w_body := w_body w1 @ b\<rparr>) else (0, w1))"

text \<open>\<^verbatim>\<open>WriteHeader\<close> and \<^verbatim>\<open>Write\<close> through a stack of wrappers: the first status passes, later ones
  stop at the outermost wrapper that has one. \<^verbatim>\<open>Write\<close> counts the bytes in every wrapper; the
  \<^verbatim>\<open>WriteHeader(200)\<close> that a wrapper sends ahead is the one the writer below would imply itself,
  so each layer of the recursion accounts for its own.\<close>

fun wrap_WriteHeader :: "int \<Rightarrow> responseWriter list \<Rightarrow> writer \<Rightarrow> bool \<times> responseWriter list \<times> writer" where
  "wrap_WriteHeader code [] w = (let (p, w') = base_WriteHeader code w in (p, [], w'))"
| "wrap_WriteHeader code (rw # rws) w =
     (if \<not> rw_wroteHeader rw
      then (let (p, rws', w') = wrap_WriteHeader code rws w
            in (p, rw\<lparr>rw_status := code, rw_wroteHeader := True\<rparr> # rws', w'))
      else (False, rw # rws, w))"

fun wrap_Write :: "string \<Rightarrow> responseWriter list \<Rightarrow> writer \<Rightarrow> nat \<times> responseWriter list \<times> writer" where
  "wrap_Write b [] w = (let (n, w') = base_Write b w in (n, [], w'))"
| "wrap_Write b (rw # rws) w =
     (let rw1 = (if \<not> rw_wroteHeader rw then rw\<lparr>rw_status := 200, rw_wroteHeader := True\<rparr> else rw);
          (n, rws', w') = wrap_Write b rws w
      in (n, rw1\<lparr>rw_bytes := rw_bytes rw1 + int n\<rparr> # rws', w'))"

definition w_WriteHeader :: "int \<Rightarrow> writer \<Rightarrow> bool \<times> writer" where
  "w_WriteHeader code w =
    (let (p, rws, w') = wrap_WriteHeader code (w_wraps w) w in (p, w'\<lparr>w_wraps := rws\<rparr>))"

definition w_Write_n :: "string \<Rightarrow> writer \<Rightarrow> nat \<times> writer" where
  "w_Write_n b w = (let (n, rws, w') = wrap_Write b (w_wraps w) w in (n, w'\<lparr>w_wraps := rws\<rparr>))"

definition w_Write :: "string \<Rightarrow> writer \<Rightarrow> writer" where
  "w_Write b w = snd (w_Write_n b w)"

definition newline :: string where
  "newline = [CHR 0x0A]"

definition http_Error :: "string \<Rightarrow> int \<Rightarrow> writer \<Rightarrow> writer" where
  "http_Error msg code w =
    (let h = hdr_Set ''X-Content-Type-Options'' ''nosniff''
               (hdr_Set ''Content-Type'' ''text/plain; charset=utf-8''
                 (hdr_Del ''Content-Length'' (w_Header w)));
         w1 = snd (w_WriteHeader code (w\<lparr>w_Header := h\<rparr>))
     in w_Write (msg @ newline) w1)"

text \<open>The configuration of a call: the writer, the request (whose header and URL are shared by
  pointer) and the state of the program.\<close>

record ('w, 'x) conf =
  cf_w :: writer
  cf_r :: "'x request"
  cf_world :: 'w

type_synonym ('w, 'x) handler = "('w, 'x) conf \<Rightarrow> bool \<times> ('w, 'x) conf"

text \<open>\<^verbatim>\<open>next.ServeHTTP(w, r.WithContext(ctx))\<close>: the copy shares the header map and the URL
  with the original, which keeps its own context.\<close>

definition serve_with_context :: "'x http_ctx_scheme \<Rightarrow> ('w, 'x) handler \<Rightarrow> ('w, 'x) handler" where
  "serve_with_context ctx next c =
    (let (p, c') = next (c\<lparr>cf_r := (cf_r c)\<lparr>r_ctx := ctx\<rparr>\<rparr>)
     in (p, c'\<lparr>cf_r := (cf_r c')\<lparr>r_ctx := r_ctx (cf_r c)\<rparr>\<rparr>))"

text \<open>The wrappers and the writer agree on whether a header was written. A handler may rely on a
  fresh writer: no status, and no wrapper that has passed one.\<close>

definition fresh_writer :: "writer \<Rightarrow> bool" where
  "fresh_writer w \<longleftrightarrow> w_status w = None \<and> (\<forall>rw \<in> set (w_wraps w). \<not> rw_wroteHeader rw)"

lemma wrap_WriteHeader_fresh:
  "\<forall>rw \<in> set rws. \<not> rw_wroteHeader rw \<Longrightarrow>
    wrap_WriteHeader code rws w =
      (let (p, w') = base_WriteHeader code w
       in (p, map (\<lambda>rw. rw\<lparr>rw_status := code, rw_wroteHeader := True\<rparr>) rws, w'))"
  by (induction rws) (auto split: prod.splits)

lemma WriteHeader_fresh:
  assumes "fresh_writer w" and "200 \<le> code" and "code \<le> 999"
  shows "w_WriteHeader code w = (False, w\<lparr>w_status := Some code, w_sent := w_Header w,
     w_wraps := map (\<lambda>rw. rw\<lparr>rw_status := code, rw_wroteHeader := True\<rparr>) (w_wraps w)\<rparr>)"
  using assms by (simp add: fresh_writer_def w_WriteHeader_def wrap_WriteHeader_fresh base_WriteHeader_def)

text \<open>Once a status has been sent nothing changes it.\<close>

lemma base_WriteHeader_sticky: "w_status w = Some s \<Longrightarrow> snd (base_WriteHeader code w) = w"
  by (simp add: base_WriteHeader_def)

lemma wrap_WriteHeader_sticky: "w_status w = Some s \<Longrightarrow> snd (snd (wrap_WriteHeader code rws w)) = w"
proof (induction rws)
  case Nil
  then show ?case using base_WriteHeader_sticky [of w s code] by (auto split: prod.splits)
qed (auto split: prod.splits)

lemma wrap_Write_sticky:
  "w_status w = Some s \<Longrightarrow> wrap_Write b rws w = (n, rws', w') \<Longrightarrow> w_status w' = Some s \<and> w_sent w' = w_sent w"
proof (induction rws arbitrary: n rws')
  case Nil
  then show ?case by (auto simp: base_Write_def base_WriteHeader_def Let_def split: prod.splits if_splits)
qed (auto simp: Let_def split: prod.splits)

lemma WriteHeader_sticky:
  "w_status w = Some s \<Longrightarrow> w_status (snd (w_WriteHeader code w)) = Some s \<and> w_sent (snd (w_WriteHeader code w)) = w_sent w"
  using wrap_WriteHeader_sticky [of w s code "w_wraps w"] by (auto simp: w_WriteHeader_def split: prod.splits)

lemma Write_sticky: "w_status w = Some s \<Longrightarrow> w_status (w_Write b w) = Some s \<and> w_sent (w_Write b w) = w_sent w"
proof (cases "wrap_Write b (w_wraps w) w")
  case (fields n rws w')
  then show "w_status w = Some s \<Longrightarrow> ?thesis"
    using wrap_Write_sticky [of w s b "w_wraps w" n rws w'] by (simp add: w_Write_def w_Write_n_def)
qed

lemma wrap_Write_after_header:
  assumes "w_status w = Some s" and "bodyAllowedForStatus s"
  shows "\<forall>rw \<in> set rws. rw_wroteHeader rw \<Longrightarrow>
    wrap_Write b rws w = (length b, map (\<lambda>rw. rw\<lparr>rw_bytes := rw_bytes rw + int (length b)\<rparr>) rws, w\<lparr>w_body := w_body w @ b\<rparr>)"
proof (induction rws)
  case Nil
  then show ?case using assms by (simp add: base_Write_def base_WriteHeader_def)
qed simp

lemma Write_after_header:
  assumes "w_status w = Some s" and "bodyAllowedForStatus s" and "\<forall>rw \<in> set (w_wraps w). rw_wroteHeader rw"
  shows "w_Write_n b w = (length b, w\<lparr>w_body := w_body w @ b,
    w_wraps := map (\<lambda>rw. rw\<lparr>rw_bytes := rw_bytes rw + int (length b)\<rparr>) (w_wraps w)\<rparr>)"
  using wrap_Write_after_header [OF assms] by (simp add: w_Write_n_def)

definition error_header :: "header \<Rightarrow> header" where
  "error_header h = hdr_Set ''X-Content-Type-Options'' ''nosniff''
     (hdr_Set ''Content-Type'' ''text/plain; charset=utf-8'' (hdr_Del ''Content-Length'' h))"

lemma http_Error_fresh:
  assumes "fresh_writer w" and "200 \<le> code" and "code \<le> 999" and "bodyAllowedForStatus code"
  shows "http_Error msg code w = w\<lparr>w_Header := error_header (w_Header w), w_status := Some code,
    w_sent := error_header (w_Header w), w_body := w_body w @ msg @ newline,
    w_wraps := map (\<lambda>rw. rw\<lparr>rw_status := code, rw_wroteHeader := True, rw_bytes := rw_bytes rw + int (length msg) + 1\<rparr>) (w_wraps w)\<rparr>"
proof -
  let ?w = "w\<lparr>w_Header := error_header (w_Header w)\<rparr>"
  let ?w1 = "?w\<lparr>w_status := Some code, w_sent := w_Header ?w,
     w_wraps := map (\<lambda>rw. rw\<lparr>rw_status := code, rw_wroteHeader := True\<rparr>) (w_wraps ?w)\<rparr>"
  have "fresh_writer ?w" using assms(1) by (simp add: fresh_writer_def)
  then have "http_Error msg code w = w_Write (msg @ newline) ?w1"
    using WriteHeader_fresh [of ?w code] assms(2,3) by (simp add: http_Error_def error_header_def)
  then show ?thesis using Write_after_header [of ?w1 code "msg @ newline"] assms(4)
    by (simp add: w_Write_def newline_def comp_def)
qed

lemma http_Error_sticky:
  "w_status w = Some s \<Longrightarrow> w_status (http_Error msg code w) = Some s"
  using WriteHeader_sticky [of _ s code] Write_sticky by (simp add: http_Error_def Let_def)

end
