(* ===== verification/Router.thy ===== *)
theory Router
  imports Http "HOL-Library.Multiset"
begin

text \<open>
  The route table of \<^verbatim>\<open>internal/router\<close>: insertion by specificity, removal by name, and
  the linear scan of \<^verbatim>\<open>Match\<close>.
\<close>

section \<open>Data and operations\<close>

record ('w, 'x) Route = route_info +
  Handler :: "('w, 'x) handler"

record ('w, 'x) Router =
  routes :: "('w, 'x) Route list"

definition router_New :: "('w, 'x) Router" where
  "router_New = \<lparr>routes = []\<rparr>"

definition isMoreSpecific :: "('w, 'x) Route \<Rightarrow> ('w, 'x) Route \<Rightarrow> bool" where
  "isMoreSpecific a b =
    (let aHasHost = Host a \<noteq> []; bHasHost = Host b \<noteq> []
     in if aHasHost \<and> \<not> bHasHost then True
        else if \<not> aHasHost \<and> bHasHost then False
        else length (PathPrefix a) > length (PathPrefix b))"

fun insert_route :: "('w, 'x) Route \<Rightarrow> ('w, 'x) Route list \<Rightarrow> ('w, 'x) Route list" where
  "insert_route route [] = [route]"
| "insert_route route (existing # rs) =
     (if isMoreSpecific route existing then route # existing # rs else existing # insert_route route rs)"

definition AddRoute :: "('w, 'x) Route \<Rightarrow> ('w, 'x) Router \<Rightarrow> ('w, 'x) Router" where
  "AddRoute route r = r\<lparr>routes := insert_route route (routes r)\<rparr>"

fun remove_named :: "string \<Rightarrow> ('w, 'x) Route list \<Rightarrow> bool \<times> ('w, 'x) Route list" where
  "remove_named name [] = (False, [])"
| "remove_named name (route # rs) =
     (if Name route = name then (True, rs) else (let (ok, rs') = remove_named name rs in (ok, route # rs')))"

definition RemoveRoute :: "string \<Rightarrow> ('w, 'x) Router \<Rightarrow> bool \<times> ('w, 'x) Router" where
  "RemoveRoute name r = (let (ok, rs) = remove_named name (routes r) in (ok, r\<lparr>routes := rs\<rparr>))"

text \<open>The host of the request without what follows its last colon.\<close>

definition Routes :: "('w, 'x) Router \<Rightarrow> ('w, 'x) Route list" where
  "Routes r = routes r"

definition strip_port :: "string \<Rightarrow> string" where
  "strip_port host = (case LastIndex_byte host CHR '':'' of Some idx \<Rightarrow> take idx host | None \<Rightarrow> host)"

definition matches :: "('w, 'x) Route \<Rightarrow> 'x request \<Rightarrow> bool" where
  "matches route req =
    (if Host route \<noteq> [] \<and> strip_port (r_Host req) \<noteq> Host route then False
     else if PathPrefix route \<noteq> [] \<and> \<not> HasPrefix (r_Path req) (PathPrefix route) then False
     else if length (Methods route) > 0 \<and> \<not> list_ex (\<lambda>m. EqualFold m (r_Method req)) (Methods route) then False
     else True)"

definition Match :: "('w, 'x) Router \<Rightarrow> 'x request \<Rightarrow> ('w, 'x) Route option" where
  "Match r req = find (\<lambda>route. matches route req) (routes r)"

definition WithRoute :: "'x http_ctx_scheme \<Rightarrow> ('w, 'x) Route \<Rightarrow> 'x http_ctx_scheme" where
  "WithRoute ctx route = ctx\<lparr>ctx_route := Some (route_info.truncate route)\<rparr>"

definition RouteFromContext :: "'x http_ctx_scheme \<Rightarrow> route_info option" where
  "RouteFromContext ctx = ctx_route ctx"

definition router_ServeHTTP :: "('w, 'x) Router \<Rightarrow> ('w, 'x) handler" where
  "router_ServeHTTP r c =
    (case Match r (cf_r c) of
       None \<Rightarrow> (False, c\<lparr>cf_w := http_Error ''Not Found'' 404 (cf_w c)\<rparr>)
     | Some route \<Rightarrow> serve_with_context (WithRoute (r_ctx (cf_r c)) route) (Handler route) c)"

section \<open>The table is a stable sort\<close>

text \<open>Specificity as a key: routes with a host first, then by decreasing prefix length.\<close>

definition spec_key :: "('w, 'x) Route \<Rightarrow> bool \<times> int" where
  "spec_key r = (Host r = [], - int (length (PathPrefix r)))"

lemma isMoreSpecific_key: "isMoreSpecific a b \<longleftrightarrow> spec_key a < spec_key b"
  by (auto simp: isMoreSpecific_def spec_key_def Let_def)

lemma insert_route_set: "set (insert_route r rs) = insert r (set rs)"
  by (induction rs) auto

lemma insert_route_mset: "mset (insert_route r rs) = add_mset r (mset rs)"
  by (induction rs) auto

lemma insert_route_sorted: "sorted (map spec_key rs) \<Longrightarrow> sorted (map spec_key (insert_route r rs))"
  by (induction rs) (auto simp: isMoreSpecific_key insert_route_set)

text \<open>A new route goes behind the routes of the same specificity.\<close>

lemma insert_route_last:
  "sorted (map spec_key rs) \<Longrightarrow> filter (\<lambda>x. spec_key x = k) (insert_route r rs) =
    filter (\<lambda>x. spec_key x = k) rs @ (if spec_key r = k then [r] else [])"
proof (induction rs)
  case (Cons a rs)
  have "filter (\<lambda>x. spec_key x = k) (a # rs) = []" if "spec_key r < spec_key a" "spec_key r = k"
    using Cons.prems that by (auto simp: filter_empty_conv)
  with Cons show ?case by (auto simp: isMoreSpecific_key)
qed simp

lemma remove_named_sorted: "sorted (map spec_key rs) \<Longrightarrow> sorted (map spec_key (snd (remove_named n rs)))"
proof (induction rs)
  case (Cons r rs)
  have "set (snd (remove_named n rs)) \<subseteq> set rs" by (induction rs) (auto split: prod.splits)
  with Cons show ?case by (auto split: prod.splits)
qed simp

definition sorted_router :: "('w, 'x) Router \<Rightarrow> bool" where
  "sorted_router r \<longleftrightarrow> sorted (map spec_key (routes r))"

datatype ('w, 'x) router_op = Add "('w, 'x) Route" | Remove string

fun router_step :: "('w, 'x) Router \<Rightarrow> ('w, 'x) router_op \<Rightarrow> ('w, 'x) Router" where
  "router_step r (Add route) = AddRoute route r"
| "router_step r (Remove name) = snd (RemoveRoute name r)"

interpretation router: op_system router_step sorted_router "\<lambda>_ _. True"
proof
  fix s :: "('a, 'b) Router" and e
  show "sorted_router s \<Longrightarrow> sorted_router (router_step s e)"
    by (cases e) (simp_all add: sorted_router_def AddRoute_def RemoveRoute_def case_prod_unfold Let_def
        insert_route_sorted remove_named_sorted)
qed

text \<open>C39: adding routes in any order yields the stable sort of the list of additions by
  specificity: a host beats no host, then a longer prefix beats a shorter one, and among
  equally specific routes the one added first stays first.\<close>

theorem AddRoute_is_stable_sort:
  "Routes (fold AddRoute rs router_New) = sort_key spec_key rs"
  unfolding Routes_def
proof (rule properties_for_sort_key [symmetric])
  have inv: "sorted (map spec_key (routes (fold AddRoute rs router_New))) \<and>
      mset (routes (fold AddRoute rs router_New)) = mset rs \<and>
      (\<forall>k. filter (\<lambda>x. spec_key x = k) (routes (fold AddRoute rs router_New)) = filter (\<lambda>x. spec_key x = k) rs)"
  proof (induction rs rule: rev_induct)
    case (snoc r rs)
    then show ?case by (simp add: AddRoute_def insert_route_sorted insert_route_mset insert_route_last)
  qed (simp add: router_New_def)
  then show "mset (routes (fold AddRoute rs router_New)) = mset rs"
    "sorted (map spec_key (routes (fold AddRoute rs router_New)))" by simp_all
  fix k
  show "filter (\<lambda>x. spec_key k = spec_key x) (routes (fold AddRoute rs router_New)) = filter (\<lambda>x. spec_key k = spec_key x) rs"
    using inv unfolding eq_commute [of "spec_key k"] by blast
qed

text \<open>C30: after any sequence of additions and removals \<^verbatim>\<open>Match\<close> returns a matching route
  than which no matching route of the table is more specific, and nothing exactly when no
  route matches.\<close>

theorem Match_most_specific:
  "case Match (foldl router_step router_New ops) req of
     None \<Rightarrow> (\<forall>r \<in> set (routes (foldl router_step router_New ops)). \<not> matches r req)
   | Some r \<Rightarrow> r \<in> set (routes (foldl router_step router_New ops)) \<and> matches r req \<and>
       (\<forall>r' \<in> set (routes (foldl router_step router_New ops)). matches r' req \<longrightarrow> \<not> isMoreSpecific r' r)"
proof -
  let ?rs = "routes (foldl router_step router_New ops)"
  have "sorted_router (router_New :: ('a, 'b) Router)" by (simp add: sorted_router_def router_New_def)
  then have sorted: "sorted (map spec_key ?rs)"
    using router.run_inv [of router_New ops] by (simp add: sorted_router_def)
  show ?thesis
  proof (cases "Match (foldl router_step router_New ops) req")
    case None
    then have "\<forall>r \<in> set ?rs. \<not> matches r req" by (auto simp: Match_def find_None_iff)
    with None show ?thesis by simp
  next
    case (Some r)
    then obtain i where i: "i < length ?rs" "matches (?rs ! i) req" "r = ?rs ! i" "\<forall>j < i. \<not> matches (?rs ! j) req"
      by (auto simp: Match_def find_Some_iff)
    have "\<not> isMoreSpecific r' r" if r': "r' \<in> set ?rs" "matches r' req" for r'
    proof -
      obtain j where j: "j < length ?rs" "r' = ?rs ! j" using r'(1) by (auto simp: in_set_conv_nth)
      with i r'(2) have "i \<le> j" by (meson not_less)
      with j sorted have "spec_key r \<le> spec_key r'" using sorted_nth_mono [of "map spec_key ?rs" i j] i by simp
      then show ?thesis by (simp add: isMoreSpecific_key)
    qed
    with Some i show ?thesis by auto
  qed
qed

definition sample_route :: "string \<Rightarrow> string \<Rightarrow> string \<Rightarrow> (unit, unit) Route" where
  "sample_route name host path = \<lparr>Name = name, Host = host, PathPrefix = path, Methods = [], Backend_name = [],
     Handler = Pair False\<rparr>"

definition sample_request :: "string \<Rightarrow> string \<Rightarrow> unit request" where
  "sample_request host path = \<lparr>r_Method = ''GET'', r_Host = host, r_Path = path, r_RawPath = [], r_RawQuery = [],
     r_RequestURI = path, r_Header = no_header, r_RemoteAddr = ''10.0.0.1:4000'', r_TLS = False,
     r_ContentLength = 0, r_Close = False, r_ctx = \<lparr>ctx_route = None\<rparr>\<rparr>"

definition sample_router :: "(unit, unit) router_op list" where
  "sample_router = [Add (sample_route ''any'' [] []), Add (sample_route ''api'' [] ''/api''), Remove ''any'',
     Add (sample_route ''host'' ''h'' ''/a''), Add (sample_route ''all'' [] [])]"

theorem Match_most_specific_witness:
  "map_option Name (Match (foldl router_step router_New sample_router) (sample_request ''h:80'' ''/api/x'')) = Some ''host'' \<and>
   \<not> isMoreSpecific (sample_route ''api'' [] ''/api'') (sample_route ''host'' ''h'' ''/a'')"
  using Match_most_specific [of sample_router "sample_request ''h:80'' ''/api/x''"]
  by (simp add: sample_router_def sample_route_def sample_request_def router_New_def AddRoute_def RemoveRoute_def
      isMoreSpecific_def Match_def matches_def strip_port_def HasPrefix_def)

text \<open>A host written as an IPv6 literal loses its last group when the request carries no
  port: the stripped host is what precedes the last colon inside the brackets, so a route
  for that literal is not found, while the same request with a port reaches it.\<close>

theorem strip_port_ipv6:
  assumes "CHR '':'' \<notin> set g" and "CHR '':'' \<notin> set port"
  shows "strip_port (''['' @ a @ '':'' @ g @ '']'') = ''['' @ a \<and>
    strip_port (''['' @ a @ '':'' @ g @ '']:'' @ port) = ''['' @ a @ '':'' @ g @ '']''"
proof -
  have "LastIndex_byte ((''['' @ a) @ CHR '':'' # (g @ '']'')) CHR '':'' = Some (length (''['' @ a))"
    by (rule LastIndex_byte_snoc) (use assms in simp)
  moreover have "LastIndex_byte ((''['' @ a @ '':'' @ g @ '']'') @ CHR '':'' # port) CHR '':'' =
      Some (length (''['' @ a @ '':'' @ g @ '']''))"
    by (rule LastIndex_byte_snoc) (use assms in simp)
  ultimately show ?thesis by (simp add: strip_port_def)
qed

theorem strip_port_ipv6_witness:
  "strip_port ''[::1]'' = ''[:'' \<and> strip_port ''[::1]:8080'' = ''[::1]''"
  using strip_port_ipv6 [of "''1''" "''8080''" "'':''"] by simp

end
