(* ===== verification/Registry.thy ===== *)
theory Registry
  imports Http
begin

text \<open>
  The service registry of \<^verbatim>\<open>internal/registry\<close>: registrations with a time to live, change
  events on buffered channels, and the HTTP endpoints. Maps are maps; where the code ranges
  over one, the order of the iteration is an argument (a list of the keys), as are clock
  readings and random bytes. A boolean result \<open>True\<close> says that the call panicked.
\<close>

section \<open>Data\<close>

datatype EventType = EventServiceRegistered | EventServiceDeregistered | EventServiceExpired | EventServiceUpdated

fun EventType_String :: "EventType \<Rightarrow> string" where
  "EventType_String EventServiceRegistered = ''registered''"
| "EventType_String EventServiceDeregistered = ''deregistered''"
| "EventType_String EventServiceExpired = ''expired''"
| "EventType_String EventServiceUpdated = ''updated''"

record Service =
  sv_ID :: string
  sv_Name :: string
  sv_Address :: string
  sv_Tags :: "string list"
  sv_Metadata :: "string \<rightharpoonup> string"
  sv_Weight :: int
  sv_TTL :: duration
  sv_RegisteredAt :: go_time
  sv_LastHeartbeat :: go_time

record Event =
  ev_Type :: EventType
  ev_Service :: Service
  ev_Timestamp :: go_time

record reg_Config =
  DefaultTTL :: duration
  CleanupInterval :: duration
  MaxServices :: int

definition reg_DefaultConfig :: reg_Config where
  "reg_DefaultConfig = \<lparr>DefaultTTL = 30 * Second, CleanupInterval = 10 * Second, MaxServices = 0\<rparr>"

text \<open>A channel of capacity 16 with its contents; channels are referred to by number.\<close>

record channel =
  ch_buf :: "Event list"
  ch_closed :: bool

type_synonym chan_ref = nat

definition chan_cap :: nat where
  "chan_cap = 16"

record Registry =
  reg_config :: reg_Config
  services :: "string \<rightharpoonup> Service"
  subscribers :: "chan_ref set"
  reg_chans :: "chan_ref \<Rightarrow> channel"
  reg_nextChan :: nat
  reg_cancelled :: bool

definition reg_New :: "reg_Config \<Rightarrow> Registry" where
  "reg_New config = \<lparr>reg_config = config, services = Map.empty, subscribers = {},
     reg_chans = (\<lambda>_. \<lparr>ch_buf = [], ch_closed = False\<rparr>), reg_nextChan = 0, reg_cancelled = False\<rparr>"

definition IsExpired :: "go_time \<Rightarrow> duration \<Rightarrow> Service \<Rightarrow> bool" where
  "IsExpired now defaultTTL s =
    (let ttl = (if sv_TTL s = 0 then defaultTTL else sv_TTL s)
     in time_Sub now (sv_LastHeartbeat s) > ttl)"

section \<open>Events\<close>

text \<open>The \<^verbatim>\<open>select\<close> of \<^verbatim>\<open>notify\<close> on one channel: send if there is room, drop
  otherwise; a send on a closed channel panics.\<close>

definition chan_offer :: "Event \<Rightarrow> channel \<Rightarrow> channel" where
  "chan_offer e ch = (if length (ch_buf ch) < chan_cap then ch\<lparr>ch_buf := ch_buf ch @ [e]\<rparr> else ch)"

definition reg_notify :: "Event \<Rightarrow> Registry \<Rightarrow> bool \<times> Registry" where
  "reg_notify e r =
    (if \<exists>ch \<in> subscribers r. ch_closed (reg_chans r ch) then (True, r)
     else (False, r\<lparr>reg_chans := (\<lambda>ch. if ch \<in> subscribers r then chan_offer e (reg_chans r ch) else reg_chans r ch)\<rparr>))"

definition reg_Subscribe :: "Registry \<Rightarrow> chan_ref \<times> Registry" where
  "reg_Subscribe r =
    (let ch = reg_nextChan r
     in (ch, r\<lparr>reg_chans := (reg_chans r)(ch := \<lparr>ch_buf = [], ch_closed = False\<rparr>),
               reg_nextChan := Suc ch, subscribers := insert ch (subscribers r)\<rparr>))"

definition chan_close :: "chan_ref \<Rightarrow> Registry \<Rightarrow> bool \<times> Registry" where
  "chan_close ch r =
    (if ch_closed (reg_chans r ch) then (True, r)
     else (False, r\<lparr>reg_chans := (reg_chans r)(ch := (reg_chans r ch)\<lparr>ch_closed := True\<rparr>)\<rparr>))"

definition reg_Unsubscribe :: "chan_ref \<Rightarrow> Registry \<Rightarrow> bool \<times> Registry" where
  "reg_Unsubscribe ch r = chan_close ch (r\<lparr>subscribers := subscribers r - {ch}\<rparr>)"

text \<open>The channels of the subscribers are closed one by one; they are distinct, so only a channel
  that was closed before makes it panic.\<close>

definition reg_Stop :: "Registry \<Rightarrow> bool \<times> Registry" where
  "reg_Stop r =
    (let r1 = r\<lparr>reg_cancelled := True\<rparr>
     in if \<exists>ch \<in> subscribers r. ch_closed (reg_chans r ch) then (True, r1)
        else (False, r1\<lparr>reg_chans := (\<lambda>ch. if ch \<in> subscribers r then (reg_chans r ch)\<lparr>ch_closed := True\<rparr>
                                         else reg_chans r ch),
                        subscribers := {}\<rparr>))"

text \<open>A receive by the owner of a channel; \<open>None\<close> when nothing is buffered.\<close>

definition chan_recv :: "chan_ref \<Rightarrow> Registry \<Rightarrow> Event option \<times> Registry" where
  "chan_recv ch r =
    (case ch_buf (reg_chans r ch) of
       [] \<Rightarrow> (None, r)
     | e # es \<Rightarrow> (Some e, r\<lparr>reg_chans := (reg_chans r)(ch := (reg_chans r ch)\<lparr>ch_buf := es\<rparr>)\<rparr>))"

section \<open>Registrations\<close>

datatype reg_error = RegistryFull int

definition generateID :: "nat list \<Rightarrow> string" where
  "generateID bs = hex_EncodeToString (take 4 bs)"

definition reg_Register :: "go_time \<Rightarrow> nat list \<Rightarrow> Service \<Rightarrow> Registry \<Rightarrow> (bool \<times> (reg_error + string)) \<times> Registry" where
  "reg_Register now rnd svc0 r =
    (let svc1 = (if sv_ID svc0 = [] then svc0\<lparr>sv_ID := generateID rnd\<rparr> else svc0);
         max = MaxServices (reg_config r)
     in if max > 0 \<and> int (card (dom (services r))) \<ge> max \<and> services r (sv_ID svc1) = None
        then ((False, Inl (RegistryFull max)), r)
        else (let svc2 = (if sv_Weight svc1 \<le> 0 then svc1\<lparr>sv_Weight := 1\<rparr> else svc1);
                  (eventType, svc3) =
                    (case services r (sv_ID svc2) of
                       Some existing \<Rightarrow> (EventServiceUpdated, svc2\<lparr>sv_RegisteredAt := sv_RegisteredAt existing\<rparr>)
                     | None \<Rightarrow> (EventServiceRegistered, svc2\<lparr>sv_RegisteredAt := now\<rparr>));
                  svc4 = svc3\<lparr>sv_LastHeartbeat := now\<rparr>;
                  r1 = r\<lparr>services := (services r)(sv_ID svc4 \<mapsto> svc4)\<rparr>;
                  (p, r2) = reg_notify \<lparr>ev_Type = eventType, ev_Service = svc4, ev_Timestamp = now\<rparr> r1
              in ((p, Inr (sv_ID svc4)), r2)))"

definition reg_Deregister :: "go_time \<Rightarrow> string \<Rightarrow> Registry \<Rightarrow> (bool \<times> bool) \<times> Registry" where
  "reg_Deregister now sid r =
    (case services r sid of
       None \<Rightarrow> ((False, False), r)
     | Some svc \<Rightarrow>
         (let r1 = r\<lparr>services := (services r)(sid := None)\<rparr>;
              (p, r2) = reg_notify \<lparr>ev_Type = EventServiceDeregistered, ev_Service = svc, ev_Timestamp = now\<rparr> r1
          in ((p, True), r2)))"

definition reg_Heartbeat :: "go_time \<Rightarrow> string \<Rightarrow> Registry \<Rightarrow> bool \<times> Registry" where
  "reg_Heartbeat now sid r =
    (case services r sid of
       None \<Rightarrow> (False, r)
     | Some svc \<Rightarrow> (True, r\<lparr>services := (services r)(sid \<mapsto> svc\<lparr>sv_LastHeartbeat := now\<rparr>)\<rparr>))"

definition reg_Get :: "Registry \<Rightarrow> string \<Rightarrow> Service option" where
  "reg_Get r sid = services r sid"

definition reg_GetByName :: "string list \<Rightarrow> Registry \<Rightarrow> string \<Rightarrow> Service list" where
  "reg_GetByName order r name = filter (\<lambda>svc. sv_Name svc = name) (map (the \<circ> services r) order)"

definition reg_GetByTag :: "string list \<Rightarrow> Registry \<Rightarrow> string \<Rightarrow> Service list" where
  "reg_GetByTag order r tag = filter (\<lambda>svc. tag \<in> set (sv_Tags svc)) (map (the \<circ> services r) order)"

definition reg_List :: "string list \<Rightarrow> Registry \<Rightarrow> Service list" where
  "reg_List order r = map (the \<circ> services r) order"

definition reg_Count :: "Registry \<Rightarrow> nat" where
  "reg_Count r = card (dom (services r))"

text \<open>The first loop of \<^verbatim>\<open>cleanupExpired\<close>: \<open>clock\<close> is the reading of \<^verbatim>\<open>time.Since\<close> for
  each key.\<close>

fun cleanup_collect :: "(string \<Rightarrow> go_time) \<Rightarrow> string list \<Rightarrow> Registry \<Rightarrow> Service list \<times> Registry" where
  "cleanup_collect clock [] r = ([], r)"
| "cleanup_collect clock (sid # sids) r =
     (case services r sid of
        None \<Rightarrow> cleanup_collect clock sids r
      | Some svc \<Rightarrow>
          (if IsExpired (clock sid) (DefaultTTL (reg_config r)) svc
           then (let (expired, r') = cleanup_collect clock sids (r\<lparr>services := (services r)(sid := None)\<rparr>)
                 in (svc # expired, r'))
           else cleanup_collect clock sids r))"

fun notify_expired :: "go_time \<Rightarrow> Service list \<Rightarrow> Registry \<Rightarrow> bool \<times> Registry" where
  "notify_expired now [] r = (False, r)"
| "notify_expired now (svc # svcs) r =
     (let (p, r1) = reg_notify \<lparr>ev_Type = EventServiceExpired, ev_Service = svc, ev_Timestamp = now\<rparr> r
      in if p then (True, r1) else notify_expired now svcs r1)"

definition cleanupExpired :: "go_time \<Rightarrow> (string \<Rightarrow> go_time) \<Rightarrow> string list \<Rightarrow> Registry \<Rightarrow> bool \<times> Registry" where
  "cleanupExpired now clock order r =
    (let (expired, r1) = cleanup_collect clock order r in notify_expired now expired r1)"

text \<open>\<^verbatim>\<open>cleanupLoop\<close>: a clean-up at every tick until the context is done; it panics when the ticker cannot be made.\<close>

datatype cleanup_event = CleanupTick go_time "string \<Rightarrow> go_time" "string list" | CleanupDone

fun cleanup_ticks :: "cleanup_event list \<Rightarrow> Registry \<Rightarrow> bool \<times> Registry" where
  "cleanup_ticks [] r = (False, r)"
| "cleanup_ticks (CleanupDone # es) r = (False, r)"
| "cleanup_ticks (CleanupTick now clock order # es) r =
     (let (p, r') = cleanupExpired now clock order r in if p then (True, r') else cleanup_ticks es r')"

definition cleanupLoop :: "cleanup_event list \<Rightarrow> Registry \<Rightarrow> bool \<times> Registry" where
  "cleanupLoop es r = (if ticker_panics (CleanupInterval (reg_config r)) then (True, r) else cleanup_ticks es r)"

text \<open>An order in which a range over the services may visit them.\<close>

definition iteration_order :: "string list \<Rightarrow> Registry \<Rightarrow> bool" where
  "iteration_order order r \<longleftrightarrow> distinct order \<and> set order = dom (services r)"

section \<open>The invariant\<close>

definition reg_inv :: "Registry \<Rightarrow> bool" where
  "reg_inv r \<longleftrightarrow> finite (dom (services r)) \<and>
     (\<forall>sid svc. services r sid = Some svc \<longrightarrow> sv_ID svc = sid \<and> sid \<noteq> [] \<and> 1 \<le> sv_Weight svc) \<and>
     (0 < MaxServices (reg_config r) \<longrightarrow> int (reg_Count r) \<le> MaxServices (reg_config r)) \<and>
     (\<forall>ch \<in> subscribers r. ch < reg_nextChan r \<and> \<not> ch_closed (reg_chans r ch)) \<and>
     (\<forall>ch. length (ch_buf (reg_chans r ch)) \<le> chan_cap)"

datatype reg_op =
    OpRegister go_time "nat list" Service
  | OpDeregister go_time string
  | OpHeartbeat go_time string
  | OpCleanup go_time "string \<Rightarrow> go_time" "string list"
  | OpSubscribe
  | OpUnsubscribe chan_ref
  | OpRecv chan_ref
  | OpStop

fun reg_step :: "Registry \<Rightarrow> reg_op \<Rightarrow> Registry" where
  "reg_step r (OpRegister now rnd svc) = snd (reg_Register now rnd svc r)"
| "reg_step r (OpDeregister now sid) = snd (reg_Deregister now sid r)"
| "reg_step r (OpHeartbeat now sid) = snd (reg_Heartbeat now sid r)"
| "reg_step r (OpCleanup now clock order) = snd (cleanupExpired now clock order r)"
| "reg_step r OpSubscribe = snd (reg_Subscribe r)"
| "reg_step r (OpUnsubscribe ch) = snd (reg_Unsubscribe ch r)"
| "reg_step r (OpRecv ch) = snd (chan_recv ch r)"
| "reg_step r OpStop = snd (reg_Stop r)"

text \<open>Whether an operation panics.\<close>

fun reg_panics :: "Registry \<Rightarrow> reg_op \<Rightarrow> bool" where
  "reg_panics r (OpRegister now rnd svc) = fst (fst (reg_Register now rnd svc r))"
| "reg_panics r (OpDeregister now sid) = fst (fst (reg_Deregister now sid r))"
| "reg_panics r (OpHeartbeat now sid) = False"
| "reg_panics r (OpCleanup now clock order) = fst (cleanupExpired now clock order r)"
| "reg_panics r OpSubscribe = False"
| "reg_panics r (OpUnsubscribe ch) = fst (reg_Unsubscribe ch r)"
| "reg_panics r (OpRecv ch) = False"
| "reg_panics r OpStop = fst (reg_Stop r)"

text \<open>What the environment owes: four random bytes, an iteration order for a range.\<close>

fun reg_legal :: "Registry \<Rightarrow> reg_op \<Rightarrow> bool" where
  "reg_legal r (OpRegister now rnd svc) \<longleftrightarrow> length rnd = 4"
| "reg_legal r (OpCleanup now clock order) \<longleftrightarrow> iteration_order order r"
| "reg_legal r _ \<longleftrightarrow> True"


section \<open>Every operation keeps the invariant\<close>

lemma chan_offer_sel [simp]:
  "ch_closed (chan_offer e ch) = ch_closed ch"
  "length (ch_buf ch) \<le> chan_cap \<Longrightarrow> length (ch_buf (chan_offer e ch)) \<le> chan_cap"
  by (simp_all add: chan_offer_def)

lemma reg_inv_open: "reg_inv r \<Longrightarrow> ch \<in> subscribers r \<Longrightarrow> \<not> ch_closed (reg_chans r ch)"
  by (simp add: reg_inv_def)

text \<open>The part of the invariant about the channels alone.\<close>

definition chans_ok :: "Registry \<Rightarrow> bool" where
  "chans_ok r \<longleftrightarrow> (\<forall>ch \<in> subscribers r. ch < reg_nextChan r \<and> \<not> ch_closed (reg_chans r ch)) \<and>
     (\<forall>ch. length (ch_buf (reg_chans r ch)) \<le> chan_cap)"

definition services_ok :: "reg_Config \<Rightarrow> (string \<rightharpoonup> Service) \<Rightarrow> bool" where
  "services_ok cfg m \<longleftrightarrow> finite (dom m) \<and>
     (\<forall>sid svc. m sid = Some svc \<longrightarrow> sv_ID svc = sid \<and> sid \<noteq> [] \<and> 1 \<le> sv_Weight svc) \<and>
     (0 < MaxServices cfg \<longrightarrow> int (card (dom m)) \<le> MaxServices cfg)"

lemma reg_inv_split: "reg_inv r \<longleftrightarrow> services_ok (reg_config r) (services r) \<and> chans_ok r"
  by (auto simp: reg_inv_def services_ok_def chans_ok_def reg_Count_def)

lemma reg_notify_ok:
  assumes "chans_ok r"
  shows "\<not> fst (reg_notify e r)" "chans_ok (snd (reg_notify e r))"
    "services (snd (reg_notify e r)) = services r" "reg_config (snd (reg_notify e r)) = reg_config r"
    "subscribers (snd (reg_notify e r)) = subscribers r"
  using assms by (auto simp: reg_notify_def chans_ok_def)

lemma chans_ok_services [simp]: "chans_ok (r\<lparr>services := m\<rparr>) = chans_ok r"
  by (simp add: chans_ok_def)

lemma generateID_nonempty: "length rnd = 4 \<Longrightarrow> generateID rnd \<noteq> []"
  by (cases rnd) (auto simp: generateID_def hex_EncodeToString_def)

lemma services_ok_remove: "services_ok cfg m \<Longrightarrow> services_ok cfg (m(sid := None))"
proof -
  assume ok: "services_ok cfg m"
  have "card (dom m - {sid}) \<le> card (dom m)" using ok by (intro card_mono) (auto simp: services_ok_def)
  with ok show ?thesis by (auto simp: services_ok_def split: if_splits)
qed

lemma services_ok_insert:
  assumes ok: "services_ok cfg m" and svc: "sv_ID svc = sid" "sid \<noteq> []" "1 \<le> sv_Weight svc"
    and room: "0 < MaxServices cfg \<Longrightarrow> int (card (dom m)) < MaxServices cfg \<or> m sid \<noteq> None"
  shows "services_ok cfg (m(sid \<mapsto> svc))"
proof -
  have "card (insert sid (dom m)) = (if m sid = None then Suc (card (dom m)) else card (dom m))"
    using ok by (auto simp: services_ok_def card_insert_if)
  with assms show ?thesis by (auto simp: services_ok_def split: if_splits)
qed

text \<open>The outcome of a registration, in one equation per branch.\<close>

definition reg_entry :: "go_time \<Rightarrow> nat list \<Rightarrow> Service \<Rightarrow> Registry \<Rightarrow> Service" where
  "reg_entry now rnd svc r =
    (let sid = (if sv_ID svc = [] then generateID rnd else sv_ID svc)
     in svc\<lparr>sv_ID := sid, sv_Weight := (if sv_Weight svc \<le> 0 then 1 else sv_Weight svc),
            sv_RegisteredAt := (case services r sid of Some e \<Rightarrow> sv_RegisteredAt e | None \<Rightarrow> now),
            sv_LastHeartbeat := now\<rparr>)"

definition reg_full :: "Registry \<Rightarrow> string \<Rightarrow> bool" where
  "reg_full r sid \<longleftrightarrow> 0 < MaxServices (reg_config r) \<and> MaxServices (reg_config r) \<le> int (reg_Count r) \<and> services r sid = None"

lemma reg_Register_full:
  "reg_full r (sv_ID (reg_entry now rnd svc r)) \<Longrightarrow>
    reg_Register now rnd svc r = ((False, Inl (RegistryFull (MaxServices (reg_config r)))), r)"
  by (auto simp: reg_Register_def reg_full_def reg_entry_def reg_Count_def Let_def)

lemma reg_Register_ok:
  assumes "\<not> reg_full r (sv_ID (reg_entry now rnd svc r))"
  defines "svc' \<equiv> reg_entry now rnd svc r"
  shows "reg_Register now rnd svc r =
    (let (p, r2) = reg_notify \<lparr>ev_Type = (if services r (sv_ID svc') = None then EventServiceRegistered else EventServiceUpdated),
           ev_Service = svc', ev_Timestamp = now\<rparr> (r\<lparr>services := (services r)(sv_ID svc' \<mapsto> svc')\<rparr>)
     in ((p, Inr (sv_ID svc')), r2))"
proof -
  let ?sid = "if sv_ID svc = [] then generateID rnd else sv_ID svc"
  have room: "\<not> (MaxServices (reg_config r) > 0 \<and> int (card (dom (services r))) \<ge> MaxServices (reg_config r) \<and> services r ?sid = None)"
    using assms by (auto simp: reg_full_def reg_entry_def reg_Count_def Let_def)
  show ?thesis
    using room unfolding svc'_def
    by (cases "sv_ID svc = []"; cases "sv_Weight svc \<le> 0"; cases "services r ?sid")
      (auto simp: reg_Register_def reg_entry_def Let_def)
qed

lemma reg_entry_sel [simp]:
  "1 \<le> sv_Weight (reg_entry now rnd svc r)" "sv_LastHeartbeat (reg_entry now rnd svc r) = now"
  "sv_Address (reg_entry now rnd svc r) = sv_Address svc"
  "sv_ID svc \<noteq> [] \<Longrightarrow> sv_ID (reg_entry now rnd svc r) = sv_ID svc"
  "length rnd = 4 \<Longrightarrow> sv_ID (reg_entry now rnd svc r) \<noteq> []"
  by (simp_all add: reg_entry_def Let_def generateID_nonempty)

lemma reg_Register_inv:
  assumes inv: "reg_inv r" and "length rnd = 4"
  shows "reg_inv (snd (reg_Register now rnd svc r)) \<and> \<not> fst (fst (reg_Register now rnd svc r))"
proof (cases "reg_full r (sv_ID (reg_entry now rnd svc r))")
  case True
  then show ?thesis using inv by (simp add: reg_Register_full)
next
  case False
  let ?svc = "reg_entry now rnd svc r"
  let ?r1 = "r\<lparr>services := (services r)(sv_ID ?svc \<mapsto> ?svc)\<rparr>"
  have "services_ok (reg_config r) ((services r)(sv_ID ?svc \<mapsto> ?svc))"
    using inv False assms(2)
    by (intro services_ok_insert) (auto simp: reg_inv_split reg_full_def reg_Count_def)
  moreover have "chans_ok ?r1" using inv by (simp add: reg_inv_split)
  ultimately show ?thesis unfolding reg_Register_ok [OF False] case_prod_unfold Let_def
    by (simp add: reg_inv_split reg_notify_ok)
qed

text \<open>A registration that succeeds, seen through the map.\<close>

lemma reg_Register_Inr:
  assumes "reg_inv r" and "reg_Register now rnd svc r = ((p, Inr sid), r')"
  shows "sid = sv_ID (reg_entry now rnd svc r)" "services r' = (services r)(sid \<mapsto> reg_entry now rnd svc r)"
proof -
  have f: "\<not> reg_full r (sv_ID (reg_entry now rnd svc r))" using assms(2) by (auto simp: reg_Register_full)
  have "chans_ok (r\<lparr>services := (services r)(sv_ID (reg_entry now rnd svc r) \<mapsto> reg_entry now rnd svc r)\<rparr>)"
    using assms(1) by (simp add: reg_inv_split)
  note n = reg_notify_ok [OF this]
  show sid: "sid = sv_ID (reg_entry now rnd svc r)"
    using assms(2) unfolding reg_Register_ok [OF f] case_prod_unfold Let_def by auto
  show "services r' = (services r)(sid \<mapsto> reg_entry now rnd svc r)"
    using assms(2) unfolding reg_Register_ok [OF f] case_prod_unfold Let_def by (auto simp: n)
qed

lemma reg_Deregister_inv:
  "reg_inv r \<Longrightarrow> reg_inv (snd (reg_Deregister now sid r)) \<and> \<not> fst (fst (reg_Deregister now sid r))"
  by (cases "services r sid")
    (simp_all add: reg_Deregister_def case_prod_unfold Let_def reg_inv_split reg_notify_ok services_ok_remove)

lemma reg_Heartbeat_inv: "reg_inv r \<Longrightarrow> reg_inv (snd (reg_Heartbeat now sid r))"
  by (auto simp: reg_Heartbeat_def reg_inv_split services_ok_def insert_absorb domI split: option.splits if_splits)

lemma cleanup_collect_inv:
  "reg_inv r \<Longrightarrow> reg_inv (snd (cleanup_collect clock sids r))"
  by (induction clock sids r rule: cleanup_collect.induct)
    (auto simp: reg_inv_split services_ok_remove case_prod_unfold Let_def split: option.splits)

lemma notify_expired_ok:
  "chans_ok r \<Longrightarrow> \<not> fst (notify_expired now svcs r) \<and> chans_ok (snd (notify_expired now svcs r)) \<and>
    services (snd (notify_expired now svcs r)) = services r \<and> reg_config (snd (notify_expired now svcs r)) = reg_config r"
  by (induction svcs arbitrary: r) (simp_all add: case_prod_unfold Let_def reg_notify_ok)

lemma cleanupExpired_inv:
  "reg_inv r \<Longrightarrow> reg_inv (snd (cleanupExpired now clock order r)) \<and> \<not> fst (cleanupExpired now clock order r)"
  using cleanup_collect_inv [of r clock order] notify_expired_ok [of "snd (cleanup_collect clock order r)"]
  by (auto simp: cleanupExpired_def case_prod_unfold Let_def reg_inv_split)

lemma reg_Subscribe_inv: "reg_inv r \<Longrightarrow> reg_inv (snd (reg_Subscribe r))"
  by (auto simp: reg_Subscribe_def reg_inv_split chans_ok_def Let_def less_Suc_eq)

lemma reg_Unsubscribe_inv: "reg_inv r \<Longrightarrow> reg_inv (snd (reg_Unsubscribe ch r))"
  by (auto simp: reg_Unsubscribe_def chan_close_def reg_inv_split chans_ok_def)

lemma reg_Stop_inv: "reg_inv r \<Longrightarrow> reg_inv (snd (reg_Stop r)) \<and> \<not> fst (reg_Stop r)"
  by (auto simp: reg_Stop_def reg_inv_split chans_ok_def Let_def)

lemma chan_recv_inv: "reg_inv r \<Longrightarrow> reg_inv (snd (chan_recv ch r))"
proof -
  assume inv: "reg_inv r"
  have "length (ch_buf (reg_chans r ch)) \<le> chan_cap" using inv by (simp add: reg_inv_def)
  with inv show ?thesis
    by (cases "ch_buf (reg_chans r ch)") (auto simp: chan_recv_def reg_inv_split chans_ok_def)
qed

lemma reg_step_inv:
  assumes "reg_inv r" and "reg_legal r e"
  shows "reg_inv (reg_step r e)"
  using assms by (cases e) (simp_all add: reg_Register_inv reg_Deregister_inv reg_Heartbeat_inv cleanupExpired_inv
      reg_Subscribe_inv reg_Unsubscribe_inv reg_Stop_inv chan_recv_inv)

interpretation reg: op_system reg_step reg_inv reg_legal
  by unfold_locales (rule reg_step_inv)

lemma reg_New_inv: "reg_inv (reg_New cfg)"
  by (simp add: reg_inv_def reg_New_def reg_Count_def)


section \<open>What the registry promises\<close>

text \<open>C29: in every sequence of registrations, removals, heartbeats, clean-ups, subscriptions,
  receives and a stop, whatever their order: every entry is stored under its own non-empty
  ID with a weight of at least one, the configured limit on their number holds, every
  subscribed channel is open and no channel holds more than sixteen events; and no operation
  other than \<^verbatim>\<open>Unsubscribe\<close> can panic.\<close>

theorem reg_run_invariant:
  assumes "legal_run reg_step reg_legal (reg_New cfg) es" and "r = foldl reg_step (reg_New cfg) es"
  shows "(\<forall>sid svc. services r sid = Some svc \<longrightarrow> sv_ID svc = sid \<and> sid \<noteq> [] \<and> 1 \<le> sv_Weight svc) \<and>
    (0 < MaxServices (reg_config r) \<longrightarrow> int (reg_Count r) \<le> MaxServices (reg_config r)) \<and>
    (\<forall>ch \<in> subscribers r. \<not> ch_closed (reg_chans r ch)) \<and>
    (\<forall>ch. length (ch_buf (reg_chans r ch)) \<le> 16) \<and>
    (\<forall>e. reg_legal r e \<longrightarrow> (\<forall>ch. e \<noteq> OpUnsubscribe ch) \<longrightarrow> \<not> reg_panics r e)"
proof -
  have inv: "reg_inv r" using reg.run_inv [OF reg_New_inv assms(1)] assms(2) by simp
  have "\<not> reg_panics r e" if "reg_legal r e" "\<forall>ch. e \<noteq> OpUnsubscribe ch" for e
    using that inv by (cases e) (simp_all add: reg_Register_inv reg_Deregister_inv cleanupExpired_inv reg_Stop_inv)
  with inv show ?thesis unfolding reg_inv_def chan_cap_def by blast
qed

definition sample_service :: Service where
  "sample_service = \<lparr>sv_ID = ''a1'', sv_Name = ''api'', sv_Address = ''10.0.0.5:80'', sv_Tags = [], sv_Metadata = Map.empty,
     sv_Weight = 0, sv_TTL = 0, sv_RegisteredAt = 0, sv_LastHeartbeat = 0\<rparr>"

theorem reg_run_invariant_witness:
  "\<not> reg_panics (foldl reg_step (reg_New reg_DefaultConfig) [OpSubscribe, OpRegister 5 [0, 2, 3, 4] sample_service]) OpStop"
  using reg_run_invariant [of reg_DefaultConfig "[OpSubscribe, OpRegister 5 [0, 2, 3, 4] sample_service]", OF _ refl]
  by (auto dest!: spec [of _ OpStop])

text \<open>At shutdown the goroutine that watches the registry crashes the process: \<^verbatim>\<open>Stop\<close>
  closes the channel of every subscriber, which ends the range loop of
  \<^verbatim>\<open>watchRegistryChanges\<close>, whose deferred \<^verbatim>\<open>Unsubscribe\<close> then closes the same channel
  again and panics.\<close>

theorem Stop_then_Unsubscribe_panics:
  assumes "reg_inv r" and "ch \<in> subscribers r"
  shows "fst (reg_Unsubscribe ch (snd (reg_Stop r)))"
  using assms by (auto simp: reg_Unsubscribe_def chan_close_def reg_Stop_def Let_def reg_inv_def)

theorem Stop_then_Unsubscribe_panics_witness:
  "fst (reg_Unsubscribe 0 (snd (reg_Stop (snd (reg_Subscribe (reg_New reg_DefaultConfig))))))"
  by (rule Stop_then_Unsubscribe_panics)
    (rule reg_Subscribe_inv, rule reg_New_inv, simp add: reg_Subscribe_def reg_New_def Let_def)

subsection \<open>Registrations\<close>

text \<open>\<^verbatim>\<open>Register\<close> in full: it refuses a new ID exactly when the registry is full, and then
  changes nothing; otherwise it stores the service under the ID it returns, with the weight
  defaulted, the heartbeat set to now and the original registration time kept on an update,
  and touches no other entry.\<close>

theorem Register_Get:
  assumes "reg_inv r" and "length rnd = 4" and "reg_Register now rnd svc r = ((p, res), r')"
  shows "case res of
      Inl e \<Rightarrow> r' = r \<and> e = RegistryFull (MaxServices (reg_config r)) \<and> int (reg_Count r) = MaxServices (reg_config r)
    | Inr sid \<Rightarrow> (\<forall>sid'. reg_Get r' sid' = (if sid' = sid then Some (reg_entry now rnd svc r) else reg_Get r sid')) \<and>
        sid = sv_ID (reg_entry now rnd svc r) \<and> (sv_ID svc \<noteq> [] \<longrightarrow> sid = sv_ID svc)"
proof (cases "reg_full r (sv_ID (reg_entry now rnd svc r))")
  case True
  with assms have "res = Inl (RegistryFull (MaxServices (reg_config r)))" "r' = r" by (auto simp: reg_Register_full)
  with True assms(1) show ?thesis by (simp add: reg_full_def reg_inv_def)
next
  case False
  then obtain sid where "res = Inr sid"
    using assms(3) unfolding reg_Register_ok [OF False] case_prod_unfold Let_def by auto
  moreover from this reg_Register_Inr [OF assms(1)] assms(3)
  have "sid = sv_ID (reg_entry now rnd svc r)" "services r' = (services r)(sid \<mapsto> reg_entry now rnd svc r)" by simp_all
  ultimately show ?thesis by (auto simp: reg_Get_def)
qed

theorem Register_Get_witness:
  "reg_Get (snd (reg_Register 5 [0, 2, 3, 4] sample_service (reg_New reg_DefaultConfig))) ''a1'' =
    Some (sample_service\<lparr>sv_Weight := 1, sv_RegisteredAt := 5, sv_LastHeartbeat := 5\<rparr>)"
proof -
  let ?x = "reg_Register 5 [0, 2, 3, 4] sample_service (reg_New reg_DefaultConfig)"
  have "\<not> reg_full (reg_New reg_DefaultConfig) sid" for sid by (simp add: reg_full_def reg_New_def reg_DefaultConfig_def)
  then have res: "snd (fst ?x) = Inr ''a1''"
    by (simp add: reg_Register_ok case_prod_unfold Let_def) (simp add: sample_service_def)
  have x: "?x = ((fst (fst ?x), Inr ''a1''), snd ?x)" by (simp add: prod_eq_iff res)
  show ?thesis using Register_Get [OF reg_New_inv _ x]
    by (simp add: reg_entry_def sample_service_def reg_New_def)
qed

subsection \<open>Expiry\<close>

text \<open>Offering a list of events fills the buffer up to its capacity.\<close>

lemma take_refill: "take n (take n xs @ zs) = take n (xs @ zs)"
  by (cases "n \<le> length xs") simp_all

lemma notify_expired_buf:
  assumes "chans_ok r" and "ch \<in> subscribers r"
  shows "ch_buf (reg_chans (snd (notify_expired now svcs r)) ch) =
    take chan_cap (ch_buf (reg_chans r ch) @
      map (\<lambda>svc. \<lparr>ev_Type = EventServiceExpired, ev_Service = svc, ev_Timestamp = now\<rparr>) svcs)"
  using assms
proof (induction svcs arbitrary: r)
  case Nil
  then show ?case by (simp add: chans_ok_def)
next
  case (Cons svc svcs)
  let ?e = "\<lparr>ev_Type = EventServiceExpired, ev_Service = svc, ev_Timestamp = now\<rparr>"
  let ?r = "snd (reg_notify ?e r)"
  have buf: "ch_buf (reg_chans ?r ch) = take chan_cap (ch_buf (reg_chans r ch) @ [?e])"
    using Cons.prems reg_notify_ok(1) [OF Cons.prems(1), of ?e]
    by (auto simp: reg_notify_def chan_offer_def chans_ok_def dest!: spec [of _ ch])
  have "ch_buf (reg_chans (snd (notify_expired now svcs ?r)) ch) =
      take chan_cap (ch_buf (reg_chans ?r ch) @ map (\<lambda>svc. \<lparr>ev_Type = EventServiceExpired, ev_Service = svc, ev_Timestamp = now\<rparr>) svcs)"
    using Cons.prems by (intro Cons.IH) (simp_all add: reg_notify_ok)
  then have "ch_buf (reg_chans (snd (notify_expired now (svc # svcs) r)) ch) = take chan_cap (take chan_cap (ch_buf (reg_chans r ch) @ [?e]) @
      map (\<lambda>svc. \<lparr>ev_Type = EventServiceExpired, ev_Service = svc, ev_Timestamp = now\<rparr>) svcs)"
    using reg_notify_ok(1) [OF Cons.prems(1), of ?e] unfolding buf by (simp add: case_prod_unfold Let_def)
  then show ?case unfolding take_refill by simp
qed

definition sid_expired :: "(string \<Rightarrow> go_time) \<Rightarrow> Registry \<Rightarrow> string \<Rightarrow> bool" where
  "sid_expired clock r sid =
    (case services r sid of Some svc \<Rightarrow> IsExpired (clock sid) (DefaultTTL (reg_config r)) svc | None \<Rightarrow> False)"

lemma sid_expired_other:
  "sid' \<noteq> sid \<Longrightarrow> sid_expired clock (r\<lparr>services := (services r)(sid := x)\<rparr>) sid' = sid_expired clock r sid'"
  by (auto simp: sid_expired_def split: option.splits)

lemma cleanup_collect_Cons:
  "cleanup_collect clock (sid # sids) r =
    (if sid_expired clock r sid
     then (let (expired, r') = cleanup_collect clock sids (r\<lparr>services := (services r)(sid := None)\<rparr>)
           in (the (services r sid) # expired, r'))
     else cleanup_collect clock sids r)"
  by (simp add: sid_expired_def split: option.splits)

declare cleanup_collect.simps(2) [simp del]

lemma cleanup_collect_exact:
  "distinct order \<Longrightarrow> cleanup_collect clock order r =
    (map (the \<circ> services r) (filter (sid_expired clock r) order),
     r\<lparr>services := (\<lambda>sid. if sid \<in> set order \<and> sid_expired clock r sid then None else services r sid)\<rparr>)"
proof (induction order arbitrary: r)
  case (Cons sid sids)
  show ?case
  proof (cases "sid_expired clock r sid")
    case False
    with Cons show ?thesis by (simp add: cleanup_collect_Cons fun_eq_iff)
  next
    case True
    let ?r = "r\<lparr>services := (services r)(sid := None)\<rparr>"
    have same: "sid_expired clock ?r x = sid_expired clock r x" "services ?r x = services r x" if "x \<in> set sids" for x
      using that Cons.prems sid_expired_other [of x sid clock r None] by auto
    have "map (the \<circ> services ?r) (filter (sid_expired clock ?r) sids) = map (the \<circ> services r) (filter (sid_expired clock r) sids)"
      using same by (auto intro!: map_cong filter_cong)
    moreover have "(\<lambda>i. if i \<in> set sids \<and> sid_expired clock ?r i then None else services ?r i) =
        (\<lambda>i. if i \<in> set (sid # sids) \<and> sid_expired clock r i then None else services r i)"
      using same True Cons.prems by (auto simp: fun_eq_iff)
    moreover have "cleanup_collect clock sids ?r = (map (the \<circ> services ?r) (filter (sid_expired clock ?r) sids),
        ?r\<lparr>services := (\<lambda>i. if i \<in> set sids \<and> sid_expired clock ?r i then None else services ?r i)\<rparr>)"
      using Cons.prems by (intro Cons.IH) simp
    ultimately have "cleanup_collect clock sids ?r = (map (the \<circ> services r) (filter (sid_expired clock r) sids),
        ?r\<lparr>services := (\<lambda>i. if i \<in> set (sid # sids) \<and> sid_expired clock r i then None else services r i)\<rparr>)"
      by (simp only:)
    then show ?thesis using True by (simp add: cleanup_collect_Cons)
  qed
qed simp

lemma cleanupExpired_services:
  assumes "reg_inv r" and "iteration_order order r"
  shows "services (snd (cleanupExpired now clock order r)) sid =
    (case services r sid of
       None \<Rightarrow> None
     | Some svc \<Rightarrow> if IsExpired (clock sid) (DefaultTTL (reg_config r)) svc then None else Some svc)"
proof -
  let ?c = "cleanup_collect clock order r"
  have ord: "distinct order" "set order = dom (services r)" using assms(2) by (simp_all add: iteration_order_def)
  have "chans_ok (snd ?c)" using cleanup_collect_inv [OF assms(1)] by (simp add: reg_inv_split)
  from notify_expired_ok [OF this] have "services (snd (cleanupExpired now clock order r)) = services (snd ?c)"
    by (simp add: cleanupExpired_def case_prod_unfold Let_def)
  then show ?thesis using ord by (auto simp: cleanup_collect_exact [OF ord(1)] sid_expired_def split: option.splits)
qed

text \<open>C37: a clean-up removes exactly the services whose time to live has run out since their last
  heartbeat, whatever the order in which the map is visited, and appends one expiry event for
  each of them to the buffer of every subscriber, as far as there is room.\<close>

theorem cleanupExpired_exact:
  assumes "reg_inv r" and "iteration_order order r"
  shows "reg_Get (snd (cleanupExpired now clock order r)) sid =
      (case reg_Get r sid of
         None \<Rightarrow> None
       | Some svc \<Rightarrow> if IsExpired (clock sid) (DefaultTTL (reg_config r)) svc then None else Some svc) \<and>
    (ch \<in> subscribers r \<longrightarrow>
      ch_buf (reg_chans (snd (cleanupExpired now clock order r)) ch) = take 16 (ch_buf (reg_chans r ch) @
        map (\<lambda>sid. \<lparr>ev_Type = EventServiceExpired, ev_Service = the (services r sid), ev_Timestamp = now\<rparr>)
          (filter (\<lambda>sid. IsExpired (clock sid) (DefaultTTL (reg_config r)) (the (services r sid))) order)))"
proof -
  let ?c = "cleanup_collect clock order r"
  have ord: "distinct order" "set order = dom (services r)" using assms(2) by (simp_all add: iteration_order_def)
  note exact = cleanup_collect_exact [OF ord(1), of clock r]
  have chans: "chans_ok (snd ?c)" using cleanup_collect_inv [OF assms(1)] by (simp add: reg_inv_split)
  have run: "cleanupExpired now clock order r = notify_expired now (fst ?c) (snd ?c)"
    by (simp add: cleanupExpired_def case_prod_unfold Let_def)
  have "reg_Get (snd (cleanupExpired now clock order r)) sid =
      (case reg_Get r sid of None \<Rightarrow> None
       | Some svc \<Rightarrow> if IsExpired (clock sid) (DefaultTTL (reg_config r)) svc then None else Some svc)"
    using cleanupExpired_services [OF assms] by (simp add: reg_Get_def)
  moreover have "filter (sid_expired clock r) order =
      filter (\<lambda>sid. IsExpired (clock sid) (DefaultTTL (reg_config r)) (the (services r sid))) order"
    using ord by (auto simp: sid_expired_def intro!: filter_cong)
  moreover have "ch \<in> subscribers r \<Longrightarrow> ch \<in> subscribers (snd ?c)" by (simp add: exact)
  ultimately show ?thesis
    using notify_expired_buf [OF chans, of ch now "fst ?c"] by (simp add: run exact chan_cap_def comp_def)
qed

definition sample_registry :: Registry where
  "sample_registry = snd (reg_Register 5 [0, 2, 3, 4] sample_service (reg_New reg_DefaultConfig))"

lemma sample_registry_sel:
  "reg_inv sample_registry" "reg_config sample_registry = reg_DefaultConfig"
  "services sample_registry = [''a1'' \<mapsto> sample_service\<lparr>sv_Weight := 1, sv_RegisteredAt := 5, sv_LastHeartbeat := 5\<rparr>]"
proof -
  show "reg_inv sample_registry"
    using reg_Register_inv [OF reg_New_inv, of "[0, 2, 3, 4]"] by (simp add: sample_registry_def)
  have "\<not> reg_full (reg_New reg_DefaultConfig) sid" for sid by (simp add: reg_full_def reg_New_def reg_DefaultConfig_def)
  then show "services sample_registry = [''a1'' \<mapsto> sample_service\<lparr>sv_Weight := 1, sv_RegisteredAt := 5, sv_LastHeartbeat := 5\<rparr>]"
      "reg_config sample_registry = reg_DefaultConfig"
    by (simp_all add: sample_registry_def reg_Register_ok case_prod_unfold Let_def reg_notify_def)
      (simp_all add: reg_New_def reg_entry_def sample_service_def)
qed

theorem cleanupExpired_exact_witness:
  "reg_Get (snd (cleanupExpired (60 * Second) (\<lambda>_. 60 * Second) [''a1''] sample_registry)) ''a1'' = None"
proof -
  have "iteration_order [''a1''] sample_registry" by (simp add: iteration_order_def sample_registry_sel)
  from cleanupExpired_exact [OF sample_registry_sel(1) this, of "60 * Second" "\<lambda>_. 60 * Second" "''a1''" 0]
  show ?thesis by (simp add: reg_Get_def sample_registry_sel IsExpired_def sample_service_def reg_DefaultConfig_def
      time_Sub_def Second_def max_int64_def min_int64_def)
qed

subsection \<open>Watching the registry\<close>

text \<open>
  The goroutine of \<^verbatim>\<open>watchRegistryChanges\<close>: it receives an event, lists the registry, and
  installs what it read as the view of the load balancer. What the view depends on is the
  address and the weight of each service.
\<close>

definition reg_view :: "Registry \<Rightarrow> (string \<rightharpoonup> string \<times> int)" where
  "reg_view r sid = map_option (\<lambda>svc. (sv_Address svc, sv_Weight svc)) (services r sid)"

lemma reg_view_chans [simp]: "reg_view (r\<lparr>reg_chans := x\<rparr>) = reg_view r"
  by (simp add: reg_view_def fun_eq_iff)

datatype watcher = Waiting | Handling | Listed "string \<rightharpoonup> string \<times> int"

fun changes_services :: "reg_op \<Rightarrow> bool" where
  "changes_services (OpRegister now rnd svc) = True"
| "changes_services (OpDeregister now sid) = True"
| "changes_services (OpHeartbeat now sid) = True"
| "changes_services (OpCleanup now clock order) = True"
| "changes_services OpSubscribe = True"
| "changes_services _ = False"

text \<open>The third component is what the watcher has installed last, \<open>None\<close> before the first time.\<close>

inductive watch_step :: "chan_ref \<Rightarrow> Registry \<times> watcher \<times> (string \<rightharpoonup> string \<times> int) option \<Rightarrow>
    Registry \<times> watcher \<times> (string \<rightharpoonup> string \<times> int) option \<Rightarrow> bool" for ch where
  change: "changes_services e \<Longrightarrow> reg_legal r e \<Longrightarrow> watch_step ch (r, w, v) (reg_step r e, w, v)"
| other_recv: "ch' \<noteq> ch \<Longrightarrow> watch_step ch (r, w, v) (snd (chan_recv ch' r), w, v)"
| recv: "chan_recv ch r = (Some e, r') \<Longrightarrow> watch_step ch (r, Waiting, v) (r', Handling, v)"
| listed: "watch_step ch (r, Handling, v) (r, Listed (reg_view r), v)"
| apply_view: "watch_step ch (r, Listed l, v) (r, Waiting, Some l)"

text \<open>The watcher is in step with the registry, or has not been told of anything since it subscribed to a registry with the view \<open>u\<close>.\<close>

fun watch_ok :: "chan_ref \<Rightarrow> (string \<rightharpoonup> string \<times> int) \<Rightarrow> Registry \<times> watcher \<times> (string \<rightharpoonup> string \<times> int) option \<Rightarrow> bool" where
  "watch_ok ch u (r, w, v) \<longleftrightarrow> reg_inv r \<and> ch \<in> subscribers r \<and>
     (ch_buf (reg_chans r ch) = [] \<longrightarrow>
       (case w of Waiting \<Rightarrow> v = Some (reg_view r) \<or> v = None \<and> reg_view r = u | Handling \<Rightarrow> True | Listed l \<Rightarrow> l = reg_view r))"

text \<open>A change that is visible in the view leaves an event in the buffer.\<close>

lemma notify_buf: "chans_ok r \<Longrightarrow> ch \<in> subscribers r \<Longrightarrow> ch_buf (reg_chans (snd (reg_notify e r)) ch) \<noteq> []"
  by (auto simp: reg_notify_def chans_ok_def chan_offer_def chan_cap_def)

lemma change_leaves_event:
  assumes inv: "reg_inv r" and ch: "ch \<in> subscribers r" and e: "changes_services e" "reg_legal r e"
  shows "ch \<in> subscribers (reg_step r e) \<and>
    (ch_buf (reg_chans (reg_step r e) ch) \<noteq> [] \<or>
     reg_view (reg_step r e) = reg_view r \<and> ch_buf (reg_chans (reg_step r e) ch) = ch_buf (reg_chans r ch))"
proof (cases e)
  case (OpRegister now rnd svc)
  show ?thesis
  proof (cases "reg_full r (sv_ID (reg_entry now rnd svc r))")
    case True
    then show ?thesis using ch by (simp add: OpRegister reg_Register_full)
  next
    case False
    then show ?thesis using inv ch
      by (simp add: OpRegister reg_Register_ok case_prod_unfold Let_def reg_notify_ok notify_buf reg_inv_split)
  qed
next
  case (OpDeregister now sid)
  then show ?thesis using inv ch
    by (cases "services r sid")
      (simp_all add: reg_Deregister_def case_prod_unfold Let_def reg_notify_ok notify_buf reg_inv_split)
next
  case (OpHeartbeat now sid)
  then show ?thesis using ch
    by (auto simp: reg_Heartbeat_def reg_view_def fun_eq_iff split: option.splits)
next
  case (OpCleanup now clock order)
  have chans: "chans_ok (snd (cleanup_collect clock order r))" and d: "distinct order"
    using cleanup_collect_inv [OF inv] e OpCleanup by (simp_all add: reg_inv_split iteration_order_def)
  note exact = cleanup_collect_exact [OF d, of clock r]
  have step: "reg_step r e = snd (notify_expired now (fst (cleanup_collect clock order r)) (snd (cleanup_collect clock order r)))"
    by (simp add: OpCleanup cleanupExpired_def case_prod_unfold Let_def)
  have sub: "ch \<in> subscribers (snd (cleanup_collect clock order r))" using ch by (simp add: exact)
  have "subscribers (snd (notify_expired now svcs r')) = subscribers r'" if "chans_ok r'" for svcs r'
    using that by (induction svcs arbitrary: r') (simp_all add: case_prod_unfold Let_def reg_notify_ok)
  then have "ch \<in> subscribers (reg_step r e)" using chans sub by (simp add: step)
  moreover have "reg_view (reg_step r e) = reg_view r \<and> ch_buf (reg_chans (reg_step r e) ch) = ch_buf (reg_chans r ch)"
    if "filter (sid_expired clock r) order = []"
    using that by (auto simp: step exact reg_view_def filter_empty_conv fun_eq_iff)
  moreover have "ch_buf (reg_chans (reg_step r e) ch) \<noteq> []" if "filter (sid_expired clock r) order \<noteq> []"
    using that notify_expired_buf [OF chans sub, of now "fst (cleanup_collect clock order r)"]
    by (simp add: step exact chan_cap_def)
  ultimately show ?thesis by blast
next
  case OpSubscribe
  then show ?thesis using inv ch by (auto simp: reg_Subscribe_def Let_def reg_view_def reg_inv_def)
qed (use e in simp_all)

lemma watch_step_ok: "watch_step ch s s' \<Longrightarrow> watch_ok ch u s \<Longrightarrow> watch_ok ch u s'"
proof (induction rule: watch_step.induct)
  case (change e r w v)
  then show ?case using change_leaves_event [of r ch e] reg_step_inv [of r e]
    by (cases w) (auto dest: sym)
next
  case (other_recv ch' r w v)
  then show ?case using chan_recv_inv [of r ch']
    by (cases w; cases "ch_buf (reg_chans r ch')") (simp_all add: chan_recv_def)
next
  case (recv r e r' v)
  then show ?case using chan_recv_inv [of r ch] by (auto simp: chan_recv_def split: list.splits)
qed auto

interpretation watch_sys: step_system "watch_step ch" "watch_ok ch u" for ch u
  by unfold_locales (rule watch_step_ok)

text \<open>C10: no update is lost: although the channel holds sixteen events and drops the rest, and whatever was registered
  before the watcher subscribed, whenever it waits with an empty channel, under every interleaving of registry operations with its
  receives, listings and installations, the addresses and weights that it has installed last are those registered now, or it has
  installed nothing yet and the addresses and weights registered are those at the time it subscribed. What a reload of the
  configuration installs in between is not seen here.\<close>

theorem watcher_in_step:
  assumes "reg_inv r0" and "(ch, r) = reg_Subscribe r0" and "(watch_step ch)\<^sup>*\<^sup>* (r, Waiting, None) (r', Waiting, installed)"
    and "ch_buf (reg_chans r' ch) = []"
  shows "installed = Some (reg_view r') \<or> installed = None \<and> reg_view r' = reg_view r0"
proof -
  have "watch_ok ch (reg_view r0) (r, Waiting, None)"
    using reg_Subscribe_inv [OF assms(1)] assms(2) by (auto simp: reg_Subscribe_def Let_def reg_view_def)
  with assms(3) have "watch_ok ch (reg_view r0) (r', Waiting, installed)" by (rule watch_sys.reach_keeps)
  with assms(4) show ?thesis by simp
qed

text \<open>The second case is real: \<^verbatim>\<open>main\<close> starts the server of the registry before its watcher subscribes, and the watcher does not list the
  registry when it starts. A service that registers in between, and then only sends its heartbeats, is not installed until something else changes:
  no event ever reaches the watcher.\<close>

theorem early_registration_missed:
  assumes "(ch, r) = reg_Subscribe r0" and "list_all (\<lambda>e. \<exists>now sid. e = OpHeartbeat now sid) beats"
  shows "ch_buf (reg_chans (foldl reg_step r beats) ch) = []"
proof -
  have quiet: "reg_chans (foldl reg_step r beats) = reg_chans r" for r
    using assms(2) by (induction beats arbitrary: r) (auto simp: reg_Heartbeat_def split: option.splits)
  show ?thesis using assms(1) by (simp add: quiet reg_Subscribe_def Let_def)
qed

definition sample_watched :: Registry where
  "sample_watched = reg_step (snd (reg_Subscribe (reg_New reg_DefaultConfig))) (OpRegister 5 [0, 2, 3, 4] sample_service)"

definition sample_received :: Registry where
  "sample_received = snd (chan_recv 0 sample_watched)"

lemma sample_watched_sel:
  "ch_buf (reg_chans sample_watched 0) = [\<lparr>ev_Type = EventServiceRegistered,
     ev_Service = sample_service\<lparr>sv_Weight := 1, sv_RegisteredAt := 5, sv_LastHeartbeat := 5\<rparr>, ev_Timestamp = 5\<rparr>]"
proof -
  have "\<not> reg_full (snd (reg_Subscribe (reg_New reg_DefaultConfig))) sid" for sid
    by (simp add: reg_full_def reg_New_def reg_DefaultConfig_def reg_Subscribe_def Let_def)
  then show ?thesis
    by (simp add: sample_watched_def reg_Register_ok case_prod_unfold Let_def reg_notify_def reg_Subscribe_def reg_New_def
        chan_offer_def chan_cap_def reg_entry_def) (simp add: sample_service_def)
qed

theorem watcher_in_step_witness:
  "reg_view sample_received = reg_view (reg_step sample_received (OpHeartbeat 9 ''a1''))"
proof -
  let ?r0 = "reg_New reg_DefaultConfig" and ?r1 = "snd (reg_Subscribe (reg_New reg_DefaultConfig))"
  have inv: "reg_inv ?r0" by (rule reg_New_inv)
  have sub: "(0, ?r1) = reg_Subscribe ?r0" by (simp add: reg_Subscribe_def reg_New_def Let_def)
  have "watch_step 0 (?r1, Waiting, None) (sample_watched, Waiting, None)"
    unfolding sample_watched_def by (rule change) simp_all
  moreover have "chan_recv 0 sample_watched = (Some (hd (ch_buf (reg_chans sample_watched 0))), sample_received)"
    by (simp add: sample_received_def chan_recv_def sample_watched_sel)
  then have "watch_step 0 (sample_watched, Waiting, None) (sample_received, Handling, None)" by (rule recv)
  moreover have "watch_step 0 (sample_received, Handling, None) (sample_received, Listed (reg_view sample_received), None)"
    by (rule listed)
  moreover have "watch_step 0 (sample_received, Listed (reg_view sample_received), None)
      (reg_step sample_received (OpHeartbeat 9 ''a1''), Listed (reg_view sample_received), None)"
    by (rule change) simp_all
  moreover have "watch_step 0 (reg_step sample_received (OpHeartbeat 9 ''a1''), Listed (reg_view sample_received), None)
      (reg_step sample_received (OpHeartbeat 9 ''a1''), Waiting, Some (reg_view sample_received))"
    by (rule apply_view)
  ultimately have run: "(watch_step 0)\<^sup>*\<^sup>* (?r1, Waiting, None)
      (reg_step sample_received (OpHeartbeat 9 ''a1''), Waiting, Some (reg_view sample_received))"
    by (meson converse_rtranclp_into_rtranclp rtranclp.rtrancl_refl)
  have "ch_buf (reg_chans (reg_step sample_received (OpHeartbeat 9 ''a1'')) 0) = []"
    by (simp add: sample_received_def chan_recv_def sample_watched_sel reg_Heartbeat_def split: option.splits)
  from watcher_in_step [OF inv sub run this] show ?thesis by simp
qed

end
