(* ===== verification/RegistryHandler.thy ===== *)
theory RegistryHandler
  imports Registry
begin

text \<open>
  The HTTP endpoints of the registry, \<^verbatim>\<open>internal/registry/handler.go\<close>. The outcome of
  decoding the JSON body, of \<^verbatim>\<open>time.ParseDuration\<close> and of parsing the query string are
  arguments; \<^verbatim>\<open>durString\<close> is \<^verbatim>\<open>time.Duration.String\<close>. A reply is its status, its
  \<^verbatim>\<open>Content-Type\<close> and \<^verbatim>\<open>Allow\<close> headers and the value that is encoded as its body.
\<close>

record RegisterRequest =
  rq_ID :: string
  rq_Name :: string
  rq_Address :: string
  rq_Tags :: "string list"
  rq_Metadata :: "string \<rightharpoonup> string"
  rq_Weight :: int
  rq_TTL :: string

record ServiceResponse =
  sr_ID :: string
  sr_Name :: string
  sr_Address :: string
  sr_Tags :: "string list"
  sr_Metadata :: "string \<rightharpoonup> string"
  sr_Weight :: int
  sr_TTL :: string
  sr_RegisteredAt :: go_time
  sr_LastHeartbeat :: go_time

datatype reg_body =
    NoBody
  | ErrorResponse string
  | RegisterResponse string
  | OneService ServiceResponse
  | ManyServices "ServiceResponse list"

record reply =
  rp_status :: int
  rp_ContentType :: string
  rp_Allow :: string
  rp_body :: reg_body

text \<open>What the handler receives from the libraries it calls.\<close>

record reg_env =
  env_now :: go_time
  env_random :: "nat list"
  env_order :: "string list"
  env_decode :: "string + RegisterRequest"
  env_ParseDuration :: "string \<Rightarrow> string + duration"
  env_durString :: "duration \<Rightarrow> string"
  env_query_name :: string
  env_query_tag :: string

definition writeJSON :: "int \<Rightarrow> reg_body \<Rightarrow> reply" where
  "writeJSON status v = \<lparr>rp_status = status, rp_ContentType = ''application/json'', rp_Allow = [], rp_body = v\<rparr>"

definition writeError :: "int \<Rightarrow> string \<Rightarrow> reply" where
  "writeError status message = writeJSON status (ErrorResponse message)"

definition methodNotAllowed :: "string \<Rightarrow> reply" where
  "methodNotAllowed allowed = (writeError 405 ''method not allowed'')\<lparr>rp_Allow := allowed\<rparr>"

definition serviceToResponse :: "(duration \<Rightarrow> string) \<Rightarrow> Service \<Rightarrow> ServiceResponse" where
  "serviceToResponse durString svc =
    (let ttl = (if sv_TTL svc = 0 then ''default'' else durString (sv_TTL svc))
     in \<lparr>sr_ID = sv_ID svc, sr_Name = sv_Name svc, sr_Address = sv_Address svc, sr_Tags = sv_Tags svc,
         sr_Metadata = sv_Metadata svc, sr_Weight = sv_Weight svc, sr_TTL = ttl,
         sr_RegisteredAt = sv_RegisteredAt svc, sr_LastHeartbeat = sv_LastHeartbeat svc\<rparr>)"

fun reg_error_Error :: "reg_error \<Rightarrow> string" where
  "reg_error_Error (RegistryFull n) = ''registry full: max '' @ Itoa n @ '' services''"

definition handleRegister :: "reg_env \<Rightarrow> Registry \<Rightarrow> (bool \<times> reply) \<times> Registry" where
  "handleRegister env r =
    (case env_decode env of
       Inl err \<Rightarrow> ((False, writeError 400 (''invalid JSON: '' @ err)), r)
     | Inr req \<Rightarrow>
         (if rq_Name req = [] then ((False, writeError 400 ''name is required''), r)
          else if rq_Address req = [] then ((False, writeError 400 ''address is required''), r)
          else (case (if rq_TTL req \<noteq> [] then env_ParseDuration env (rq_TTL req) else Inr 0) of
                  Inl err \<Rightarrow> ((False, writeError 400 (''invalid TTL: '' @ err)), r)
                | Inr ttl \<Rightarrow>
                    (let svc = \<lparr>sv_ID = rq_ID req, sv_Name = rq_Name req, sv_Address = rq_Address req, sv_Tags = rq_Tags req,
                           sv_Metadata = rq_Metadata req, sv_Weight = rq_Weight req, sv_TTL = ttl,
                           sv_RegisteredAt = 0, sv_LastHeartbeat = 0\<rparr>
                     in case reg_Register (env_now env) (env_random env) svc r of
                          ((p, Inl err), r') \<Rightarrow> ((p, writeError 503 (reg_error_Error err)), r')
                        | ((p, Inr sid), r') \<Rightarrow> ((p, writeJSON 201 (RegisterResponse sid)), r')))))"

definition handleList :: "reg_env \<Rightarrow> Registry \<Rightarrow> reply" where
  "handleList env r =
    (let svcs = (if env_query_name env \<noteq> [] then reg_GetByName (env_order env) r (env_query_name env)
                 else if env_query_tag env \<noteq> [] then reg_GetByTag (env_order env) r (env_query_tag env)
                 else reg_List (env_order env) r)
     in writeJSON 200 (ManyServices (map (serviceToResponse (env_durString env)) svcs)))"

definition handleGet :: "reg_env \<Rightarrow> string \<Rightarrow> Registry \<Rightarrow> reply" where
  "handleGet env sid r =
    (case reg_Get r sid of
       None \<Rightarrow> writeError 404 ''service not found''
     | Some svc \<Rightarrow> writeJSON 200 (OneService (serviceToResponse (env_durString env) svc)))"

definition handleDeregister :: "reg_env \<Rightarrow> string \<Rightarrow> Registry \<Rightarrow> (bool \<times> reply) \<times> Registry" where
  "handleDeregister env sid r =
    (let ((p, found), r') = reg_Deregister (env_now env) sid r
     in ((p, if \<not> found then writeError 404 ''service not found'' else \<lparr>rp_status = 204, rp_ContentType = [], rp_Allow = [], rp_body = NoBody\<rparr>), r'))"

definition handleHeartbeat :: "reg_env \<Rightarrow> string \<Rightarrow> Registry \<Rightarrow> reply \<times> Registry" where
  "handleHeartbeat env sid r =
    (let (found, r') = reg_Heartbeat (env_now env) sid r
     in (if \<not> found then writeError 404 ''service not found'' else \<lparr>rp_status = 204, rp_ContentType = [], rp_Allow = [], rp_body = NoBody\<rparr>, r'))"

definition reg_ServeHTTP :: "reg_env \<Rightarrow> string \<Rightarrow> string \<Rightarrow> Registry \<Rightarrow> (bool \<times> reply) \<times> Registry" where
  "reg_ServeHTTP env method urlPath r =
    (let path0 = TrimPrefix urlPath ''/v1/services'';
         path = (if path0 = [] then ''/'' else path0)
     in if path = ''/'' \<or> path = [] then
          (if method = ''POST'' then handleRegister env r
           else if method = ''GET'' then ((False, handleList env r), r)
           else ((False, methodNotAllowed ''GET, POST''), r))
        else if HasSuffix path ''/heartbeat'' then
          (if method \<noteq> ''PUT'' then ((False, methodNotAllowed ''PUT''), r)
           else (let sid = TrimSuffix (TrimPrefix path ''/'') ''/heartbeat'';
                     (rep, r') = handleHeartbeat env sid r
                 in ((False, rep), r')))
        else
          (let sid = TrimPrefix path ''/''
           in if method = ''GET'' then ((False, handleGet env sid r), r)
              else if method = ''DELETE'' then handleDeregister env sid r
              else ((False, methodNotAllowed ''GET, DELETE''), r)))"

section \<open>The routes\<close>

lemma TrimPrefix_append [simp]: "TrimPrefix (p @ s) p = s"
  by (simp add: TrimPrefix_def HasPrefix_def)

lemma service_path:
  assumes "sid \<noteq> []"
  shows "TrimPrefix (''/v1/services/'' @ sid) ''/v1/services'' = ''/'' @ sid"
    and "TrimPrefix (''/'' @ sid) ''/'' = sid"
  using TrimPrefix_append [of "''/v1/services''" "''/'' @ sid"] TrimPrefix_append [of "''/''" sid] by simp_all

lemma heartbeat_path:
  assumes "sid \<noteq> []"
  shows "HasSuffix (''/'' @ sid @ ''/heartbeat'') ''/heartbeat''"
    and "TrimSuffix (TrimPrefix (''/'' @ sid @ ''/heartbeat'') ''/'') ''/heartbeat'' = sid"
proof -
  show "HasSuffix (''/'' @ sid @ ''/heartbeat'') ''/heartbeat''"
    unfolding HasSuffix_def by (metis append_assoc suffixI)
  have "TrimPrefix (''/'' @ sid @ ''/heartbeat'') ''/'' = sid @ ''/heartbeat''"
    using TrimPrefix_append [of "''/''"] by blast
  then show "TrimSuffix (TrimPrefix (''/'' @ sid @ ''/heartbeat'') ''/'') ''/heartbeat'' = sid"
    by (simp add: TrimSuffix_def HasSuffix_def suffix_def)
qed

text \<open>An ID for which the path of the service is not taken for a heartbeat path.\<close>

definition plain_id :: "string \<Rightarrow> bool" where
  "plain_id sid \<longleftrightarrow> sid \<noteq> [] \<and> \<not> HasSuffix (''/'' @ sid) ''/heartbeat''"

lemma plain_generateID:
  assumes "length rnd = 4"
  shows "plain_id (generateID rnd)"
proof -
  have "length (generateID rnd) = 8"
    using assms by (simp add: generateID_def length_concat comp_def sum_list_triv)
  then show ?thesis unfolding plain_id_def HasSuffix_def by (auto dest: suffix_length_le)
qed

lemma ServeHTTP_get:
  "plain_id sid \<Longrightarrow> reg_ServeHTTP env ''GET'' (''/v1/services/'' @ sid) r = ((False, handleGet env sid r), r)"
  using service_path [of sid] by (simp add: reg_ServeHTTP_def plain_id_def Let_def)

lemma ServeHTTP_delete:
  "plain_id sid \<Longrightarrow> reg_ServeHTTP env ''DELETE'' (''/v1/services/'' @ sid) r = handleDeregister env sid r"
  using service_path [of sid] by (simp add: reg_ServeHTTP_def plain_id_def Let_def)

lemma ServeHTTP_post: "reg_ServeHTTP env ''POST'' ''/v1/services'' r = handleRegister env r"
  by (simp add: reg_ServeHTTP_def TrimPrefix_def HasPrefix_def)

lemma ServeHTTP_heartbeat:
  assumes "sid \<noteq> []"
  shows "reg_ServeHTTP env ''PUT'' (''/v1/services/'' @ sid @ ''/heartbeat'') r =
    ((False, fst (handleHeartbeat env sid r)), snd (handleHeartbeat env sid r))"
proof -
  have "TrimPrefix (''/v1/services/'' @ sid @ ''/heartbeat'') ''/v1/services'' = ''/'' @ sid @ ''/heartbeat''"
    using service_path(1) [of "sid @ ''/heartbeat''"] by simp
  then show ?thesis using heartbeat_path [OF assms] assms
    by (simp add: reg_ServeHTTP_def case_prod_unfold Let_def)
qed

text \<open>A service registered over HTTP can be read back: a \<^verbatim>\<open>POST\<close> with a name and an
  address that the registry accepts answers 201 with an ID, and a \<^verbatim>\<open>GET\<close> of that ID then
  answers 200 with the same name, address, tags and metadata, and a weight of at least one.\<close>

theorem post_then_get:
  assumes "reg_inv r" and "length (env_random env) = 4" and "env_decode env = Inr req"
    and "reg_ServeHTTP env ''POST'' ''/v1/services'' r = ((p, \<lparr>rp_status = 201, rp_ContentType = t, rp_Allow = a, rp_body = b\<rparr>), r')"
    and "rq_ID req = [] \<or> plain_id (rq_ID req)"
  shows "\<exists>sid s. b = RegisterResponse sid \<and> (rq_ID req \<noteq> [] \<longrightarrow> sid = rq_ID req) \<and>
    reg_ServeHTTP env2 ''GET'' (''/v1/services/'' @ sid) r' = ((False, \<lparr>rp_status = 200, rp_ContentType = ''application/json'', rp_Allow = [], rp_body = OneService s\<rparr>), r') \<and>
    sr_ID s = sid \<and> sr_Name s = rq_Name req \<and> sr_Address s = rq_Address req \<and> sr_Tags s = rq_Tags req \<and>
    sr_Metadata s = rq_Metadata req \<and> 1 \<le> sr_Weight s"
proof -
  define mk where "mk ttl = \<lparr>sv_ID = rq_ID req, sv_Name = rq_Name req, sv_Address = rq_Address req, sv_Tags = rq_Tags req,
      sv_Metadata = rq_Metadata req, sv_Weight = rq_Weight req, sv_TTL = ttl, sv_RegisteredAt = 0, sv_LastHeartbeat = 0\<rparr>" for ttl
  obtain ttl sid where reg: "reg_Register (env_now env) (env_random env) (mk ttl) r = ((p, Inr sid), r')"
      and b: "b = RegisterResponse sid"
    using assms(4) unfolding ServeHTTP_post handleRegister_def assms(3) mk_def
    by (auto simp: writeError_def writeJSON_def Let_def split: if_splits sum.splits prod.splits)
  let ?s = "reg_entry (env_now env) (env_random env) (mk ttl) r"
  note entry = reg_Register_Inr [OF assms(1) reg]
  have sid: "sid = (if rq_ID req = [] then generateID (env_random env) else rq_ID req)"
    by (simp add: entry(1) reg_entry_def mk_def Let_def)
  then have "plain_id sid" using assms(2,5) plain_generateID by auto
  then have "reg_ServeHTTP env2 ''GET'' (''/v1/services/'' @ sid) r' =
      ((False, writeJSON 200 (OneService (serviceToResponse (env_durString env2) ?s))), r')"
    unfolding ServeHTTP_get [OF \<open>plain_id sid\<close>] by (simp add: handleGet_def reg_Get_def entry(2))
  moreover have "sv_ID ?s = sid" by (simp add: entry(1))
  ultimately show ?thesis using b sid
    by (intro exI [of _ sid] exI [of _ "serviceToResponse (env_durString env2) ?s"])
      (simp add: writeJSON_def serviceToResponse_def Let_def reg_entry_def mk_def)
qed

definition sample_env :: reg_env where
  "sample_env = \<lparr>env_now = 5, env_random = [0, 2, 3, 4], env_order = [], env_decode =
       Inr \<lparr>rq_ID = ''a1'', rq_Name = ''api'', rq_Address = ''10.0.0.5:80'', rq_Tags = [], rq_Metadata = Map.empty, rq_Weight = 0, rq_TTL = []\<rparr>,
     env_ParseDuration = (\<lambda>_. Inl ''bad''), env_durString = (\<lambda>_. ''0s''), env_query_name = [], env_query_tag = []\<rparr>"

lemma sample_post:
  "reg_ServeHTTP sample_env ''POST'' ''/v1/services'' (reg_New reg_DefaultConfig) =
    ((False, \<lparr>rp_status = 201, rp_ContentType = ''application/json'', rp_Allow = [], rp_body = RegisterResponse ''a1''\<rparr>), sample_registry)"
proof -
  have full: "\<not> reg_full (reg_New reg_DefaultConfig) sid" for sid by (simp add: reg_full_def reg_New_def reg_DefaultConfig_def)
  have "reg_Register 5 [0, 2, 3, 4] sample_service (reg_New reg_DefaultConfig) = ((False, Inr ''a1''), sample_registry)"
    using reg_Register_inv [OF reg_New_inv [of reg_DefaultConfig], where rnd = "[0, 2, 3, 4]" and now = 5 and svc = sample_service]
    by (auto simp: sample_registry_def prod_eq_iff reg_Register_ok [OF full] case_prod_unfold Let_def)
      (simp add: sample_service_def)
  then show ?thesis by (simp add: ServeHTTP_post handleRegister_def sample_env_def sample_service_def writeJSON_def Let_def)
qed

theorem post_then_get_witness:
  "\<exists>s. reg_ServeHTTP sample_env ''GET'' (''/v1/services/'' @ ''a1'') sample_registry =
      ((False, \<lparr>rp_status = 200, rp_ContentType = ''application/json'', rp_Allow = [], rp_body = OneService s\<rparr>), sample_registry) \<and> sr_Address s = ''10.0.0.5:80''"
  using post_then_get [OF reg_New_inv _ _ sample_post, where ?env2.0 = sample_env]
  by (simp add: sample_env_def plain_id_def HasSuffix_def suffix_def) blast

text \<open>A service whose ID is \<^verbatim>\<open>heartbeat\<close> can be registered but neither read nor removed
  over HTTP: its own path ends in \<^verbatim>\<open>/heartbeat\<close> and is taken for a heartbeat path, so
  \<^verbatim>\<open>GET\<close> and \<^verbatim>\<open>DELETE\<close> answer 405.\<close>

theorem heartbeat_id_unreachable:
  "reg_ServeHTTP env ''GET'' ''/v1/services/heartbeat'' r = ((False, methodNotAllowed ''PUT''), r) \<and>
   reg_ServeHTTP env ''DELETE'' ''/v1/services/heartbeat'' r = ((False, methodNotAllowed ''PUT''), r)"
  by (simp add: reg_ServeHTTP_def TrimPrefix_def HasPrefix_def HasSuffix_def)

text \<open>Only \<^verbatim>\<open>POST\<close>, \<^verbatim>\<open>DELETE\<close> and \<^verbatim>\<open>PUT\<close> change the registry, a request
  that fails with a status of 400 or above changes nothing, and no request panics.\<close>

theorem failed_requests_change_nothing:
  assumes "reg_inv r" and "length (env_random env) = 4" and "reg_ServeHTTP env m path r = ((p, rep), r')"
  shows "\<not> p \<and> reg_inv r' \<and> (400 \<le> rp_status rep \<or> m = ''GET'' \<longrightarrow> r' = r)"
proof -
  have reg: "reg_inv (snd (handleRegister env r)) \<and> \<not> fst (fst (handleRegister env r)) \<and>
      (400 \<le> rp_status (snd (fst (handleRegister env r))) \<longrightarrow> snd (handleRegister env r) = r)"
  proof (cases "env_decode env")
    case (Inr req)
    have "reg_inv (snd (reg_Register n (env_random env) svc r)) \<and> \<not> fst (fst (reg_Register n (env_random env) svc r))" for n svc
      using reg_Register_inv [OF assms(1,2)] .
    moreover have "snd (reg_Register n (env_random env) svc r) = r" if "snd (fst (reg_Register n (env_random env) svc r)) = Inl e" for n svc e
      using that by (cases "reg_full r (sv_ID (reg_entry n (env_random env) svc r))")
        (simp_all add: reg_Register_full reg_Register_ok case_prod_unfold Let_def)
    ultimately show ?thesis using assms(1)
      by (auto simp: handleRegister_def Inr writeError_def writeJSON_def Let_def split: sum.splits prod.splits)
        (metis fst_conv snd_conv)+
  qed (use assms(1) in \<open>simp add: handleRegister_def\<close>)
  have dereg: "reg_inv (snd (handleDeregister env sid r)) \<and> \<not> fst (fst (handleDeregister env sid r)) \<and>
      (400 \<le> rp_status (snd (fst (handleDeregister env sid r))) \<longrightarrow> snd (handleDeregister env sid r) = r)" for sid
    using reg_Deregister_inv [OF assms(1), of "env_now env" sid]
    by (auto simp: handleDeregister_def case_prod_unfold Let_def writeError_def writeJSON_def)
      (auto simp: reg_Deregister_def case_prod_unfold Let_def split: option.splits)
  have beat: "reg_inv (snd (handleHeartbeat env sid r)) \<and>
      (400 \<le> rp_status (fst (handleHeartbeat env sid r)) \<longrightarrow> snd (handleHeartbeat env sid r) = r)" for sid
    using reg_Heartbeat_inv [OF assms(1), of "env_now env" sid]
    by (auto simp: handleHeartbeat_def case_prod_unfold Let_def writeError_def writeJSON_def)
      (auto simp: reg_Heartbeat_def split: option.splits)
  let ?x = "reg_ServeHTTP env m path r"
  have "\<not> fst (fst ?x) \<and> reg_inv (snd ?x) \<and> (400 \<le> rp_status (snd (fst ?x)) \<or> m = ''GET'' \<longrightarrow> snd ?x = r)"
    using assms(1) reg dereg beat unfolding reg_ServeHTTP_def case_prod_unfold Let_def by simp
  then show ?thesis unfolding assms(3) by simp
qed

theorem failed_requests_change_nothing_witness:
  "snd (reg_ServeHTTP sample_env ''GET'' ''/v1/services'' sample_registry) = sample_registry"
proof -
  have "length (env_random sample_env) = 4" by (simp add: sample_env_def)
  from failed_requests_change_nothing [OF sample_registry_sel(1) this, of "''GET''" "''/v1/services''"]
  show ?thesis by (metis prod.collapse)
qed

end
