(* ===== verification/Health.thy ===== *)
theory Health
  imports Backend Http
begin

text \<open>
  The active health checker of \<^verbatim>\<open>internal/health/checker.go\<close>. The outcome of a probe (an
  error or none) is an argument. The checks of one round run concurrently; a round is
  therefore the execution of its checks in an arbitrary order, and the order is shown not to
  matter. The counters are maps from addresses; a missing entry reads as zero.
\<close>

section \<open>Data\<close>

record CheckerConfig =
  hc_Interval :: duration
  hc_Timeout :: duration
  hc_UnhealthyThreshold :: int
  hc_HealthyThreshold :: int
  hc_CheckType :: string
  hc_HTTPPath :: string

definition DefaultCheckerConfig :: CheckerConfig where
  "DefaultCheckerConfig = \<lparr>hc_Interval = 5 * Second, hc_Timeout = 2 * Second, hc_UnhealthyThreshold = 3,
     hc_HealthyThreshold = 2, hc_CheckType = ''tcp'', hc_HTTPPath = ''/health''\<rparr>"

record Checker =
  hc_backends :: "backend_ref list"
  hc_config :: CheckerConfig
  hc_running :: bool
  hc_doneClosed :: bool
  hc_readyClosed :: bool
  successCount :: "string \<rightharpoonup> int"
  failureCount :: "string \<rightharpoonup> int"

definition NewChecker :: "backend_ref list \<Rightarrow> CheckerConfig \<Rightarrow> Checker" where
  "NewChecker backends config0 =
    (let config1 = (if hc_Interval config0 = 0 then config0\<lparr>hc_Interval := 5 * Second\<rparr> else config0);
         config2 = (if hc_Timeout config1 = 0 then config1\<lparr>hc_Timeout := 2 * Second\<rparr> else config1);
         config3 = (if hc_UnhealthyThreshold config2 = 0 then config2\<lparr>hc_UnhealthyThreshold := 3\<rparr> else config2);
         config4 = (if hc_HealthyThreshold config3 = 0 then config3\<lparr>hc_HealthyThreshold := 2\<rparr> else config3)
     in \<lparr>hc_backends = backends, hc_config = config4, hc_running = False, hc_doneClosed = False,
         hc_readyClosed = False, successCount = Map.empty, failureCount = Map.empty\<rparr>)"

section \<open>Life cycle\<close>

text \<open>\<open>True\<close> as the first result is a panic: closing a channel that is closed.\<close>

definition hc_Start :: "Checker \<Rightarrow> bool \<times> Checker" where
  "hc_Start c =
    (if hc_running c then (False, c)
     else (let c1 = c\<lparr>hc_running := True\<rparr>
           in if hc_readyClosed c1 then (True, c1) else (False, c1\<lparr>hc_readyClosed := True\<rparr>)))"

definition hc_Stop :: "Checker \<Rightarrow> bool \<times> Checker" where
  "hc_Stop c =
    (if \<not> hc_running c then (False, c)
     else (let c1 = c\<lparr>hc_running := False\<rparr>
           in if hc_doneClosed c1 then (True, c1) else (False, c1\<lparr>hc_doneClosed := True\<rparr>)))"

section \<open>Probes\<close>

definition http_check_path :: "string \<Rightarrow> string" where
  "http_check_path HTTPPath =
    (let path = (if HTTPPath = [] then ''/health'' else HTTPPath)
     in if \<not> HasPrefix path ''/'' then ''/'' @ path else path)"

text \<open>\<open>get\<close> is the HTTP client: from the URL to an error or a status.\<close>

definition httpCheck :: "(string \<Rightarrow> net_error + int) \<Rightarrow> CheckerConfig \<Rightarrow> string \<Rightarrow> net_error option" where
  "httpCheck get config addr =
    (let url = ''http://'' @ addr @ http_check_path (hc_HTTPPath config)
     in case get url of
          Inl err \<Rightarrow> Some err
        | Inr status \<Rightarrow> (if status < 200 \<or> status \<ge> 300 then Some (ErrOther url) else None))"

definition tcpCheck :: "(string \<Rightarrow> net_error option) \<Rightarrow> string \<Rightarrow> net_error option" where
  "tcpCheck dial addr = dial addr"

definition hc_probe :: "(string \<Rightarrow> net_error + int) \<Rightarrow> (string \<Rightarrow> net_error option) \<Rightarrow> CheckerConfig \<Rightarrow> string \<Rightarrow> net_error option" where
  "hc_probe get dial config addr =
    (if hc_CheckType config = ''http'' then httpCheck get config addr else tcpCheck dial addr)"

section \<open>Checks\<close>

definition count_of :: "(string \<rightharpoonup> int) \<Rightarrow> string \<Rightarrow> int" where
  "count_of m a = (case m a of None \<Rightarrow> 0 | Some n \<Rightarrow> n)"

text \<open>\<^verbatim>\<open>checkOne\<close> after the probe; \<open>now\<close> is the clock of \<^verbatim>\<open>SetHealthy\<close>, the same for
  the two calls of the success path.\<close>

definition checkOne :: "go_time \<Rightarrow> net_error option \<Rightarrow> backend_ref \<Rightarrow> Checker \<times> heap \<Rightarrow> Checker \<times> heap" where
  "checkOne now err b s =
    (let (c, h) = s;
         wasHealthy = b_IsHealthy h b;
         addr = b_Addr h b
     in if err \<noteq> None then
          (let c1 = c\<lparr>failureCount := (failureCount c)(addr \<mapsto> count_of (failureCount c) addr + 1)\<rparr>;
               c2 = c1\<lparr>successCount := (successCount c1)(addr \<mapsto> 0)\<rparr>
           in if count_of (failureCount c2) addr \<ge> hc_UnhealthyThreshold (hc_config c2)
              then (c2, b_SetHealthy now False err b h)
              else (c2, h))
        else
          (let c1 = c\<lparr>failureCount := (failureCount c)(addr \<mapsto> 0)\<rparr>;
               c2 = c1\<lparr>successCount := (successCount c1)(addr \<mapsto> count_of (successCount c1) addr + 1)\<rparr>;
               readyToMark = count_of (successCount c2) addr \<ge> hc_HealthyThreshold (hc_config c2);
               h1 = b_SetHealthy now True None b h
           in if readyToMark \<and> \<not> wasHealthy then (c2, b_SetHealthy now True None b h1) else (c2, h1)))"

text \<open>A round: the order in which its checks take effect, the clock and the probe of each.\<close>

record round =
  rd_order :: "backend_ref list"
  rd_now :: "backend_ref \<Rightarrow> go_time"
  rd_probe :: "backend_ref \<Rightarrow> net_error option"

definition checkAll :: "round \<Rightarrow> Checker \<times> heap \<Rightarrow> Checker \<times> heap" where
  "checkAll rd s = fold (\<lambda>b. checkOne (rd_now rd b) (rd_probe rd b) b) (rd_order rd) s"

text \<open>\<^verbatim>\<open>checkLoop\<close>: one round at once, then one for every tick, until the context or the checker is done; \<open>None\<close> when the
  ticker cannot be made.\<close>

datatype loop_event = LoopTick round | LoopDone

fun check_ticks :: "loop_event list \<Rightarrow> Checker \<times> heap \<Rightarrow> Checker \<times> heap" where
  "check_ticks [] s = s"
| "check_ticks (LoopDone # es) s = s"
| "check_ticks (LoopTick rd # es) s = check_ticks es (checkAll rd s)"

definition checkLoop :: "round \<Rightarrow> loop_event list \<Rightarrow> Checker \<times> heap \<Rightarrow> (Checker \<times> heap) option" where
  "checkLoop first es s =
    (if ticker_panics (hc_Interval (hc_config (fst s))) then None else Some (check_ticks es (checkAll first s)))"

text \<open>\<^verbatim>\<open>UpdateBackends\<close>: the loop ranges over the keys of \<^verbatim>\<open>successCount\<close> and deletes from
  both maps.\<close>

definition hc_UpdateBackends :: "heap \<Rightarrow> backend_ref list \<Rightarrow> Checker \<Rightarrow> Checker" where
  "hc_UpdateBackends h backends c =
    (let newAddrs = b_Addr h ` set backends;
         stale = dom (successCount c) - newAddrs
     in c\<lparr>successCount := (\<lambda>a. if a \<in> stale then None else successCount c a),
          failureCount := (\<lambda>a. if a \<in> stale then None else failureCount c a),
          hc_backends := backends\<rparr>)"

section \<open>The order of the checks does not matter\<close>

lemma SetHealthy_sel [simp]:
  "b_Addr (b_SetHealthy now v e b h) b' = b_Addr h b'"
  "b_IsHealthy (b_SetHealthy now v e b h) b' = (if b' = b then v else b_IsHealthy h b')"
  by (simp_all add: b_Addr_def b_SetHealthy_def b_IsHealthy_def)

lemma SetHealthy_commute:
  "b \<noteq> b' \<Longrightarrow> b_SetHealthy n v e b (b_SetHealthy n' v' e' b' h) = b_SetHealthy n' v' e' b' (b_SetHealthy n v e b h)"
  by (simp add: b_SetHealthy_def upd_backend_def fun_upd_twist)

lemma SetHealthy_again: "b_SetHealthy n v e b (b_SetHealthy n v e b h) = b_SetHealthy n v e b h"
  by (simp add: b_SetHealthy_def upd_backend_def)

lemma count_of_upd [simp]: "count_of (m(a \<mapsto> n)) a' = (if a' = a then n else count_of m a')"
  by (simp add: count_of_def)

text \<open>\<^verbatim>\<open>checkOne\<close> in closed form: the second \<^verbatim>\<open>SetHealthy\<close> of the success path repeats the
  first.\<close>

definition counters :: "bool \<Rightarrow> string \<Rightarrow> Checker \<Rightarrow> Checker" where
  "counters failed a c =
    (if failed then c\<lparr>failureCount := (failureCount c)(a \<mapsto> count_of (failureCount c) a + 1), successCount := (successCount c)(a \<mapsto> 0)\<rparr>
     else c\<lparr>failureCount := (failureCount c)(a \<mapsto> 0), successCount := (successCount c)(a \<mapsto> count_of (successCount c) a + 1)\<rparr>)"

lemma checkOne_eq:
  "checkOne now err b (c, h) =
    (counters (err \<noteq> None) (b_Addr h b) c,
     if err = None then b_SetHealthy now True None b h
     else if hc_UnhealthyThreshold (hc_config c) \<le> count_of (failureCount c) (b_Addr h b) + 1
     then b_SetHealthy now False err b h else h)"
  by (auto simp: checkOne_def counters_def Let_def SetHealthy_again)

lemma counters_sel [simp]:
  "hc_config (counters f a c) = hc_config c" "hc_backends (counters f a c) = hc_backends c"
  "count_of (failureCount (counters f a c)) a' = (if a' = a then (if f then count_of (failureCount c) a + 1 else 0) else count_of (failureCount c) a')"
  by (simp_all add: counters_def)

lemma counters_commute: "a \<noteq> a' \<Longrightarrow> counters f a (counters f' a' c) = counters f' a' (counters f a c)"
  by (simp add: counters_def fun_upd_twist)

lemma checkOne_Addr: "b_Addr (snd (checkOne now err b s)) = b_Addr (snd s)"
  by (cases s) (auto simp: checkOne_eq fun_eq_iff)

text \<open>Checks of backends with different addresses commute.\<close>

lemma checkOne_commute:
  assumes "b \<noteq> b'" and "b_Addr h b \<noteq> b_Addr h b'"
  shows "checkOne n e b (checkOne n' e' b' (c, h)) = checkOne n' e' b' (checkOne n e b (c, h))"
  using assms by (auto simp: checkOne_eq counters_commute SetHealthy_commute)


lemma fold_checks_Addr: "b_Addr (snd (fold (\<lambda>b. checkOne (n b) (e b) b) bs s)) = b_Addr (snd s)"
  by (induction bs arbitrary: s) (simp_all add: checkOne_Addr)

text \<open>One round, seen from one backend: its check takes effect once, and the checks of the
  others, which have other addresses, leave its flag and its counters alone.\<close>

lemma checkOne_frame:
  assumes "b' \<noteq> b" and "b_Addr (snd s) b' \<noteq> b_Addr (snd s) b"
  shows "b_IsHealthy (snd (checkOne n e b' s)) b = b_IsHealthy (snd s) b"
    and "count_of (failureCount (fst (checkOne n e b' s))) (b_Addr (snd s) b) = count_of (failureCount (fst s)) (b_Addr (snd s) b)"
    and "hc_config (fst (checkOne n e b' s)) = hc_config (fst s)"
  using assms by (cases s; simp add: checkOne_eq)+

lemma round_frame:
  assumes "b \<notin> set bs" and "\<forall>b' \<in> set bs. b_Addr (snd s) b' \<noteq> b_Addr (snd s) b"
  shows "b_IsHealthy (snd (fold (\<lambda>b. checkOne (n b) (e b) b) bs s)) b = b_IsHealthy (snd s) b \<and>
    count_of (failureCount (fst (fold (\<lambda>b. checkOne (n b) (e b) b) bs s))) (b_Addr (snd s) b) =
      count_of (failureCount (fst s)) (b_Addr (snd s) b) \<and>
    hc_config (fst (fold (\<lambda>b. checkOne (n b) (e b) b) bs s)) = hc_config (fst s)"
  using assms
proof (induction bs arbitrary: s)
  case (Cons a bs)
  have a: "a \<noteq> b" "b_Addr (snd s) a \<noteq> b_Addr (snd s) b" using Cons.prems by auto
  show ?case using Cons.IH [of "checkOne (n a) (e a) a s"] Cons.prems checkOne_frame [OF a, of "n a" "e a"]
    by (simp add: checkOne_Addr)
qed simp

lemma round_step:
  assumes "distinct bs" and "b \<in> set bs" and "inj_on (b_Addr (snd s)) (set bs)"
    and "s' = fold (\<lambda>b. checkOne (n b) (e b) b) bs s"
  shows "b_IsHealthy (snd s') b =
      (e b = None \<or> (b_IsHealthy (snd s) b \<and> count_of (failureCount (fst s)) (b_Addr (snd s) b) + 1 < hc_UnhealthyThreshold (hc_config (fst s))))
    \<and> count_of (failureCount (fst s')) (b_Addr (snd s') b) =
      (if e b = None then 0 else count_of (failureCount (fst s)) (b_Addr (snd s) b) + 1)
    \<and> hc_config (fst s') = hc_config (fst s)"
proof -
  let ?f = "\<lambda>b. checkOne (n b) (e b) b"
  obtain us vs where bs: "bs = us @ b # vs" using assms(2) by (auto simp: in_set_conv_decomp)
  have away: "b \<notin> set us" "b \<notin> set vs" "\<forall>b' \<in> set us \<union> set vs. b_Addr (snd s) b' \<noteq> b_Addr (snd s) b"
    using assms(1,3) by (auto simp: bs inj_on_def)
  let ?s1 = "fold ?f us s" and ?s2 = "?f b (fold ?f us s)"
  have s': "s' = fold ?f vs ?s2" using assms(4) by (simp add: bs)
  have addr: "b_Addr (snd ?s1) = b_Addr (snd s)" "b_Addr (snd ?s2) = b_Addr (snd s)" "b_Addr (snd s') = b_Addr (snd s)"
    by (simp_all add: fold_checks_Addr checkOne_Addr assms(4))
  have f1: "b_IsHealthy (snd ?s1) b = b_IsHealthy (snd s) b"
      "count_of (failureCount (fst ?s1)) (b_Addr (snd s) b) = count_of (failureCount (fst s)) (b_Addr (snd s) b)"
      "hc_config (fst ?s1) = hc_config (fst s)"
    using round_frame [of b us s n e] away by auto
  have f2: "b_IsHealthy (snd s') b = b_IsHealthy (snd ?s2) b"
      "count_of (failureCount (fst s')) (b_Addr (snd s) b) = count_of (failureCount (fst ?s2)) (b_Addr (snd s) b)"
      "hc_config (fst s') = hc_config (fst ?s2)"
    using round_frame [of b vs ?s2 n e] away by (auto simp: s' addr)
  obtain c h where s1: "?s1 = (c, h)" by force
  show ?thesis using f1 f2 addr by (auto simp: s1 checkOne_eq)
qed

section \<open>What the checker does\<close>

text \<open>The number of failures since the last success.\<close>

definition trailing_failures :: "bool list \<Rightarrow> nat" where
  "trailing_failures rs = length (takeWhile id (rev rs))"

lemma trailing_failures_snoc:
  "trailing_failures [] = 0"
  "trailing_failures (rs @ [r]) = (if r then Suc (trailing_failures rs) else 0)"
  by (simp_all add: trailing_failures_def)

lemma rotation_after_rounds:
  assumes "distinct bs" and "inj_on (b_Addr h) (set bs)" and "\<forall>b \<in> set bs. b_IsHealthy h b"
    and "\<forall>rd \<in> set rds. mset (rd_order rd) = mset bs"
    and "0 < hc_UnhealthyThreshold (hc_config (NewChecker bs cfg))"
    and "b \<in> set bs"
  shows "b_IsHealthy (snd (fold checkAll rds (NewChecker bs cfg, h))) b \<longleftrightarrow>
    int (trailing_failures (map (\<lambda>rd. rd_probe rd b \<noteq> None) rds)) < hc_UnhealthyThreshold (hc_config (NewChecker bs cfg))"
proof -
  let ?s = "\<lambda>rds. fold checkAll rds (NewChecker bs cfg, h)" and ?thr = "hc_UnhealthyThreshold (hc_config (NewChecker bs cfg))"
  let ?t = "\<lambda>rds. int (trailing_failures (map (\<lambda>rd. rd_probe rd b \<noteq> None) rds))"
  have "b_Addr (snd (?s rds)) = b_Addr h \<and> hc_config (fst (?s rds)) = hc_config (NewChecker bs cfg) \<and>
      count_of (failureCount (fst (?s rds))) (b_Addr h b) = ?t rds \<and> (b_IsHealthy (snd (?s rds)) b \<longleftrightarrow> ?t rds < ?thr)"
    using assms(4)
  proof (induction rds rule: rev_induct)
    case Nil
    then show ?case using assms(3,5,6) by (simp add: trailing_failures_snoc NewChecker_def count_of_def Let_def)
  next
    case (snoc rd rds)
    have IH: "b_Addr (snd (?s rds)) = b_Addr h" "hc_config (fst (?s rds)) = hc_config (NewChecker bs cfg)"
      "count_of (failureCount (fst (?s rds))) (b_Addr h b) = ?t rds" "b_IsHealthy (snd (?s rds)) b \<longleftrightarrow> ?t rds < ?thr"
      using snoc by auto
    have m: "mset (rd_order rd) = mset bs" using snoc.prems by simp
    then have ord: "distinct (rd_order rd)" "set (rd_order rd) = set bs"
      using assms(1) by (metis mset_eq_imp_distinct_iff, metis set_mset_mset)
    have s': "checkAll rd (?s rds) = fold (\<lambda>b. checkOne (rd_now rd b) (rd_probe rd b) b) (rd_order rd) (?s rds)"
      by (simp add: checkAll_def)
    have "b_Addr (snd (checkAll rd (?s rds))) = b_Addr h" using fold_checks_Addr IH(1) by (simp add: s')
    moreover have "b \<in> set (rd_order rd)" "inj_on (b_Addr (snd (?s rds))) (set (rd_order rd))"
      using assms(2,6) ord(2) IH(1) by simp_all
    note round_step [OF ord(1) this s']
    ultimately show ?case using IH assms(5) by (auto simp: trailing_failures_snoc)
  qed
  then show ?thesis by blast
qed

text \<open>C11: after any number of rounds, in whatever order the concurrent checks of each round take
  effect, a backend is out of rotation exactly when its last \<^verbatim>\<open>UnhealthyThreshold\<close>
  probes, or more, failed without a success in between; so a single failure never ejects it
  and a flapping backend stays in. The other threshold is without effect: \<^verbatim>\<open>HealthyThreshold\<close> is documented as the number of consecutive
  successes before a backend is marked healthy again, but whatever its value the health is the same, and the first success after
  the failures puts the backend back.\<close>

theorem ejected_after_threshold:
  assumes "distinct bs" and "inj_on (b_Addr h) (set bs)" and "\<forall>b \<in> set bs. b_IsHealthy h b"
    and "\<forall>rd \<in> set rds. mset (rd_order rd) = mset bs"
    and "0 < hc_UnhealthyThreshold (hc_config (NewChecker bs cfg))"
    and "b \<in> set bs"
  shows "(b_IsHealthy (snd (fold checkAll rds (NewChecker bs cfg, h))) b \<longleftrightarrow>
      int (trailing_failures (map (\<lambda>rd. rd_probe rd b \<noteq> None) rds)) < hc_UnhealthyThreshold (hc_config (NewChecker bs cfg))) \<and>
    (\<forall>n. b_IsHealthy (snd (fold checkAll rds (NewChecker bs (cfg\<lparr>hc_HealthyThreshold := n\<rparr>), h))) b =
      b_IsHealthy (snd (fold checkAll rds (NewChecker bs cfg, h))) b) \<and>
    (rds \<noteq> [] \<and> rd_probe (last rds) b = None \<longrightarrow> b_IsHealthy (snd (fold checkAll rds (NewChecker bs cfg, h))) b)"
proof -
  have thr: "hc_UnhealthyThreshold (hc_config (NewChecker bs (cfg\<lparr>hc_HealthyThreshold := n\<rparr>))) =
      hc_UnhealthyThreshold (hc_config (NewChecker bs cfg))" for n
    by (simp add: NewChecker_def Let_def)
  note base = rotation_after_rounds [OF assms(1-4) _ assms(6)]
  have "trailing_failures (map (\<lambda>rd. rd_probe rd b \<noteq> None) rds) = 0" if "rds \<noteq> []" "rd_probe (last rds) b = None"
    using that by (cases rds rule: rev_cases) (simp_all add: trailing_failures_snoc)
  then show ?thesis using base [OF assms(5)] base [of "cfg\<lparr>hc_HealthyThreshold := n\<rparr>" for n] assms(5) by (simp add: thr)
qed

text \<open>One successful probe puts a backend back into rotation, whatever the counters say and
  whatever the configured \<^verbatim>\<open>HealthyThreshold\<close>: the flag is set before, and regardless of,
  the comparison with the threshold.\<close>

theorem one_success_reinstates:
  "b_IsHealthy (snd (checkOne now None b (c, h))) b"
  by (simp add: checkOne_eq)

text \<open>The checks of a round commute when the backends have different addresses, so every
  execution order of the goroutines of \<^verbatim>\<open>checkAll\<close> ends in the same counters and the same
  health flags.\<close>

theorem checkAll_order_irrelevant:
  assumes "distinct bs" and "inj_on (b_Addr (snd s)) (set bs)" and "mset bs' = mset bs"
  shows "checkAll \<lparr>rd_order = bs', rd_now = n, rd_probe = e\<rparr> s = checkAll \<lparr>rd_order = bs, rd_now = n, rd_probe = e\<rparr> s"
proof -
  let ?f = "\<lambda>b. checkOne (n b) (e b) b"
  have swap: "fold ?f xs (?f b t) = ?f b (fold ?f xs t)"
    if "b \<notin> set xs" "inj_on (b_Addr (snd t)) (insert b (set xs))" for b xs t
    using that
  proof (induction xs arbitrary: t)
    case (Cons x xs)
    have "b \<noteq> x" "b_Addr (snd t) b \<noteq> b_Addr (snd t) x" using Cons.prems by (auto simp: inj_on_def)
    then have "?f x (?f b t) = ?f b (?f x t)" by (cases t) (simp add: checkOne_commute)
    moreover have "fold ?f xs (?f b (?f x t)) = ?f b (fold ?f xs (?f x t))"
      using Cons.prems by (intro Cons.IH) (auto simp: checkOne_Addr inj_on_def)
    ultimately show ?case by simp
  qed simp
  have "fold ?f bs' s = fold ?f bs s" if "mset bs' = mset bs" "distinct bs" "inj_on (b_Addr (snd s)) (set bs)" for bs' s
    using that
  proof (induction bs' arbitrary: bs s)
    case (Cons b bs')
    then have b: "b \<in> set bs" by (metis list.set_intros(1) set_mset_mset)
    then obtain us vs where bs: "bs = us @ b # vs" by (auto simp: in_set_conv_decomp)
    have "inj_on (b_Addr (snd s)) (insert b (set us))"
      by (rule inj_on_subset [OF Cons.prems(3)]) (auto simp: bs)
    moreover have "b \<notin> set us" using Cons.prems(2) by (simp add: bs)
    ultimately have "fold ?f bs s = fold ?f (us @ vs) (?f b s)" using swap [of b us s] by (simp add: bs)
    moreover have "fold ?f bs' (?f b s) = fold ?f (us @ vs) (?f b s)"
    proof (rule Cons.IH)
      show "mset bs' = mset (us @ vs)" "distinct (us @ vs)" using Cons.prems(1,2) by (simp_all add: bs)
      show "inj_on (b_Addr (snd (?f b s))) (set (us @ vs))"
        unfolding checkOne_Addr by (rule inj_on_subset [OF Cons.prems(3)]) (auto simp: bs)
    qed
    ultimately show ?case by simp
  qed simp
  from this [OF assms(3,1,2)] show ?thesis by (simp add: checkAll_def)
qed

definition counters_ok :: "Checker \<Rightarrow> bool" where
  "counters_ok c \<longleftrightarrow> dom (successCount c) = dom (failureCount c)"

lemma checks_counters_ok:
  "counters_ok (fst s) \<Longrightarrow> counters_ok (fst (fold (\<lambda>b. checkOne (n b) (e b) b) bs s))"
proof (induction bs arbitrary: s)
  case (Cons b bs)
  have "counters_ok (fst (checkOne (n b) (e b) b s))"
    using Cons.prems by (cases s) (auto simp: checkOne_eq counters_ok_def counters_def)
  then show ?case using Cons.IH by simp
qed simp

lemma UpdateBackends_sel:
  assumes "counters_ok c" and "a \<in> b_Addr h ` set bs"
  shows "successCount (hc_UpdateBackends h bs c) a = successCount c a"
    and "failureCount (hc_UpdateBackends h bs c) a = failureCount c a"
  using assms by (simp_all add: hc_UpdateBackends_def Let_def)

lemma UpdateBackends_stale:
  assumes "counters_ok c" and "a \<notin> b_Addr h ` set bs"
  shows "successCount (hc_UpdateBackends h bs c) a = None" and "failureCount (hc_UpdateBackends h bs c) a = None"
  using assms by (auto simp: hc_UpdateBackends_def Let_def counters_ok_def)

text \<open>The counters are kept per address: both maps always have the same keys, so the loop of
  \<^verbatim>\<open>UpdateBackends\<close>, which ranges over one and deletes from both, forgets exactly the
  addresses that left and keeps the counts of those that stay.\<close>

theorem UpdateBackends_counters:
  assumes "dom (successCount c) = dom (failureCount c)"
  shows "(let c' = hc_UpdateBackends h bs (fst (checkAll rd (c, h)))
    in dom (successCount c') = dom (failureCount c') \<and> dom (failureCount c') \<subseteq> b_Addr h ` set bs \<and>
       (\<forall>b \<in> set bs. successCount c' (b_Addr h b) = successCount (fst (checkAll rd (c, h))) (b_Addr h b) \<and>
          failureCount c' (b_Addr h b) = failureCount (fst (checkAll rd (c, h))) (b_Addr h b)))"
proof -
  let ?c = "fst (checkAll rd (c, h))"
  have ok: "counters_ok ?c"
    using checks_counters_ok [of "(c, h)"] assms by (simp add: counters_ok_def checkAll_def)
  have "dom (successCount (hc_UpdateBackends h bs ?c)) = dom (failureCount (hc_UpdateBackends h bs ?c))"
    "dom (failureCount (hc_UpdateBackends h bs ?c)) \<subseteq> b_Addr h ` set bs"
    using ok UpdateBackends_sel [OF ok] UpdateBackends_stale [OF ok] unfolding counters_ok_def
    by (metis (no_types, lifting) domIff equalityI subsetI) (meson UpdateBackends_stale(2) domIff ok subsetI)
  then show ?thesis using UpdateBackends_sel [OF ok] by (auto simp: Let_def)
qed

text \<open>A checker cannot be restarted: \<^verbatim>\<open>Start\<close> after \<^verbatim>\<open>Stop\<close> closes the ready channel a
  second time and panics.\<close>

theorem restart_panics:
  "fst (hc_Start (snd (hc_Stop (snd (hc_Start (NewChecker bs cfg))))))"
  by (simp add: hc_Start_def hc_Stop_def NewChecker_def Let_def)

section \<open>Instances\<close>

definition sample_hosts :: heap where
  "sample_hosts = snd (alloc_backend (NewBackend ''b'') (snd (alloc_backend (NewBackend ''a'') empty_heap)))"

definition sample_round :: "bool \<Rightarrow> round" where
  "sample_round fail = \<lparr>rd_order = [0, 1], rd_now = (\<lambda>_. 0), rd_probe = (\<lambda>b. if fail then Some ErrTimeout else None)\<rparr>"

lemma sample_hosts_sel:
  "b_IsHealthy sample_hosts b" "b_Addr sample_hosts 0 \<noteq> b_Addr sample_hosts (Suc 0)" "inj_on (b_Addr sample_hosts) {0, Suc 0}"
  by (simp_all add: sample_hosts_def alloc_backend_def NewBackend_def empty_heap_def b_IsHealthy_def b_Addr_def)

theorem ejected_after_threshold_witness:
  "\<not> b_IsHealthy (snd (fold checkAll [sample_round False, sample_round True, sample_round True, sample_round True]
      (NewChecker [0, 1] DefaultCheckerConfig, sample_hosts))) 0"
proof -
  have rds: "\<forall>rd \<in> set [sample_round False, sample_round True, sample_round True, sample_round True]. mset (rd_order rd) = mset [0, 1]"
    by (simp add: sample_round_def)
  have "0 < hc_UnhealthyThreshold (hc_config (NewChecker [0, 1] DefaultCheckerConfig))"
    by (simp add: NewChecker_def DefaultCheckerConfig_def Second_def)
  from ejected_after_threshold [OF _ _ _ rds this, of sample_hosts 0, THEN conjunct1] show ?thesis
    by (simp add: sample_hosts_sel sample_round_def trailing_failures_def NewChecker_def DefaultCheckerConfig_def Second_def)
qed

theorem checkAll_order_irrelevant_witness:
  "checkAll \<lparr>rd_order = [1, 0], rd_now = (\<lambda>_. 0), rd_probe = (\<lambda>_. None)\<rparr> (NewChecker [0, 1] DefaultCheckerConfig, sample_hosts) =
   checkAll \<lparr>rd_order = [0, 1], rd_now = (\<lambda>_. 0), rd_probe = (\<lambda>_. None)\<rparr> (NewChecker [0, 1] DefaultCheckerConfig, sample_hosts)"
  by (rule checkAll_order_irrelevant) (simp_all add: sample_hosts_sel)

theorem UpdateBackends_counters_witness:
  "dom (failureCount (hc_UpdateBackends sample_hosts [1] (fst (checkAll (sample_round True) (NewChecker [0, 1] DefaultCheckerConfig, sample_hosts)))))
    \<subseteq> b_Addr sample_hosts ` set [1]"
  using UpdateBackends_counters [of "NewChecker [0, 1] DefaultCheckerConfig" sample_hosts "[1]" "sample_round True"]
  by (simp add: NewChecker_def Let_def)

end
