(* ===== verification/Metrics.thy ===== *)
theory Metrics
  imports Complex_Main Go_Prelude
begin

text \<open>
  The metrics collector, \<^verbatim>\<open>internal/metrics/metrics.go\<close>. Its fields are
  \<^verbatim>\<open>atomic.Int64\<close> values, here \<open>64 word\<close>s: sums of durations in nanoseconds and
  of bytes can wrap in a long-lived process. The atomic additions of concurrent recordings
  commute, so one recording is one step.

  The main result says that the collector is the statistics of the log of recordings since
  the last reset: every counter, every backend entry and every bucket of the latency
  histogram is the count, or sum, over that log.
\<close>

section \<open>Data\<close>

type_synonym int64 = "64 word"

record BackendMetrics =
  bm_RequestsTotal :: int64
  bm_RequestsSuccess :: int64
  bm_RequestsFailed :: int64
  bm_BytesSent :: int64
  bm_BytesReceived :: int64
  bm_LatencySum :: int64

record Collector =
  connectionsTotal :: int64
  connectionsActive :: int64
  connectionsDuration :: int64
  requestsTotal :: int64
  requestsSuccess :: int64
  requestsFailures :: int64
  backendMetrics :: "string \<rightharpoonup> BackendMetrics"
  latencyBuckets :: "int64 list"
  latencyBucketMs :: "int list"
  mc_startTime :: go_time

definition default_buckets :: "int list" where
  "default_buckets = [1, 5, 10, 25, 50, 100, 250, 500, 1000, 5000]"

definition NewCollector :: "go_time \<Rightarrow> Collector" where
  "NewCollector now =
    (let buckets = default_buckets
     in \<lparr>connectionsTotal = 0, connectionsActive = 0, connectionsDuration = 0,
         requestsTotal = 0, requestsSuccess = 0, requestsFailures = 0,
         backendMetrics = Map.empty, latencyBuckets = replicate (length buckets + 1) 0,
         latencyBucketMs = buckets, mc_startTime = now\<rparr>)"

section \<open>Recording\<close>

definition RecordConnection :: "Collector \<Rightarrow> Collector" where
  "RecordConnection c = c\<lparr>connectionsTotal := connectionsTotal c + 1, connectionsActive := connectionsActive c + 1\<rparr>"

definition RecordConnectionClosed :: "duration \<Rightarrow> Collector \<Rightarrow> Collector" where
  "RecordConnectionClosed d c =
    c\<lparr>connectionsActive := connectionsActive c + (- 1), connectionsDuration := connectionsDuration c + word_of_int d\<rparr>"

definition Milliseconds :: "duration \<Rightarrow> int" where
  "Milliseconds d = go_div d 1000000"

text \<open>The loop of \<^verbatim>\<open>RecordLatency\<close>, from index \<open>i\<close>; the overflow bucket follows the
  last boundary.\<close>

fun find_bucket :: "int \<Rightarrow> nat \<Rightarrow> int list \<Rightarrow> nat" where
  "find_bucket ms i [] = i"
| "find_bucket ms i (boundary # bs) = (if ms \<le> boundary then i else find_bucket ms (Suc i) bs)"

definition RecordLatency :: "duration \<Rightarrow> Collector \<Rightarrow> Collector" where
  "RecordLatency d c =
    (let ms = Milliseconds d;
         bucket = find_bucket ms 0 (latencyBucketMs c)
     in c\<lparr>latencyBuckets := (latencyBuckets c)[bucket := latencyBuckets c ! bucket + 1]\<rparr>)"

definition new_BackendMetrics :: BackendMetrics where
  "new_BackendMetrics = \<lparr>bm_RequestsTotal = 0, bm_RequestsSuccess = 0, bm_RequestsFailed = 0,
     bm_BytesSent = 0, bm_BytesReceived = 0, bm_LatencySum = 0\<rparr>"

definition getOrCreateBackendMetrics :: "string \<Rightarrow> Collector \<Rightarrow> BackendMetrics \<times> Collector" where
  "getOrCreateBackendMetrics addr c =
    (case backendMetrics c addr of
       Some m \<Rightarrow> (m, c)
     | None \<Rightarrow> (new_BackendMetrics, c\<lparr>backendMetrics := (backendMetrics c)(addr \<mapsto> new_BackendMetrics)\<rparr>))"

definition RecordRequest :: "string \<Rightarrow> bool \<Rightarrow> duration \<Rightarrow> int \<Rightarrow> int \<Rightarrow> Collector \<Rightarrow> Collector" where
  "RecordRequest backend success latency bytesSent bytesReceived c =
    (let c1 = c\<lparr>requestsTotal := requestsTotal c + 1\<rparr>;
         c2 = (if success then c1\<lparr>requestsSuccess := requestsSuccess c1 + 1\<rparr>
               else c1\<lparr>requestsFailures := requestsFailures c1 + 1\<rparr>);
         (m, c3) = getOrCreateBackendMetrics backend c2;
         m1 = m\<lparr>bm_RequestsTotal := bm_RequestsTotal m + 1\<rparr>;
         m2 = (if success then m1\<lparr>bm_RequestsSuccess := bm_RequestsSuccess m1 + 1\<rparr>
               else m1\<lparr>bm_RequestsFailed := bm_RequestsFailed m1 + 1\<rparr>);
         m3 = m2\<lparr>bm_BytesSent := bm_BytesSent m2 + word_of_int bytesSent,
                 bm_BytesReceived := bm_BytesReceived m2 + word_of_int bytesReceived,
                 bm_LatencySum := bm_LatencySum m2 + word_of_int latency\<rparr>;
         c4 = c3\<lparr>backendMetrics := (backendMetrics c3)(backend \<mapsto> m3)\<rparr>
     in RecordLatency latency c4)"

definition mc_Reset :: "Collector \<Rightarrow> Collector" where
  "mc_Reset c = c\<lparr>connectionsTotal := 0, connectionsActive := 0, connectionsDuration := 0,
     requestsTotal := 0, requestsSuccess := 0, requestsFailures := 0,
     backendMetrics := Map.empty, latencyBuckets := map (\<lambda>_. 0) (latencyBuckets c)\<rparr>"

section \<open>Snapshots\<close>

text \<open>Averages are floats; \<open>rnd\<close> is the rounding of a \<^verbatim>\<open>float64\<close> operation.\<close>

record BackendSnapshot =
  bs_RequestsTotal :: int
  bs_RequestsSuccess :: int
  bs_RequestsFailed :: int
  bs_BytesSent :: int
  bs_BytesReceived :: int
  bs_AvgLatencyMs :: rat

record Snapshot =
  sn_Uptime :: duration
  sn_ConnectionsTotal :: int
  sn_ConnectionsActive :: int
  sn_AvgConnectionMs :: rat
  sn_RequestsTotal :: int
  sn_RequestsSuccess :: int
  sn_RequestsFailures :: int
  sn_Backends :: "string \<rightharpoonup> BackendSnapshot"
  sn_LatencyHistogram :: "string \<rightharpoonup> int"

definition average_ms :: "(rat \<Rightarrow> rat) \<Rightarrow> int64 \<Rightarrow> int \<Rightarrow> rat" where
  "average_ms rnd acc n =
    (if n > 0 then rnd (rnd (rnd (of_int (sint acc)) / rnd (of_int n)) / of_int Millisecond) else 0)"

definition backend_snapshot :: "(rat \<Rightarrow> rat) \<Rightarrow> BackendMetrics \<Rightarrow> BackendSnapshot" where
  "backend_snapshot rnd m =
    (let reqs = sint (bm_RequestsTotal m)
     in \<lparr>bs_RequestsTotal = reqs, bs_RequestsSuccess = sint (bm_RequestsSuccess m),
         bs_RequestsFailed = sint (bm_RequestsFailed m), bs_BytesSent = sint (bm_BytesSent m),
         bs_BytesReceived = sint (bm_BytesReceived m), bs_AvgLatencyMs = average_ms rnd (bm_LatencySum m) reqs\<rparr>)"

definition digit_char :: "int \<Rightarrow> char" where
  "digit_char d = char_of (nat (48 + d))"

definition formatMs :: "int \<Rightarrow> string" where
  "formatMs ms =
    (if ms \<ge> 1000 then [digit_char (go_div ms 1000)] @ ''s''
     else [digit_char (go_div ms 100)] @ [digit_char (go_rem (go_div ms 10) 10)] @ [digit_char (go_rem ms 10)] @ ''ms'')"

text \<open>The labels in the order the loop writes them: one for each boundary, then the overflow.\<close>

definition histogram_entries :: "Collector \<Rightarrow> (string \<times> int) list" where
  "histogram_entries c =
    map (\<lambda>i. (''<='' @ formatMs (latencyBucketMs c ! i), sint (latencyBuckets c ! i))) [0..<length (latencyBucketMs c)] @
    [(''>'' @ formatMs (latencyBucketMs c ! (length (latencyBucketMs c) - 1)), sint (latencyBuckets c ! (length (latencyBuckets c) - 1)))]"

definition mc_Snapshot :: "(rat \<Rightarrow> rat) \<Rightarrow> go_time \<Rightarrow> Collector \<Rightarrow> Snapshot" where
  "mc_Snapshot rnd now c =
    (let connTotal = sint (connectionsTotal c)
     in \<lparr>sn_Uptime = time_Sub now (mc_startTime c), sn_ConnectionsTotal = connTotal,
         sn_ConnectionsActive = sint (connectionsActive c),
         sn_AvgConnectionMs = average_ms rnd (connectionsDuration c) connTotal,
         sn_RequestsTotal = sint (requestsTotal c), sn_RequestsSuccess = sint (requestsSuccess c),
         sn_RequestsFailures = sint (requestsFailures c),
         sn_Backends = (\<lambda>a. map_option (backend_snapshot rnd) (backendMetrics c a)),
         sn_LatencyHistogram = (\<lambda>l. map_of (rev (histogram_entries c)) l)\<rparr>)"

section \<open>The log of recordings\<close>

datatype mc_op =
  OpConnection
| OpConnectionClosed duration
| OpRequest (rq_backend: string) (rq_success: bool) (rq_latency: duration) (rq_sent: int) (rq_received: int)
| OpReset

fun mc_step :: "Collector \<Rightarrow> mc_op \<Rightarrow> Collector" where
  "mc_step c OpConnection = RecordConnection c"
| "mc_step c (OpConnectionClosed d) = RecordConnectionClosed d c"
| "mc_step c (OpRequest b s l n m) = RecordRequest b s l n m c"
| "mc_step c OpReset = mc_Reset c"

definition since_reset :: "mc_op list \<Rightarrow> mc_op list" where
  "since_reset es = rev (takeWhile (\<lambda>e. e \<noteq> OpReset) (rev es))"

lemma since_reset_snoc:
  "since_reset [] = []"
  "since_reset (es @ [e]) = (if e = OpReset then [] else since_reset es @ [e])"
  by (simp_all add: since_reset_def)

text \<open>The statistics of a log.\<close>

definition requests :: "mc_op list \<Rightarrow> mc_op list" where
  "requests es = filter is_OpRequest es"

definition how_many :: "('a \<Rightarrow> bool) \<Rightarrow> 'a list \<Rightarrow> int64" where
  "how_many P xs = of_nat (length (filter P xs))"

definition total_of :: "('a \<Rightarrow> int) \<Rightarrow> 'a list \<Rightarrow> int64" where
  "total_of f xs = word_of_int (sum_list (map f xs))"

definition backend_stats :: "mc_op list \<Rightarrow> BackendMetrics" where
  "backend_stats rs = \<lparr>bm_RequestsTotal = how_many (\<lambda>_. True) rs, bm_RequestsSuccess = how_many rq_success rs,
     bm_RequestsFailed = how_many (\<lambda>r. \<not> rq_success r) rs, bm_BytesSent = total_of rq_sent rs,
     bm_BytesReceived = total_of rq_received rs, bm_LatencySum = total_of rq_latency rs\<rparr>"

fun closed_for :: "mc_op \<Rightarrow> duration" where
  "closed_for (OpConnectionClosed d) = d"
| "closed_for _ = 0"

definition requests_to :: "string \<Rightarrow> mc_op list \<Rightarrow> mc_op list" where
  "requests_to b es = filter (\<lambda>r. rq_backend r = b) (requests es)"

definition in_bucket :: "nat \<Rightarrow> mc_op \<Rightarrow> bool" where
  "in_bucket i r \<longleftrightarrow> find_bucket (Milliseconds (rq_latency r)) 0 default_buckets = i"

definition collector_of :: "go_time \<Rightarrow> mc_op list \<Rightarrow> Collector" where
  "collector_of t0 es = \<lparr>
     connectionsTotal = how_many (\<lambda>e. e = OpConnection) es,
     connectionsActive = how_many (\<lambda>e. e = OpConnection) es - how_many is_OpConnectionClosed es,
     connectionsDuration = total_of closed_for es,
     requestsTotal = how_many (\<lambda>_. True) (requests es),
     requestsSuccess = how_many rq_success (requests es),
     requestsFailures = how_many (\<lambda>r. \<not> rq_success r) (requests es),
     backendMetrics = (\<lambda>b. if requests_to b es = [] then None else Some (backend_stats (requests_to b es))),
     latencyBuckets = map (\<lambda>i. how_many (in_bucket i) (requests es)) [0..<11],
     latencyBucketMs = default_buckets,
     mc_startTime = t0\<rparr>"

lemma how_many_simps [simp]:
  "how_many P [] = 0"
  "how_many P [x] = (if P x then 1 else 0)"
  "how_many P (xs @ [x]) = how_many P xs + (if P x then 1 else 0)"
  by (simp_all add: how_many_def)

lemma total_of_simps [simp]:
  "total_of f [] = 0"
  "total_of f [x] = word_of_int (f x)"
  "total_of f (xs @ [x]) = total_of f xs + word_of_int (f x)"
  by (simp_all add: total_of_def wi_hom_add [symmetric])

lemma requests_snoc [simp]:
  "requests [] = []"
  "requests (es @ [e]) = requests es @ (if is_OpRequest e then [e] else [])"
  by (simp_all add: requests_def)

lemma requests_to_snoc [simp]:
  "requests_to b [] = []"
  "requests_to b (es @ [e]) = requests_to b es @ (if is_OpRequest e \<and> rq_backend e = b then [e] else [])"
  by (simp_all add: requests_to_def)

lemma find_bucket_le: "find_bucket ms i bs \<le> i + length bs"
proof (induction bs arbitrary: i)
  case (Cons b bs)
  then show ?case using Cons [of "Suc i"] by simp
qed simp

lemma find_bucket_ge: "i \<le> find_bucket ms i bs"
proof (induction bs arbitrary: i)
  case (Cons b bs)
  then show ?case using Cons [of "Suc i"] by (auto dest: Suc_leD)
qed simp

lemma collector_of_Nil: "collector_of t0 [] = NewCollector t0"
  by (simp add: collector_of_def NewCollector_def Let_def default_buckets_def map_replicate_const numeral_eq_Suc)

lemma buckets_snoc:
  assumes "find_bucket (Milliseconds (rq_latency r)) 0 default_buckets = k" and "k < 11"
  shows "map (\<lambda>i. how_many (in_bucket i) (rs @ [r])) [0..<11] =
    (map (\<lambda>i. how_many (in_bucket i) rs) [0..<11])[k := how_many (in_bucket k) rs + 1]"
  using assms
  by (intro nth_equalityI) (auto simp: nth_list_update in_bucket_def simp del: upt_Suc upt_rec_numeral)

lemma collector_of_request:
  "RecordRequest b s l n m (collector_of t0 es) = collector_of t0 (es @ [OpRequest b s l n m])"
proof -
  let ?k = "find_bucket (Milliseconds l) 0 default_buckets"
  let ?bs = "\<lambda>rs. map (\<lambda>i. how_many (in_bucket i) rs) [0..<11]"
  have k: "?k < 11" using find_bucket_le [of "Milliseconds l" 0 default_buckets] by (simp add: default_buckets_def)
  then have "(?bs (requests es))[?k := ?bs (requests es) ! ?k + 1] = ?bs (requests es @ [OpRequest b s l n m])"
    using buckets_snoc [of "OpRequest b s l n m" ?k "requests es"] by (simp del: upt_rec_numeral how_many_simps)
  then show ?thesis
    by (auto simp: RecordRequest_def RecordLatency_def getOrCreateBackendMetrics_def collector_of_def Let_def
        backend_stats_def new_BackendMetrics_def fun_eq_iff simp del: upt_rec_numeral)
qed

lemma collector_of_step:
  "e \<noteq> OpReset \<Longrightarrow> mc_step (collector_of t0 es) e = collector_of t0 (es @ [e])"
proof (cases e)
  case (OpRequest b s l n m)
  then show ?thesis by (simp add: collector_of_request)
qed (simp_all add: collector_of_def RecordConnection_def RecordConnectionClosed_def fun_eq_iff del: upt_rec_numeral)

lemma collector_of_reset: "mc_Reset (collector_of t0 es) = collector_of t0 []"
  by (simp add: collector_of_def mc_Reset_def fun_eq_iff del: upt_rec_numeral)

lemma collector_log: "foldl mc_step (NewCollector t0) es = collector_of t0 (since_reset es)"
proof (induction es rule: rev_induct)
  case Nil
  then show ?case by (simp add: since_reset_snoc collector_of_Nil)
next
  case (snoc e es)
  then show ?case by (cases "e = OpReset") (simp_all add: since_reset_snoc collector_of_step collector_of_reset)
qed

text \<open>C23: the collector is exactly the statistics of what was recorded since the last reset: for
  every sequence of recordings and resets, the totals, the successes and failures, the counters
  and sums of every backend, and every bucket of the histogram are those of that log (sums
  modulo \<open>2\<^sup>6\<^sup>4\<close>, as the code has them).\<close>

theorem collector_refines_log:
  "foldl mc_step (NewCollector t0) es = collector_of t0 (since_reset es)"
  by (rule collector_log)

section \<open>Buckets\<close>

lemma find_bucket_iff:
  assumes "sorted_wrt (<) bs"
  shows "find_bucket ms i bs = i + k \<longleftrightarrow>
    k \<le> length bs \<and> (\<forall>j < k. bs ! j < ms) \<and> (k < length bs \<longrightarrow> ms \<le> bs ! k)"
  using assms
proof (induction bs arbitrary: i k)
  case (Cons b bs)
  show ?case
  proof (cases k)
    case 0
    then show ?thesis using find_bucket_ge [of "Suc i" ms bs] by auto
  next
    case (Suc k')
    then show ?thesis using Cons.IH [of "Suc i" k'] Cons.prems
      by (auto simp: less_Suc_eq_0_disj)
  qed
qed auto

lemma Milliseconds_bounds:
  assumes "0 \<le> d"
  shows "Milliseconds d \<le> b \<longleftrightarrow> d < (b + 1) * Millisecond" and "b < Milliseconds d \<longleftrightarrow> (b + 1) * Millisecond \<le> d"
proof -
  obtain q r where q: "Milliseconds d = q" "d = q * 1000000 + r" "0 \<le> r" "r < 1000000"
  proof
    show "d = Milliseconds d * 1000000 + d mod 1000000" by (simp add: Milliseconds_def go_div_nonneg assms)
  qed simp_all
  show le: "Milliseconds d \<le> b \<longleftrightarrow> d < (b + 1) * Millisecond"
  proof (cases "q \<le> b")
    case True
    then have "q * 1000000 + r < b * 1000000 + 1000000" using q(3,4) by linarith
    then show ?thesis using True unfolding q(1) by (simp add: q(2) Millisecond_def distrib_right)
  next
    case False
    then have "b * 1000000 + 1000000 \<le> q * 1000000 + r" using q(3,4) by linarith
    then show ?thesis using False unfolding q(1) by (simp add: q(2) Millisecond_def distrib_right)
  qed
  then show "b < Milliseconds d \<longleftrightarrow> (b + 1) * Millisecond \<le> d" by linarith
qed

text \<open>The boundaries are increasing, so a bucket is decided by its own boundary and the one
  before.\<close>

definition bucket_span :: "nat \<Rightarrow> duration \<Rightarrow> bool" where
  "bucket_span k d \<longleftrightarrow>
    (k = 0 \<or> (default_buckets ! (k - 1) + 1) * Millisecond \<le> d) \<and>
    (length default_buckets \<le> k \<or> d < (default_buckets ! k + 1) * Millisecond)"

lemma default_buckets_sorted: "sorted_wrt (<) default_buckets"
  by (simp add: default_buckets_def)

lemma find_bucket_span:
  assumes "0 \<le> d" and "k \<le> length default_buckets"
  shows "find_bucket (Milliseconds d) 0 default_buckets = k \<longleftrightarrow> bucket_span k d"
proof -
  let ?bs = "default_buckets"
  have below: "?bs ! j \<le> ?bs ! (k - 1)" if "j < k" for j
  proof (cases "j = k - 1")
    case False
    then have "j < k - 1" "k - 1 < length ?bs" using that assms(2) by linarith+
    then show ?thesis using sorted_wrt_nth_less [OF default_buckets_sorted] by (simp add: less_imp_le)
  qed simp
  have "find_bucket (Milliseconds d) 0 ?bs = k \<longleftrightarrow>
      (\<forall>j < k. ?bs ! j < Milliseconds d) \<and> (k < length ?bs \<longrightarrow> Milliseconds d \<le> ?bs ! k)"
    using find_bucket_iff [OF default_buckets_sorted, of "Milliseconds d" 0 k] assms(2) by simp
  also have "(\<forall>j < k. ?bs ! j < Milliseconds d) \<longleftrightarrow> k = 0 \<or> ?bs ! (k - 1) < Milliseconds d"
    using below by (cases k) force+
  finally show ?thesis using Milliseconds_bounds [OF assms(1)] by (auto simp: bucket_span_def)
qed

text \<open>A latency is counted in exactly one bucket of the histogram, the one whose boundary is
  the first not below it once both are rounded down to whole milliseconds: the bucket labelled
  with a boundary of \<open>b\<close> milliseconds holds every latency strictly below \<open>b + 1\<close>
  milliseconds, so a latency of up to almost \<open>b + 1\<close> milliseconds is reported as at most
  \<open>b\<close>.\<close>

theorem RecordLatency_bucket:
  assumes "0 \<le> d" and "k \<le> 10" and "c = foldl mc_step (NewCollector t0) es"
  shows "latencyBuckets (RecordLatency d c) ! k = latencyBuckets c ! k +
    (if (k = 0 \<or> (default_buckets ! (k - 1) + 1) * Millisecond \<le> d) \<and>
        (k = 10 \<or> d < (default_buckets ! k + 1) * Millisecond) then 1 else 0)"
proof -
  have c: "length (latencyBuckets c) = 11" "latencyBucketMs c = default_buckets"
    using assms(3) by (simp_all add: collector_log collector_of_def)
  have len: "length default_buckets = 10" by (simp add: default_buckets_def)
  have "find_bucket (Milliseconds d) 0 default_buckets = k \<longleftrightarrow> bucket_span k d"
    by (rule find_bucket_span) (simp_all add: assms len)
  moreover have "find_bucket (Milliseconds d) 0 default_buckets < 11"
    using find_bucket_le [of "Milliseconds d" 0 default_buckets] by (simp add: len)
  ultimately show ?thesis using assms(2)
    by (auto simp: RecordLatency_def Let_def c nth_list_update bucket_span_def len)
qed

theorem RecordLatency_bucket_witness:
  "latencyBuckets (RecordLatency (1999999) (NewCollector 0)) ! 0 = 1"
  using RecordLatency_bucket [of 1999999 0 "NewCollector 0" 0 "[]"]
  by (simp add: default_buckets_def Millisecond_def NewCollector_def)

section \<open>Labels\<close>

lemma histogram_labels_distinct:
  "distinct (map fst (histogram_entries (collector_of t0 es)))"
  by (simp add: histogram_entries_def collector_of_def default_buckets_def formatMs_def
      digit_char_def go_div_def go_rem_def char_of_def)

end
