(* ===== verification/Prometheus.thy ===== *)
theory Prometheus
  imports Metrics Http RateLimiter "HOL-Library.List_Lexorder" "HOL-Library.Char_ord"
begin

text \<open>
  The text exporter, \<^verbatim>\<open>internal/metrics/prometheus.go\<close>. \<^verbatim>\<open>Export\<close> is modelled
  down to the text it writes. The order in which Go visits a map differs from loop to loop, so
  \<open>ord k\<close> is the list of keys in the order of the \<open>k\<close>-th loop; \<open>fmt_g\<close> is the
  verb \<^verbatim>\<open>%g\<close> and \<open>rnd\<close> the rounding of a float operation.
\<close>

section \<open>Lines\<close>

record PoolStatsSnapshot =
  ps_Hits :: int
  ps_Misses :: int
  ps_Returned :: int
  ps_Dropped :: int
  ps_Size :: int

text \<open>The exporter, with each getter given by the value it returns.\<close>

record PrometheusExporter =
  pe_namespace :: string
  pe_backendHealth :: "(string \<rightharpoonup> bool) option"
  pe_circuitBreakers :: "(string \<rightharpoonup> int) option"
  pe_rateLimiterStats :: "(int \<times> int) option"
  pe_poolStats :: "(string \<rightharpoonup> PoolStatsSnapshot) option"

definition NewPrometheusExporter :: PrometheusExporter where
  "NewPrometheusExporter = \<lparr>pe_namespace = ''sluice'', pe_backendHealth = None, pe_circuitBreakers = None,
     pe_rateLimiterStats = None, pe_poolStats = None\<rparr>"

definition SetBackendHealthGetter :: "(string \<rightharpoonup> bool) \<Rightarrow> PrometheusExporter \<Rightarrow> PrometheusExporter" where
  "SetBackendHealthGetter fn e = e\<lparr>pe_backendHealth := Some fn\<rparr>"

definition SetCircuitBreakerGetter :: "(string \<rightharpoonup> int) \<Rightarrow> PrometheusExporter \<Rightarrow> PrometheusExporter" where
  "SetCircuitBreakerGetter fn e = e\<lparr>pe_circuitBreakers := Some fn\<rparr>"

definition SetRateLimiterStats :: "int \<times> int \<Rightarrow> PrometheusExporter \<Rightarrow> PrometheusExporter" where
  "SetRateLimiterStats fn e = e\<lparr>pe_rateLimiterStats := Some fn\<rparr>"

definition SetPoolStatsGetter :: "(string \<rightharpoonup> PoolStatsSnapshot) \<Rightarrow> PrometheusExporter \<Rightarrow> PrometheusExporter" where
  "SetPoolStatsGetter fn e = e\<lparr>pe_poolStats := Some fn\<rparr>"

record RateLimiterWithStats =
  rs_allowed :: int
  rs_rejected :: int

definition NewRateLimiterWithStats :: RateLimiterWithStats where
  "NewRateLimiterWithStats = \<lparr>rs_allowed = 0, rs_rejected = 0\<rparr>"

definition RecordAllowed :: "RateLimiterWithStats \<Rightarrow> RateLimiterWithStats" where
  "RecordAllowed r = r\<lparr>rs_allowed := rs_allowed r + 1\<rparr>"

definition RecordRejected :: "RateLimiterWithStats \<Rightarrow> RateLimiterWithStats" where
  "RecordRejected r = r\<lparr>rs_rejected := rs_rejected r + 1\<rparr>"

definition limiter_Stats :: "RateLimiterWithStats \<Rightarrow> int \<times> int" where
  "limiter_Stats r = (rs_allowed r, rs_rejected r)"

text \<open>\<^verbatim>\<open>strings.ReplaceAll\<close> with a one-byte pattern.\<close>

definition ReplaceAll :: "string \<Rightarrow> char \<Rightarrow> string \<Rightarrow> string" where
  "ReplaceAll s old new = concat (map (\<lambda>c. if c = old then new else [c]) s)"

abbreviation backslash :: char where
  "backslash \<equiv> CHR 0x5C"

abbreviation quote :: char where
  "quote \<equiv> CHR 0x22"

definition escapeLabelValue :: "string \<Rightarrow> string" where
  "escapeLabelValue s =
    (let s1 = ReplaceAll s backslash [backslash, backslash];
         s2 = ReplaceAll s1 quote [backslash, quote];
         s3 = ReplaceAll s2 CHR 0x0A [backslash, CHR ''n'']
     in s3)"

text \<open>A label map is given by its entries; the literals of the code have distinct keys.\<close>

type_synonym labels = "(string \<times> string) list"

definition label_pair :: "labels \<Rightarrow> string \<Rightarrow> string" where
  "label_pair ls k = k @ ''='' @ [quote] @ escapeLabelValue (the (map_of ls k)) @ [quote]"

definition formatLabels :: "labels \<Rightarrow> string" where
  "formatLabels ls =
    (if length ls = 0 then []
     else (let keys = sort (map fst ls) in ''{'' @ join '','' (map (label_pair ls) keys) @ ''}''))"

definition writeHelp :: "PrometheusExporter \<Rightarrow> string \<Rightarrow> string \<Rightarrow> string" where
  "writeHelp e name help = ''# HELP '' @ pe_namespace e @ ''_'' @ name @ '' '' @ help @ newline"

definition writeType :: "PrometheusExporter \<Rightarrow> string \<Rightarrow> string \<Rightarrow> string" where
  "writeType e name metricType = ''# TYPE '' @ pe_namespace e @ ''_'' @ name @ '' '' @ metricType @ newline"

definition writeMetric :: "PrometheusExporter \<Rightarrow> string \<Rightarrow> labels \<Rightarrow> int \<Rightarrow> string" where
  "writeMetric e name ls v = pe_namespace e @ ''_'' @ name @ formatLabels ls @ '' '' @ Itoa v @ newline"

definition writeMetricFloat :: "(rat \<Rightarrow> string) \<Rightarrow> PrometheusExporter \<Rightarrow> string \<Rightarrow> labels \<Rightarrow> rat \<Rightarrow> string" where
  "writeMetricFloat fmt_g e name ls v = pe_namespace e @ ''_'' @ name @ formatLabels ls @ '' '' @ fmt_g v @ newline"

section \<open>The histogram\<close>

record bucket =
  bk_le :: rat
  bk_count :: int
  bk_label :: string

text \<open>\<^verbatim>\<open>Sscanf\<close> with \<^verbatim>\<open>%f\<close> on a string that begins with decimal digits and has no
  fraction, as all labels have.\<close>

definition scan_float :: "string \<Rightarrow> rat" where
  "scan_float s = of_nat (foldl (\<lambda>a c. 10 * a + (of_char c - 48)) 0 (takeWhile (\<lambda>c. c \<in> set decimal) s))"

definition parse_bucket :: "(rat \<Rightarrow> rat) \<Rightarrow> string \<Rightarrow> int \<Rightarrow> bucket list" where
  "parse_bucket rnd label n =
    (if HasPrefix label ''<='' then
       (let msStr = TrimSuffix (TrimPrefix label ''<='') ''ms'';
            msStr1 = TrimSuffix msStr ''s'';
            ms = scan_float msStr1
        in if HasSuffix (TrimPrefix label ''<='') ''s'' \<and> \<not> HasSuffix (TrimPrefix label ''<='') ''ms''
           then [\<lparr>bk_le = ms, bk_count = n, bk_label = []\<rparr>]
           else [\<lparr>bk_le = rnd (ms / 1000), bk_count = n, bk_label = []\<rparr>])
     else if HasPrefix label ''>'' then [\<lparr>bk_le = -1, bk_count = n, bk_label = ''+Inf''\<rparr>]
     else [])"

definition bucket_less :: "bucket \<Rightarrow> bucket \<Rightarrow> bool" where
  "bucket_less a b = (if bk_le a < 0 then False else if bk_le b < 0 then True else bk_le a < bk_le b)"

text \<open>\<^verbatim>\<open>sort.Slice\<close>: sorting by a comparison function. The algorithm is irrelevant because
  no two buckets compare equal.\<close>

fun insert_by :: "('a \<Rightarrow> 'a \<Rightarrow> bool) \<Rightarrow> 'a \<Rightarrow> 'a list \<Rightarrow> 'a list" where
  "insert_by lt x [] = [x]"
| "insert_by lt x (y # ys) = (if lt y x then y # insert_by lt x ys else x # y # ys)"

definition sort_Slice :: "('a \<Rightarrow> 'a \<Rightarrow> bool) \<Rightarrow> 'a list \<Rightarrow> 'a list" where
  "sort_Slice lt xs = foldr (insert_by lt) xs []"

definition bucket_line :: "PrometheusExporter \<Rightarrow> string \<Rightarrow> string \<Rightarrow> int \<Rightarrow> string" where
  "bucket_line e name le n =
    pe_namespace e @ ''_'' @ name @ ''_bucket{le='' @ [quote] @ le @ [quote] @ ''} '' @ Itoa n @ newline"

fun cumulative_lines :: "(rat \<Rightarrow> string) \<Rightarrow> PrometheusExporter \<Rightarrow> string \<Rightarrow> int \<Rightarrow> bucket list \<Rightarrow> string" where
  "cumulative_lines fmt_g e name cumulative [] = []"
| "cumulative_lines fmt_g e name cumulative (b # bs) =
     (let c = cumulative + bk_count b
      in (if bk_le b < 0 then bucket_line e name ''+Inf'' c else bucket_line e name (fmt_g (bk_le b)) c) @
         cumulative_lines fmt_g e name c bs)"

definition writeHistogram ::
  "(rat \<Rightarrow> string) \<Rightarrow> (rat \<Rightarrow> rat) \<Rightarrow> string list \<Rightarrow> PrometheusExporter \<Rightarrow> string \<Rightarrow> (string \<rightharpoonup> int) \<Rightarrow> string" where
  "writeHistogram fmt_g rnd order e name histogram =
    (let entries = map (\<lambda>l. (l, the (histogram l))) order;
         totalCount = sum_list (map snd entries);
         buckets = sort_Slice bucket_less (concat (map (\<lambda>(l, n). parse_bucket rnd l n) entries))
     in cumulative_lines fmt_g e name 0 buckets @
        pe_namespace e @ ''_'' @ name @ ''_count '' @ Itoa totalCount @ newline)"

section \<open>Export\<close>

text \<open>A loop over a map writes one piece of text for each entry.\<close>

definition each :: "string list \<Rightarrow> (string \<rightharpoonup> 'v) \<Rightarrow> (string \<Rightarrow> 'v \<Rightarrow> string) \<Rightarrow> string" where
  "each order m f = concat (map (\<lambda>k. f k (the (m k))) order)"

abbreviation on_backend :: "string \<Rightarrow> labels" where
  "on_backend addr \<equiv> [(''backend'', addr)]"

definition export_connections :: "(rat \<Rightarrow> string) \<Rightarrow> (rat \<Rightarrow> rat) \<Rightarrow> PrometheusExporter \<Rightarrow> Snapshot \<Rightarrow> string" where
  "export_connections fmt_g rnd e snap =
    writeHelp e ''connections_total'' ''Total TCP connections received'' @
    writeType e ''connections_total'' ''counter'' @
    writeMetric e ''connections_total'' [] (sn_ConnectionsTotal snap) @
    writeHelp e ''connections_active'' ''Currently active TCP connections'' @
    writeType e ''connections_active'' ''gauge'' @
    writeMetric e ''connections_active'' [] (sn_ConnectionsActive snap) @
    writeHelp e ''connection_duration_seconds_total'' ''Total time spent in connections'' @
    writeType e ''connection_duration_seconds_total'' ''counter'' @
    writeMetricFloat fmt_g e ''connection_duration_seconds_total'' []
      (rnd (rnd (rnd (of_int (sn_ConnectionsTotal snap)) * sn_AvgConnectionMs snap) / 1000))"

definition export_requests :: "PrometheusExporter \<Rightarrow> Snapshot \<Rightarrow> string" where
  "export_requests e snap =
    writeHelp e ''requests_total'' ''Total requests processed'' @
    writeType e ''requests_total'' ''counter'' @
    writeMetric e ''requests_total'' [(''status'', ''success'')] (sn_RequestsSuccess snap) @
    writeMetric e ''requests_total'' [(''status'', ''failure'')] (sn_RequestsFailures snap)"

definition export_backends ::
  "(rat \<Rightarrow> string) \<Rightarrow> (rat \<Rightarrow> rat) \<Rightarrow> (nat \<Rightarrow> string list) \<Rightarrow> PrometheusExporter \<Rightarrow> Snapshot \<Rightarrow> string" where
  "export_backends fmt_g rnd ord e snap =
    writeHelp e ''backend_requests_total'' ''Total requests per backend'' @
    writeType e ''backend_requests_total'' ''counter'' @
    each (ord 0) (sn_Backends snap) (\<lambda>addr bs.
      writeMetric e ''backend_requests_total'' [(''backend'', addr), (''status'', ''success'')] (bs_RequestsSuccess bs) @
      writeMetric e ''backend_requests_total'' [(''backend'', addr), (''status'', ''failure'')] (bs_RequestsFailed bs)) @
    writeHelp e ''backend_bytes_sent_total'' ''Total bytes sent to backends'' @
    writeType e ''backend_bytes_sent_total'' ''counter'' @
    each (ord 1) (sn_Backends snap) (\<lambda>addr bs. writeMetric e ''backend_bytes_sent_total'' (on_backend addr) (bs_BytesSent bs)) @
    writeHelp e ''backend_bytes_received_total'' ''Total bytes received from backends'' @
    writeType e ''backend_bytes_received_total'' ''counter'' @
    each (ord 2) (sn_Backends snap) (\<lambda>addr bs. writeMetric e ''backend_bytes_received_total'' (on_backend addr) (bs_BytesReceived bs)) @
    writeHelp e ''backend_latency_seconds'' ''Average backend latency in seconds'' @
    writeType e ''backend_latency_seconds'' ''gauge'' @
    each (ord 3) (sn_Backends snap) (\<lambda>addr bs.
      writeMetricFloat fmt_g e ''backend_latency_seconds'' (on_backend addr) (rnd (bs_AvgLatencyMs bs / 1000)))"

definition export_health :: "(nat \<Rightarrow> string list) \<Rightarrow> PrometheusExporter \<Rightarrow> string" where
  "export_health ord e =
    (case pe_backendHealth e of
       None \<Rightarrow> []
     | Some healthMap \<Rightarrow>
         writeHelp e ''backend_health'' ''Backend health status (1=healthy, 0=unhealthy)'' @
         writeType e ''backend_health'' ''gauge'' @
         each (ord 5) healthMap (\<lambda>addr healthy. writeMetric e ''backend_health'' (on_backend addr) (if healthy then 1 else 0)))"

definition export_breakers :: "(nat \<Rightarrow> string list) \<Rightarrow> PrometheusExporter \<Rightarrow> string" where
  "export_breakers ord e =
    (case pe_circuitBreakers e of
       None \<Rightarrow> []
     | Some cbMap \<Rightarrow>
         writeHelp e ''circuit_breaker_state'' ''Circuit breaker state (0=closed, 1=open, 2=half_open)'' @
         writeType e ''circuit_breaker_state'' ''gauge'' @
         each (ord 6) cbMap (\<lambda>addr st. writeMetric e ''circuit_breaker_state'' (on_backend addr) st))"

definition export_limiter :: "PrometheusExporter \<Rightarrow> string" where
  "export_limiter e =
    (case pe_rateLimiterStats e of
       None \<Rightarrow> []
     | Some (allowed, rejected) \<Rightarrow>
         writeHelp e ''rate_limiter_requests_total'' ''Rate limiter request counts'' @
         writeType e ''rate_limiter_requests_total'' ''counter'' @
         writeMetric e ''rate_limiter_requests_total'' [(''result'', ''allowed'')] allowed @
         writeMetric e ''rate_limiter_requests_total'' [(''result'', ''rejected'')] rejected)"

definition export_pools :: "(nat \<Rightarrow> string list) \<Rightarrow> PrometheusExporter \<Rightarrow> string" where
  "export_pools ord e =
    (case pe_poolStats e of
       None \<Rightarrow> []
     | Some poolMap \<Rightarrow>
         (if poolMap = Map.empty then []
          else
            writeHelp e ''pool_hits_total'' ''Connection pool cache hits'' @
            writeType e ''pool_hits_total'' ''counter'' @
            each (ord 7) poolMap (\<lambda>addr ps. writeMetric e ''pool_hits_total'' (on_backend addr) (ps_Hits ps)) @
            writeHelp e ''pool_misses_total'' ''Connection pool cache misses'' @
            writeType e ''pool_misses_total'' ''counter'' @
            each (ord 8) poolMap (\<lambda>addr ps. writeMetric e ''pool_misses_total'' (on_backend addr) (ps_Misses ps)) @
            writeHelp e ''pool_size'' ''Current connection pool size'' @
            writeType e ''pool_size'' ''gauge'' @
            each (ord 9) poolMap (\<lambda>addr ps. writeMetric e ''pool_size'' (on_backend addr) (ps_Size ps))))"

definition Export ::
  "(rat \<Rightarrow> string) \<Rightarrow> (rat \<Rightarrow> rat) \<Rightarrow> (nat \<Rightarrow> string list) \<Rightarrow> go_time \<Rightarrow> Collector \<Rightarrow> PrometheusExporter \<Rightarrow> string" where
  "Export fmt_g rnd ord now c e =
    (let snap = mc_Snapshot rnd now c
     in export_connections fmt_g rnd e snap @
        export_requests e snap @
        export_backends fmt_g rnd ord e snap @
        writeHelp e ''request_duration_seconds'' ''Request duration histogram'' @
        writeType e ''request_duration_seconds'' ''histogram'' @
        writeHistogram fmt_g rnd (ord 4) e ''request_duration_seconds'' (sn_LatencyHistogram snap) @
        writeHelp e ''uptime_seconds'' ''Time since proxy started'' @
        writeType e ''uptime_seconds'' ''gauge'' @
        writeMetricFloat fmt_g e ''uptime_seconds'' [] (Seconds rnd (sn_Uptime snap)) @
        export_health ord e @
        export_breakers ord e @
        export_limiter e @
        export_pools ord e)"

section \<open>Escaping\<close>

text \<open>The value as the exposition format reads it: up to the first quote that no backslash
  precedes, with the three escapes undone.\<close>

fun read_label :: "string \<Rightarrow> (string \<times> string) option" where
  "read_label [] = None"
| "read_label (c # s) =
     (if c = quote then Some ([], s)
      else if c = CHR 0x0A then None
      else if c = backslash then
        (case s of
           [] \<Rightarrow> None
         | d # s' \<Rightarrow>
             (if d = backslash \<or> d = quote then map_option (apfst (Cons d)) (read_label s')
              else if d = CHR ''n'' then map_option (apfst (Cons CHR 0x0A)) (read_label s')
              else None))
      else map_option (apfst (Cons c)) (read_label s))"

definition escape_char :: "char \<Rightarrow> string" where
  "escape_char c =
    (if c = backslash then [backslash, backslash] else if c = quote then [backslash, quote]
     else if c = CHR 0x0A then [backslash, CHR ''n''] else [c])"

text \<open>The three passes are one: the order of the code, backslashes first, is what makes it so.\<close>

lemma escape_one_pass: "escapeLabelValue s = concat (map escape_char s)"
  by (induction s) (simp_all add: escapeLabelValue_def ReplaceAll_def escape_char_def Let_def)

lemma escape_no_newline: "CHR 0x0A \<notin> set (escapeLabelValue s)"
  by (induction s) (simp_all add: escape_one_pass escape_char_def)

text \<open>Escaping loses nothing and contains the value: a reader of the exposition format that
  stands behind the opening quote of a label reads back exactly the string that was written and
  stops at the closing quote, whatever characters an address holds.\<close>

theorem escapeLabelValue_roundtrip:
  "read_label (escapeLabelValue s @ quote # rest) = Some (s, rest)"
  by (induction s) (simp_all add: escape_one_pass escape_char_def)

section \<open>Lines of the export\<close>

text \<open>A text is a list of lines, each a comment or a sample of this namespace.\<close>

definition line_ok :: "string \<Rightarrow> bool" where
  "line_ok l \<longleftrightarrow> CHR 0x0A \<notin> set l \<and> (prefix ''# '' l \<or> prefix ''sluice_'' l)"

definition text_ok :: "string \<Rightarrow> bool" where
  "text_ok t \<longleftrightarrow> (\<exists>ls. t = concat (map (\<lambda>l. l @ newline) ls) \<and> (\<forall>l \<in> set ls. line_ok l))"

named_theorems text_ok_intros

lemma text_ok_Nil [text_ok_intros]: "text_ok []"
  unfolding text_ok_def by (rule exI [of _ "[]"]) simp

lemma text_ok_append [text_ok_intros]:
  assumes "text_ok s" and "text_ok t"
  shows "text_ok (s @ t)"
proof -
  obtain ls ms where "s = concat (map (\<lambda>l. l @ newline) ls)" "t = concat (map (\<lambda>l. l @ newline) ms)"
    "\<forall>l \<in> set ls. line_ok l" "\<forall>l \<in> set ms. line_ok l" using assms unfolding text_ok_def by blast
  then show ?thesis unfolding text_ok_def by (intro exI [of _ "ls @ ms"]) auto
qed

lemma text_ok_line: "line_ok l \<Longrightarrow> text_ok (l @ newline)"
  unfolding text_ok_def by (rule exI [of _ "[l]"]) simp

lemma text_ok_each [text_ok_intros]: "(\<And>k v. text_ok (f k v)) \<Longrightarrow> text_ok (each order m f)"
  unfolding each_def by (induction order) (simp_all add: text_ok_Nil text_ok_append)

definition clean :: "string \<Rightarrow> bool" where
  "clean s \<longleftrightarrow> CHR 0x0A \<notin> set s"

lemma clean_simps [simp]:
  "clean []" "clean (c # s) \<longleftrightarrow> c \<noteq> CHR 0x0A \<and> clean s" "clean (s @ t) \<longleftrightarrow> clean s \<and> clean t"
  by (auto simp: clean_def)

lemma clean_Itoa [simp]: "clean (Itoa i)"
  using Itoa_range [of i] by (auto simp: clean_def decimal_def)

lemma clean_join: "\<forall>x \<in> set xs. clean x \<Longrightarrow> clean sep \<Longrightarrow> clean (join sep xs)"
  by (induction sep xs rule: join.induct) auto

lemma clean_formatLabels [simp]:
  assumes "\<forall>l \<in> fst ` set ls. clean l"
  shows "clean (formatLabels ls)"
proof -
  have "clean (label_pair ls k)" if "k \<in> fst ` set ls" for k
    using bspec [OF assms that] escape_no_newline by (simp add: label_pair_def clean_def [of "escapeLabelValue _"])
  then have "clean (join '','' (map (label_pair ls) (sort (map fst ls))))" by (intro clean_join) auto
  then show ?thesis by (simp add: formatLabels_def Let_def)
qed

lemma text_ok_writes [text_ok_intros]:
  assumes "pe_namespace e = ''sluice''" and "clean name"
  shows "clean help \<Longrightarrow> text_ok (writeHelp e name help)" and "clean help \<Longrightarrow> text_ok (writeType e name help)"
    and "\<forall>l \<in> fst ` set ls. clean l \<Longrightarrow> text_ok (writeMetric e name ls v)"
    and "\<forall>l \<in> fst ` set ls. clean l \<Longrightarrow> clean (fmt_g x) \<Longrightarrow> text_ok (writeMetricFloat fmt_g e name ls x)"
    and "clean help \<Longrightarrow> text_ok (bucket_line e name help v)"
    and "text_ok (pe_namespace e @ ''_'' @ name @ ''_count '' @ Itoa v @ newline)"
  using assms text_ok_line [of "''# HELP sluice_'' @ name @ '' '' @ help"] text_ok_line [of "''# TYPE sluice_'' @ name @ '' '' @ help"]
    text_ok_line [of "''sluice_'' @ name @ formatLabels ls @ '' '' @ Itoa v"]
    text_ok_line [of "''sluice_'' @ name @ formatLabels ls @ '' '' @ fmt_g x"]
    text_ok_line [of "''sluice_'' @ name @ ''_bucket{le='' @ [quote] @ help @ [quote] @ ''} '' @ Itoa v"]
    text_ok_line [of "''sluice_'' @ name @ ''_count '' @ Itoa v"]
  by (simp_all add: writeHelp_def writeType_def writeMetric_def writeMetricFloat_def bucket_line_def
      line_ok_def clean_def [symmetric])

lemma text_ok_cumulative [text_ok_intros]:
  assumes "pe_namespace e = ''sluice''" and "clean name" and "\<And>v. clean (fmt_g v)"
  shows "text_ok (cumulative_lines fmt_g e name n bs)"
  using assms by (induction bs arbitrary: n) (auto simp: Let_def intro!: text_ok_intros)

text \<open>C34: nothing a backend address contains can break the export into lines of its own: whatever
  the addresses, the counters and the visiting orders, the text is a sequence of complete lines
  each of which is a comment or a sample of the \<^verbatim>\<open>sluice\<close> namespace.\<close>

theorem Export_lines:
  assumes "\<And>v. CHR 0x0A \<notin> set (fmt_g v)" and "pe_namespace e = ''sluice''"
  shows "\<exists>ls. Export fmt_g rnd ord now c e = concat (map (\<lambda>l. l @ newline) ls) \<and>
    (\<forall>l \<in> set ls. CHR 0x0A \<notin> set l \<and> (prefix ''# '' l \<or> prefix ''sluice_'' l))"
proof -
  have fmt: "clean (fmt_g v)" for v using assms(1) by (simp add: clean_def)
  have "text_ok (export_connections fmt_g rnd e s)" "text_ok (export_requests e s)"
    "text_ok (export_backends fmt_g rnd ord e s)" for s
    using assms(2) by (simp_all add: export_connections_def export_requests_def export_backends_def text_ok_intros fmt)
  moreover have "text_ok (export_health ord e)" "text_ok (export_breakers ord e)" "text_ok (export_limiter e)" "text_ok (export_pools ord e)"
    using assms(2) by (simp_all add: export_health_def export_breakers_def export_limiter_def export_pools_def text_ok_intros split: option.split)
  moreover have "text_ok (writeHistogram fmt_g rnd order e ''request_duration_seconds'' h)" for order h
    unfolding writeHistogram_def Let_def
    by (intro text_ok_append text_ok_cumulative text_ok_writes(6)) (simp_all add: assms(2) fmt)
  ultimately have "text_ok (Export fmt_g rnd ord now c e)"
    using assms(2) by (simp add: Export_def Let_def text_ok_intros fmt)
  then show ?thesis unfolding text_ok_def line_ok_def .
qed

theorem Export_lines_witness:
  "\<exists>ls. Export (\<lambda>_. ''0'') id (\<lambda>_. [''a'' @ newline @ ''b'']) 0 (NewCollector 0) NewPrometheusExporter = concat (map (\<lambda>l. l @ newline) ls)"
  using Export_lines [of "\<lambda>_. ''0''" NewPrometheusExporter id "\<lambda>_. [''a'' @ newline @ ''b'']" 0 "NewCollector 0"]
  by (auto simp: NewPrometheusExporter_def)

section \<open>The histogram is cumulative\<close>

lemma insert_by_key:
  assumes "\<And>a b. lt a b \<longleftrightarrow> key a < (key b :: 'k::linorder)"
  shows "insert_by lt x ys = insort_key key x ys"
  by (induction ys) (auto simp: assms)

lemma sort_Slice_key:
  assumes "\<And>a b. lt a b \<longleftrightarrow> key a < (key b :: 'k::linorder)"
  shows "sort_Slice lt xs = sort_key key xs"
  unfolding sort_Slice_def by (induction xs) (simp_all add: insert_by_key [OF assms])

text \<open>Sorting by a key that separates the elements forgets the order of the input.\<close>

lemma sort_key_unique:
  fixes key :: "'a \<Rightarrow> 'k::linorder"
  assumes "distinct (map key ys)" and "sorted (map key ys)" and "mset xs = mset ys"
  shows "sort_key key xs = ys"
proof -
  have "mset (map key (sort_key key xs)) = mset (map key ys)" by (simp add: assms(3))
  moreover have "sorted (map key (sort_key key xs))" by simp
  ultimately have "map key (sort_key key xs) = map key ys"
    using assms(2) by (metis properties_for_sort)
  then show ?thesis
    using map_inj_on [of key "sort_key key xs" ys] assms(1,3) mset_eq_setD [OF assms(3)]
    by (simp add: distinct_map)
qed

text \<open>The position of a bucket: overflow last, then by boundary.\<close>

definition bucket_key :: "bucket \<Rightarrow> bool \<times> rat" where
  "bucket_key b = (if bk_le b < 0 then (True, 0) else (False, bk_le b))"

lemma bucket_less_key: "bucket_less a b \<longleftrightarrow> bucket_key a < bucket_key b"
  by (auto simp: bucket_less_def bucket_key_def less_prod_def)

definition le_bounds :: "(rat \<Rightarrow> rat) \<Rightarrow> rat list" where
  "le_bounds rnd = map (\<lambda>b. rnd (b / 1000)) [1, 5, 10, 25, 50, 100, 250, 500] @ [1, 5]"

text \<open>What the export relies on: division by 1000 keeps the ten boundaries apart.\<close>

definition bounds_kept :: "(rat \<Rightarrow> rat) \<Rightarrow> bool" where
  "bounds_kept rnd \<longleftrightarrow> sorted_wrt (<) (le_bounds rnd) \<and> 0 \<le> rnd (1 / 1000)"

definition canonical_buckets :: "(rat \<Rightarrow> rat) \<Rightarrow> (nat \<Rightarrow> int) \<Rightarrow> bucket list" where
  "canonical_buckets rnd n =
    map (\<lambda>i. \<lparr>bk_le = le_bounds rnd ! i, bk_count = n i, bk_label = []\<rparr>) [0..<10] @
    [\<lparr>bk_le = -1, bk_count = n 10, bk_label = ''+Inf''\<rparr>]"

definition histogram_labels :: "string list" where
  "histogram_labels = map (\<lambda>b. ''<='' @ formatMs b) default_buckets @ [''>'' @ formatMs 5000]"

lemma histogram_labels_eq:
  "histogram_labels = [''<=001ms'', ''<=005ms'', ''<=010ms'', ''<=025ms'', ''<=050ms'', ''<=100ms'', ''<=250ms'', ''<=500ms'',
     ''<=1s'', ''<=5s'', ''>5s'']"
  by (simp add: histogram_labels_def default_buckets_def formatMs_def digit_char_def go_div_def go_rem_def char_of_def bit_0)

lemma parse_labels:
  "concat (map (\<lambda>i. parse_bucket rnd (histogram_labels ! i) (n i)) [0..<11]) = canonical_buckets rnd n"
  by (simp add: histogram_labels_eq canonical_buckets_def le_bounds_def parse_bucket_def HasPrefix_def HasSuffix_def
      TrimPrefix_def TrimSuffix_def suffix_to_prefix scan_float_def decimal_def Let_def upt_rec_numeral numeral_eq_Suc)

lemma histogram_entries_eq:
  assumes "c = foldl mc_step (NewCollector t0) es"
  shows "histogram_entries c = map (\<lambda>i. (histogram_labels ! i, sint (latencyBuckets c ! i))) [0..<11]"
proof -
  have c: "length (latencyBuckets c) = 11" "latencyBucketMs c = default_buckets"
    using assms by (simp_all add: collector_log collector_of_def)
  have "[0..<11] = [0..<10] @ [10 :: nat]" using upt_Suc_append [of 0 10] by (simp del: upt_rec_numeral)
  moreover have "length default_buckets = 10" "default_buckets ! 9 = 5000" by (simp_all add: default_buckets_def)
  ultimately show ?thesis by (simp add: histogram_entries_def c histogram_labels_def nth_append del: upt_rec_numeral)
qed

lemma shown_labels_distinct: "distinct histogram_labels" and histogram_labels_length: "length histogram_labels = 11"
  by (simp_all add: histogram_labels_eq)

lemma snapshot_histogram:
  assumes "c = foldl mc_step (NewCollector t0) es" and "h = sn_LatencyHistogram (mc_Snapshot rnd now c)"
  shows "dom h = set histogram_labels" and "i < 11 \<Longrightarrow> h (histogram_labels ! i) = Some (sint (latencyBuckets c ! i))"
proof -
  let ?ents = "map (\<lambda>i. (histogram_labels ! i, sint (latencyBuckets c ! i))) [0..<11]"
  have fst: "map fst ?ents = histogram_labels"
    using histogram_labels_length by (intro nth_equalityI) (simp_all del: upt_rec_numeral)
  have h: "h = map_of (rev ?ents)"
    using assms(2) by (simp add: mc_Snapshot_def Let_def histogram_entries_eq [OF assms(1)] del: upt_rec_numeral)
  have dist: "distinct (map fst ?ents)" unfolding fst by (rule shown_labels_distinct)
  have "set (map fst (rev ?ents)) = set histogram_labels" unfolding rev_map [symmetric] fst by simp
  then show "dom h = set histogram_labels" unfolding h dom_map_of_conv_image_fst set_map .
  assume i: "i < 11"
  have "(histogram_labels ! i, sint (latencyBuckets c ! i)) \<in> set (rev ?ents)" using i by force
  moreover have "distinct (map fst (rev ?ents))" using dist unfolding rev_map [symmetric] by (simp only: distinct_rev)
  ultimately show "h (histogram_labels ! i) = Some (sint (latencyBuckets c ! i))"
    unfolding h by (rule map_of_is_SomeI [rotated])
qed

lemma bounds_nonneg:
  assumes "bounds_kept rnd" and "i < 10"
  shows "0 \<le> le_bounds rnd ! i"
proof -
  have sorted: "sorted_wrt (<) (le_bounds rnd)" and "0 \<le> le_bounds rnd ! 0" and "length (le_bounds rnd) = 10"
    using assms by (simp_all add: bounds_kept_def le_bounds_def)
  then show ?thesis using sorted_wrt_nth_less [OF sorted, of 0 i] assms(2) by (cases "i = 0") auto
qed

lemma canonical_key:
  assumes "bounds_kept rnd"
  shows "sorted_wrt (<) (map bucket_key (canonical_buckets rnd n))"
proof -
  have len: "length (le_bounds rnd) = 10" by (simp add: le_bounds_def)
  have sorted: "sorted_wrt (<) (le_bounds rnd)" using assms by (simp add: bounds_kept_def)
  have "map bucket_key (canonical_buckets rnd n) = map (Pair False) (le_bounds rnd) @ [(True, 0)]"
    using bounds_nonneg [OF assms]
    by (intro nth_equalityI) (auto simp: canonical_buckets_def bucket_key_def len nth_append not_less not_le [symmetric] simp del: upt_rec_numeral)
  then show ?thesis using sorted by (simp add: sorted_wrt_append sorted_wrt_map less_prod_def)
qed

lemma cumulative_append:
  "cumulative_lines fmt_g e name k (xs @ ys) =
    cumulative_lines fmt_g e name k xs @ cumulative_lines fmt_g e name (k + sum_list (map bk_count xs)) ys"
  by (induction xs arbitrary: k) (simp_all add: Let_def add.assoc)

lemma cumulative_upt:
  assumes "\<And>i. i < m \<Longrightarrow> 0 \<le> f i"
  shows "cumulative_lines fmt_g e name 0 (map (\<lambda>i. \<lparr>bk_le = f i, bk_count = n i, bk_label = []\<rparr>) [0..<m]) =
    concat (map (\<lambda>i. bucket_line e name (fmt_g (f i)) (\<Sum>j\<le>i. n j)) [0..<m])"
  using assms
proof (induction m)
  case (Suc m)
  have "sum_list (map n [0..<m]) + n m = (\<Sum>j\<le>m. n j)"
    by (simp add: sum_list_upt [symmetric] interv_sum_list_conv_sum_set_nat atLeast0LessThan lessThan_Suc_atMost [symmetric])
  moreover have "\<not> f m < 0" using Suc.prems [of m] by simp
  ultimately show ?case using Suc by (simp add: cumulative_append Let_def comp_def)
qed simp

lemma mset_concat_map: "mset xs = mset ys \<Longrightarrow> mset (concat (map f xs)) = mset (concat (map f ys))"
  by (simp add: mset_concat sum_mset_sum_list [symmetric] comp_def)

lemma sorted_buckets:
  assumes "bounds_kept rnd" and "distinct order" and "set order = set histogram_labels"
    and "\<And>i. i < 11 \<Longrightarrow> h (histogram_labels ! i) = Some (n i)"
  shows "sort_Slice bucket_less (concat (map (\<lambda>l. parse_bucket rnd l (the (h l))) order)) = canonical_buckets rnd n"
proof -
  have "mset order = mset histogram_labels"
    using assms(2,3) shown_labels_distinct by (simp add: set_eq_iff_mset_eq_distinct)
  then have "mset (concat (map (\<lambda>l. parse_bucket rnd l (the (h l))) order)) =
      mset (concat (map (\<lambda>l. parse_bucket rnd l (the (h l))) histogram_labels))"
    by (rule mset_concat_map)
  also have "map (\<lambda>l. parse_bucket rnd l (the (h l))) histogram_labels =
      map (\<lambda>i. parse_bucket rnd (histogram_labels ! i) (n i)) [0..<11]"
    using histogram_labels_length by (intro nth_equalityI) (simp_all add: assms(4) del: upt_rec_numeral)
  finally have "mset (concat (map (\<lambda>l. parse_bucket rnd l (the (h l))) order)) = mset (canonical_buckets rnd n)"
    unfolding parse_labels .
  then show ?thesis unfolding sort_Slice_key [OF bucket_less_key]
    using canonical_key [OF assms(1), of n] by (intro sort_key_unique) (simp_all add: strict_sorted_iff)
qed

text \<open>Whatever the order in which the map of buckets is visited, the exported histogram lists
  the ten boundaries in increasing order, each with the number of latencies counted in its
  bucket and all smaller ones, then \<^verbatim>\<open>+Inf\<close> and the count, which are both the number of
  all latencies, as the exposition format requires.\<close>

theorem writeHistogram_cumulative:
  assumes "c = foldl mc_step (NewCollector t0) es" and "h = sn_LatencyHistogram (mc_Snapshot rnd now c)"
    and "bounds_kept rnd" and "distinct order" and "set order = dom h"
  shows "writeHistogram fmt_g rnd order e name h =
    concat (map (\<lambda>i. bucket_line e name (fmt_g (le_bounds rnd ! i)) (\<Sum>j\<le>i. sint (latencyBuckets c ! j))) [0..<10]) @
    bucket_line e name ''+Inf'' (\<Sum>j\<le>10. sint (latencyBuckets c ! j)) @
    pe_namespace e @ ''_'' @ name @ ''_count '' @ Itoa (\<Sum>j\<le>10. sint (latencyBuckets c ! j)) @ newline"
proof -
  define n where "n i = sint (latencyBuckets c ! i)" for i
  note hist = snapshot_histogram [OF assms(1,2), folded n_def]
  have order: "set order = set histogram_labels" using assms(5) hist(1) by simp
  have sorted: "sort_Slice bucket_less (concat (map (\<lambda>l. parse_bucket rnd l (the (h l))) order)) = canonical_buckets rnd n"
    using assms(3,4) order hist(2) by (rule sorted_buckets)
  have "sum_list (map (\<lambda>l. the (h l)) order) = sum (\<lambda>l. the (h l)) (set histogram_labels)"
    using assms(4) order by (simp add: sum_list_distinct_conv_sum_set)
  also have "\<dots> = sum_list (map (\<lambda>l. the (h l)) histogram_labels)"
    using shown_labels_distinct by (simp add: sum_list_distinct_conv_sum_set)
  also have "map (\<lambda>l. the (h l)) histogram_labels = map n [0..<11]"
    using histogram_labels_length by (intro nth_equalityI) (simp_all add: hist(2) del: upt_rec_numeral)
  also have "sum_list (map n [0..<11]) = (\<Sum>j\<le>10. n j)"
    by (simp add: interv_sum_list_conv_sum_set_nat atLeast0LessThan lessThan_Suc_atMost [symmetric] del: upt_rec_numeral)
  finally have total: "sum_list (map (\<lambda>l. the (h l)) order) = (\<Sum>j\<le>10. n j)" .
  have nonneg: "0 \<le> le_bounds rnd ! i" if "i < 10" for i
    using bounds_nonneg [OF assms(3) that] .
  have "(\<Sum>j<10. n j) + n 10 = (\<Sum>j\<le>10. n j)" using sum.lessThan_Suc [of n 10] lessThan_Suc_atMost [of 10] by simp
  then have "cumulative_lines fmt_g e name 0 (canonical_buckets rnd n) =
      concat (map (\<lambda>i. bucket_line e name (fmt_g (le_bounds rnd ! i)) (\<Sum>j\<le>i. n j)) [0..<10]) @
      bucket_line e name ''+Inf'' (\<Sum>j\<le>10. n j)"
    using cumulative_upt [of 10 "\<lambda>i. le_bounds rnd ! i" fmt_g e name n] nonneg
    unfolding canonical_buckets_def cumulative_append
    by (simp add: comp_def interv_sum_list_conv_sum_set_nat atLeast0LessThan Let_def del: upt_rec_numeral)
  then show ?thesis
    by (simp add: writeHistogram_def Let_def comp_def sorted total n_def del: upt_rec_numeral)
qed

text \<open>Exact arithmetic keeps the boundaries apart.\<close>

lemma bounds_kept_id: "bounds_kept id"
  by (simp add: bounds_kept_def le_bounds_def)

theorem writeHistogram_cumulative_witness:
  "\<exists>t. writeHistogram (\<lambda>_. ''x'') id (rev histogram_labels) NewPrometheusExporter ''d''
      (sn_LatencyHistogram (mc_Snapshot id 0 (RecordRequest ''a'' True 7000000 0 0 (NewCollector 0)))) =
    t @ bucket_line NewPrometheusExporter ''d'' ''+Inf'' 1 @ ''sluice_d_count '' @ Itoa 1 @ newline"
proof -
  let ?c = "foldl mc_step (NewCollector 0) [OpRequest ''a'' True 7000000 0 0]"
  have "dom (sn_LatencyHistogram (mc_Snapshot id 0 ?c)) = set histogram_labels"
    by (rule snapshot_histogram) (rule refl)+
  moreover have "(\<Sum>j\<le>10. sint (latencyBuckets ?c ! j)) =
      (\<Sum>j\<le>10. if find_bucket (Milliseconds 7000000) 0 default_buckets = j then 1 else 0)"
    by (rule sum.cong)
      (simp_all add: collector_log since_reset_def collector_of_def requests_def in_bucket_def del: upt_rec_numeral foldl_Cons foldl_Nil)
  moreover have "find_bucket (Milliseconds 7000000) 0 default_buckets \<le> 10"
    using find_bucket_le [of "Milliseconds 7000000" 0 default_buckets] by (simp add: default_buckets_def)
  ultimately show ?thesis
    using writeHistogram_cumulative [of ?c 0 "[OpRequest ''a'' True 7000000 0 0]" _ id 0 "rev histogram_labels" "\<lambda>_. ''x''" NewPrometheusExporter "''d''",
        OF refl refl bounds_kept_id] shown_labels_distinct
    by (simp add: NewPrometheusExporter_def)
qed

end
