(* ===== verification/Gateway.thy ===== *)
theory Gateway
  imports LoadBalancer CircuitBreaker RateLimiter Metrics
begin

text \<open>
  The objects that \<^verbatim>\<open>cmd/sluice/main.go\<close> creates once and hands to both proxies, and
  the table of circuit breakers that each proxy keeps for itself (the same code in
  \<^verbatim>\<open>internal/proxy/tcp.go\<close> and \<^verbatim>\<open>internal/proxy/http.go\<close>).
\<close>

section \<open>Shared objects\<close>

text \<open>A proxy holds pointers to the load balancer, the token bucket and the collector; the
  objects themselves are here, and a proxy records which of its pointers are nil.\<close>

record gateway =
  gw_heap :: heap
  gw_lb :: LoadBalancer
  gw_limiter :: TokenBucket
  gw_metrics :: Collector

definition gw_record :: "bool \<Rightarrow> (Collector \<Rightarrow> Collector) \<Rightarrow> gateway \<Rightarrow> gateway" where
  "gw_record enabled f g = (if enabled then g\<lparr>gw_metrics := f (gw_metrics g)\<rparr> else g)"

lemma gw_record_sel [simp]:
  "gw_heap (gw_record e f g) = gw_heap g" "gw_lb (gw_record e f g) = gw_lb g"
  "gw_limiter (gw_record e f g) = gw_limiter g"
  "gw_metrics (gw_record e f g) = (if e then f (gw_metrics g) else gw_metrics g)"
  by (simp_all add: gw_record_def)

section \<open>The breaker table\<close>

text \<open>\<^verbatim>\<open>circuitBreakers\<close> is nil when breakers are disabled. Entries are created on first
  use and never replaced, so a pointer to a breaker and its address in the table are the same
  thing.\<close>

record breakers =
  bk_map :: "(string \<rightharpoonup> CircuitBreaker) option"
  bk_config :: cb_Config

definition no_breakers :: breakers where
  "no_breakers = \<lparr>bk_map = None, bk_config = \<lparr>FailureThreshold = 0, SuccessThreshold = 0,
     MaxHalfOpenRequests = 0, Timeout = 0, Window = 0\<rparr>\<rparr>"

definition getCircuitBreaker :: "go_time \<Rightarrow> string \<Rightarrow> breakers \<Rightarrow> CircuitBreaker option \<times> breakers" where
  "getCircuitBreaker now addr t =
    (case bk_map t of
       None \<Rightarrow> (None, t)
     | Some m \<Rightarrow>
         (case m addr of
            Some cb \<Rightarrow> (Some cb, t)
          | None \<Rightarrow> (let cb = cb_New (bk_config t) now in (Some cb, t\<lparr>bk_map := Some (m(addr \<mapsto> cb))\<rparr>))))"

definition put_breaker :: "string \<Rightarrow> CircuitBreaker \<Rightarrow> breakers \<Rightarrow> breakers" where
  "put_breaker addr cb t = t\<lparr>bk_map := map_option (\<lambda>m. m(addr \<mapsto> cb)) (bk_map t)\<rparr>"

text \<open>\<^verbatim>\<open>cb := p.getCircuitBreaker(addr); if cb != nil { err := cb.Allow() }\<close>\<close>

definition allow_through :: "go_time \<Rightarrow> go_time \<Rightarrow> string \<Rightarrow> breakers \<Rightarrow> cb_error option \<times> breakers" where
  "allow_through created now addr t =
    (case getCircuitBreaker created addr t of
       (None, t1) \<Rightarrow> (None, t1)
     | (Some cb, t1) \<Rightarrow> (let (err, cb') = cb_Allow now cb in (err, put_breaker addr cb' t1)))"

text \<open>\<^verbatim>\<open>if cb != nil { cb.RecordResult(err) }\<close>\<close>

definition report_to :: "go_time \<Rightarrow> 'e option \<Rightarrow> string \<Rightarrow> breakers \<Rightarrow> breakers" where
  "report_to now err addr t =
    (case bk_map t of
       None \<Rightarrow> t
     | Some m \<Rightarrow> (case m addr of None \<Rightarrow> t | Some cb \<Rightarrow> put_breaker addr (cb_RecordResult now err cb) t))"

definition CircuitBreakerStates :: "breakers \<Rightarrow> (string \<rightharpoonup> int) option" where
  "CircuitBreakerStates t = map_option (\<lambda>m a. map_option (\<lambda>cb. State_int (cb_State cb)) (m a)) (bk_map t)"

section \<open>What the table keeps\<close>

definition breaker_at :: "breakers \<Rightarrow> string \<Rightarrow> CircuitBreaker option" where
  "breaker_at t addr = Option.bind (bk_map t) (\<lambda>m. m addr)"

lemma breaker_at_put [simp]:
  "breaker_at (put_breaker addr cb t) a = (if a = addr \<and> bk_map t \<noteq> None then Some cb else breaker_at t a)"
  by (cases "bk_map t") (auto simp: breaker_at_def put_breaker_def)

lemma breaker_at_disabled [simp]: "bk_map t = None \<Longrightarrow> breaker_at t a = None"
  by (simp add: breaker_at_def)

lemma breakers_frame [simp]:
  "bk_config (put_breaker addr cb t) = bk_config t" "(bk_map (put_breaker addr cb t) = None) = (bk_map t = None)"
  by (simp_all add: put_breaker_def)

text \<open>The breaker a call meets: the entry, or a new one.\<close>

definition breaker_or_new :: "go_time \<Rightarrow> breakers \<Rightarrow> string \<Rightarrow> CircuitBreaker" where
  "breaker_or_new created t addr = (case breaker_at t addr of Some cb \<Rightarrow> cb | None \<Rightarrow> cb_New (bk_config t) created)"

lemma allow_through_eq:
  assumes "allow_through created now addr t = (err, t')"
  shows "bk_config t' = bk_config t" and "bk_map t' = None \<longleftrightarrow> bk_map t = None"
    and "bk_map t = None \<Longrightarrow> err = None \<and> t' = t"
    and "bk_map t \<noteq> None \<Longrightarrow> cb_Allow now (breaker_or_new created t addr) = (err, the (breaker_at t' addr))"
    and "bk_map t \<noteq> None \<Longrightarrow> breaker_at t' addr \<noteq> None"
    and "a \<noteq> addr \<Longrightarrow> breaker_at t' a = breaker_at t a"
  using assms
  by (auto simp: allow_through_def getCircuitBreaker_def breaker_or_new_def breaker_at_def put_breaker_def Let_def
      split: option.splits prod.splits)

lemma report_to_eq:
  "bk_config (report_to now err addr t) = bk_config t"
  "bk_map (report_to now err addr t) = None \<longleftrightarrow> bk_map t = None"
  "breaker_at (report_to now err addr t) a =
    (if a = addr then map_option (cb_RecordResult now err) (breaker_at t a) else breaker_at t a)"
  by (auto simp: report_to_def breaker_at_def put_breaker_def split: option.splits)

text \<open>Every breaker in the table satisfies a property that new breakers have and calls keep.\<close>

definition all_breakers :: "(CircuitBreaker \<Rightarrow> bool) \<Rightarrow> breakers \<Rightarrow> bool" where
  "all_breakers P t \<longleftrightarrow> (\<forall>a cb. breaker_at t a = Some cb \<longrightarrow> P cb)"

locale breaker_property =
  fixes P :: "CircuitBreaker \<Rightarrow> bool" and ok :: "cb_Config \<Rightarrow> bool"
  assumes new: "ok c \<Longrightarrow> P (cb_New c now)"
    and rejected: "P cb \<Longrightarrow> cb_Allow now cb = (Some e, cb') \<Longrightarrow> P cb'"
    and settled: "P cb \<Longrightarrow> cb_Allow now cb = (None, cb') \<Longrightarrow> P (cb_RecordResult now' (err :: net_error option) cb')"
begin

lemma met:
  "all_breakers P t \<Longrightarrow> ok (bk_config t) \<Longrightarrow> P (breaker_or_new created t addr)"
  by (auto simp: all_breakers_def breaker_or_new_def new split: option.splits)

lemma rejected_all:
  assumes "all_breakers P t" and "ok (bk_config t)" and "allow_through created now addr t = (Some e, t')"
  shows "all_breakers P t'"
  unfolding all_breakers_def
proof (intro allI impI)
  fix a cb
  assume at: "breaker_at t' a = Some cb"
  note eq = allow_through_eq [OF assms(3)]
  have "bk_map t \<noteq> None" using eq(3) by auto
  then show "P cb"
    using at eq(4-6) met [OF assms(1,2), of created addr] assms(1) rejected
    by (cases "a = addr") (auto simp: all_breakers_def)
qed

lemma settled_all:
  assumes "all_breakers P t" and "ok (bk_config t)" and "allow_through created now addr t = (None, t')"
  shows "all_breakers P (report_to now' (err :: net_error option) addr t')"
  unfolding all_breakers_def
proof (intro allI impI)
  fix a cb
  assume at: "breaker_at (report_to now' err addr t') a = Some cb"
  note eq = allow_through_eq [OF assms(3)]
  show "P cb"
  proof (cases "a = addr \<and> bk_map t \<noteq> None")
    case True
    then show ?thesis
      using at eq(4,5) met [OF assms(1,2), of created addr] settled by (auto simp: report_to_eq)
  next
    case False
    then have "breaker_at t' a = breaker_at t a" using eq(3,6) by auto
    then show ?thesis using at assms(1) False by (auto simp: report_to_eq all_breakers_def split: if_splits)
  qed
qed

end

text \<open>The counters of a breaker whose callers have all reported add up.\<close>

definition cb_balanced :: "CircuitBreaker \<Rightarrow> bool" where
  "cb_balanced cb \<longleftrightarrow> cb_totalRequests cb = cb_totalSuccess cb + cb_totalFailures cb + cb_totalRejected cb"

lemma cb_totals:
  "cb_Allow now cb = (err, cb') \<Longrightarrow> cb_totalRequests cb' = cb_totalRequests cb + 1 \<and> cb_totalSuccess cb' = cb_totalSuccess cb \<and>
    cb_totalFailures cb' = cb_totalFailures cb \<and> cb_totalRejected cb' = cb_totalRejected cb + (if err = None then 0 else 1)"
  "cb_totalRequests (cb_RecordResult now res cb) = cb_totalRequests cb"
  "cb_totalRejected (cb_RecordResult now res cb) = cb_totalRejected cb"
  "cb_totalSuccess (cb_RecordResult now res cb) = cb_totalSuccess cb + (if res = None then 1 else 0)"
  "cb_totalFailures (cb_RecordResult now res cb) = cb_totalFailures cb + (if res = None then 0 else 1)"
  by (cases "cb_state cb"; auto simp: cb_op_defs split: if_splits)+

interpretation balanced: breaker_property cb_balanced "\<lambda>_. True"
  by unfold_locales (auto simp: cb_balanced_def cb_totals cb_New_def dest!: cb_totals(1))

interpretation sound: breaker_property cb_inv cb_config_ok
proof
  fix cb now e cb' and err :: "net_error option" and now' c
  show "cb_config_ok c \<Longrightarrow> cb_inv (cb_New c now)" by (rule cb_New_inv)
  show "cb_inv cb \<Longrightarrow> cb_Allow now cb = (Some e, cb') \<Longrightarrow> cb_inv cb'" using cb_Allow_inv [of cb now] by simp
  show "cb_inv cb \<Longrightarrow> cb_Allow now cb = (None, cb') \<Longrightarrow> cb_inv (cb_RecordResult now' err cb')"
    using cb_Allow_inv [of cb now] cb_RecordResult_inv by fastforce
qed

section \<open>A gateway with one pooled backend\<close>

definition sample_gateway :: gateway where
  "sample_gateway = \<lparr>gw_heap = sample_heap, gw_lb = RR (NewRoundRobin [0]), gw_limiter = NewTokenBucket id 1 1 0, gw_metrics = NewCollector 0\<rparr>"

lemma sample_gateway_next:
  "lb_Next (gw_heap sample_gateway) (gw_lb sample_gateway) = (Inr 0, RR \<lparr>rr_backends = [0], rr_counter = 1\<rparr>)"
  by (simp add: sample_gateway_def sample_defs NewRoundRobin_def rr_Next_def b_IsHealthy_def)

lemma sample_gateway_addr: "b_Addr (gw_heap sample_gateway) 0 = ''a:80''"
  by (simp add: sample_gateway_def sample_defs b_Addr_def)

end
