(* ===== verification/TCPProxy.thy ===== *)
theory TCPProxy
  imports Gateway
begin

text \<open>
  The layer-4 proxy, \<^verbatim>\<open>internal/proxy/tcp.go\<close>: the proxy and its options, one proxied
  connection from accept to close (\<^verbatim>\<open>handleConnection\<close> with both copy loops), and the life
  cycle of listener, accept loop, handlers and \<^verbatim>\<open>Stop\<close> as a step relation.
\<close>

section \<open>Data\<close>

text \<open>The pointers \<^verbatim>\<open>lb\<close>, \<^verbatim>\<open>rateLimiter\<close> and \<^verbatim>\<open>metricsCollector\<close> are non-nil
  exactly when their flag holds. A listener is absent, or open or closed; a channel that is only
  ever closed is the flag that says so; a wait group is its count.\<close>

record TCPProxy =
  tp_listenAddr :: string
  tp_lb :: bool
  tp_listener :: "bool option"
  tp_activeConns :: int
  tp_connWg :: int
  tp_running :: bool
  tp_stopped :: bool
  tp_readyClosed :: bool
  tp_doneClosed :: bool
  tp_acceptWg :: int
  tp_rateLimiter :: bool
  tp_breakers :: breakers
  tp_metrics :: bool

datatype tcp_option = WithRateLimiter | WithCircuitBreaker cb_Config | WithMetrics

fun apply_option :: "tcp_option \<Rightarrow> TCPProxy \<Rightarrow> TCPProxy" where
  "apply_option WithRateLimiter p = p\<lparr>tp_rateLimiter := True\<rparr>"
| "apply_option (WithCircuitBreaker config) p = p\<lparr>tp_breakers := \<lparr>bk_map = Some Map.empty, bk_config = config\<rparr>\<rparr>"
| "apply_option WithMetrics p = p\<lparr>tp_metrics := True\<rparr>"

definition NewTCPProxy :: "string \<Rightarrow> bool \<Rightarrow> tcp_option list \<Rightarrow> TCPProxy" where
  "NewTCPProxy listenAddr lb opts =
    fold apply_option opts
      \<lparr>tp_listenAddr = listenAddr, tp_lb = lb, tp_listener = None, tp_activeConns = 0, tp_connWg = 0,
       tp_running = False, tp_stopped = False, tp_readyClosed = False, tp_doneClosed = False, tp_acceptWg = 0,
       tp_rateLimiter = False, tp_breakers = no_breakers, tp_metrics = False\<rparr>"

definition ActiveConnections :: "TCPProxy \<Rightarrow> int" where
  "ActiveConnections p = tp_activeConns p"

definition tcp_CircuitBreakerStates :: "TCPProxy \<Rightarrow> (string \<rightharpoonup> int) option" where
  "tcp_CircuitBreakerStates p = CircuitBreakerStates (tp_breakers p)"

section \<open>Copying\<close>

text \<open>
  \<^verbatim>\<open>io.CopyBuffer\<close>: read a chunk, write it, until a read or a write fails. The environment
  supplies the outcome of every read (the bytes and an error) and of every write (how many bytes
  were taken and an error). \<open>None\<close> is a copy that still waits for its next read or write.
\<close>

fun CopyBuffer :: "(string \<times> net_error option) list \<Rightarrow> (nat \<times> net_error option) list \<Rightarrow> string \<Rightarrow>
    (string \<times> net_error option) option" where
  "CopyBuffer [] ws out = None"
| "CopyBuffer ((data, er) # rs) ws out =
     (if data = [] then
        (case er of None \<Rightarrow> CopyBuffer rs ws out | Some e \<Rightarrow> Some (out, if e = ErrEOF then None else Some e))
      else
        (case ws of
           [] \<Rightarrow> None
         | (nw, ew) # ws' \<Rightarrow>
             (let out' = out @ take nw data
              in if ew \<noteq> None then Some (out', ew)
                 else if nw \<noteq> length data then Some (out', Some (ErrOther ''short write''))
                 else (case er of
                         None \<Rightarrow> CopyBuffer rs ws' out'
                       | Some e \<Rightarrow> Some (out', if e = ErrEOF then None else Some e)))))"

text \<open>\<^verbatim>\<open>copyWithHalfCloseAndCount\<close>: \<open>closeWrite\<close> is the half-close of the destination, on
  the state that holds it. The result is the count, the error, and the bytes delivered.\<close>

definition copyWithHalfCloseAndCount ::
  "('s \<Rightarrow> 's) \<Rightarrow> (string \<times> net_error option) list \<Rightarrow> (nat \<times> net_error option) list \<Rightarrow> 's \<Rightarrow>
    (nat \<times> net_error option \<times> string \<times> 's) option" where
  "copyWithHalfCloseAndCount closeWrite reads writes s =
    (case CopyBuffer reads writes [] of
       None \<Rightarrow> None
     | Some (out, err) \<Rightarrow>
         (let s' = closeWrite s
          in if err = Some ErrEOF \<or> err = Some ErrNetClosed then Some (length out, None, out, s')
             else Some (length out, err, out, s')))"

definition client_CloseWrite :: "socket \<Rightarrow> socket" where
  "client_CloseWrite s = (if sock_isTCP s then snd (sock_CloseWrite s) else s)"

section \<open>One connection\<close>

text \<open>What a handler meets: the clock at each of its readings, the network, and the traffic in
  both directions.\<close>

record conn_env =
  ce_rnd :: "rat \<Rightarrow> rat"
  ce_start :: go_time
  ce_limit :: go_time
  ce_created :: go_time
  ce_allow :: go_time
  ce_dialFn :: "duration \<Rightarrow> string \<Rightarrow> net_error + socket"
  ce_live :: "conn_ref \<Rightarrow> liveness"
  ce_dial :: go_time
  ce_dialled :: go_time
  ce_report :: go_time
  ce_upReads :: "(string \<times> net_error option) list"
  ce_upWrites :: "(nat \<times> net_error option) list"
  ce_downReads :: "(string \<times> net_error option) list"
  ce_downWrites :: "(nat \<times> net_error option) list"
  ce_latency :: go_time
  ce_close :: go_time
  ce_end :: go_time

datatype conn_outcome =
  RateLimited
| NoBackend lb_error
| BreakerOpen backend_ref
| DialFailed backend_ref net_error
| Proxied backend_ref string string

text \<open>After a successful dial: the two copies, which half-close different sockets, the request
  metrics, and the deferred \<^verbatim>\<open>backendConn.Close()\<close>.\<close>

definition tcp_forward :: "conn_env \<Rightarrow> backend_ref \<Rightarrow> conn_ref \<Rightarrow> TCPProxy \<times> gateway \<times> socket \<Rightarrow>
    (conn_outcome \<times> TCPProxy \<times> gateway \<times> socket) option" where
  "tcp_forward env b c s =
    (let (p, g, cl) = s
     in case copyWithHalfCloseAndCount (\<lambda>h. snd (c_CloseWrite c h)) (ce_upReads env) (ce_upWrites env) (gw_heap g) of
          None \<Rightarrow> None
        | Some (sent, err1, up, h1) \<Rightarrow>
            (case copyWithHalfCloseAndCount client_CloseWrite (ce_downReads env) (ce_downWrites env) cl of
               None \<Rightarrow> None
             | Some (received, err2, down, cl1) \<Rightarrow>
                 (let g1 = g\<lparr>gw_heap := h1\<rparr>;
                      latency = time_Sub (ce_latency env) (ce_start env);
                      g2 = gw_record (tp_metrics p)
                             (RecordRequest (b_Addr h1 b) True latency (int sent) (int received)) g1;
                      g3 = g2\<lparr>gw_heap := snd (c_Close (ce_close env) c (gw_heap g2))\<rparr>
                  in Some (Proxied b up down, p, g3, cl1))))"

text \<open>The body of \<^verbatim>\<open>handleConnection\<close>, between the bookkeeping at entry and the deferred
  calls.\<close>

definition tcp_body :: "conn_env \<Rightarrow> TCPProxy \<times> gateway \<times> socket \<Rightarrow>
    (conn_outcome \<times> TCPProxy \<times> gateway \<times> socket) option" where
  "tcp_body env s =
    (let (p, g, cl) = s;
         (ok, tb) = (if tp_rateLimiter p then tb_Allow (ce_rnd env) (ce_limit env) (gw_limiter g) else (True, gw_limiter g));
         g1 = g\<lparr>gw_limiter := tb\<rparr>
     in if \<not> ok then Some (RateLimited, p, g1, cl)
        else
          (let (r, lb) = lb_Next (gw_heap g1) (gw_lb g1);
               g2 = g1\<lparr>gw_lb := lb\<rparr>
           in case r of
                Inl err \<Rightarrow> Some (NoBackend err, p, g2, cl)
              | Inr b \<Rightarrow>
                  (let addr = b_Addr (gw_heap g2) b;
                       (denied, t) = allow_through (ce_created env) (ce_allow env) addr (tp_breakers p);
                       p1 = p\<lparr>tp_breakers := t\<rparr>
                   in if denied \<noteq> None then Some (BreakerOpen b, p1, g2, cl)
                      else
                        (case b_Dial (ce_dialFn env) (ce_live env) (ce_dial env) (ce_dialled env) None b (gw_heap g2) of
                           (Inl err, h) \<Rightarrow>
                             Some (DialFailed b err, p1\<lparr>tp_breakers := report_to (ce_report env) (Some err) addr t\<rparr>,
                               g2\<lparr>gw_heap := h\<rparr>, cl)
                         | (Inr c, h) \<Rightarrow>
                             tcp_forward env b c
                               (p1\<lparr>tp_breakers := report_to (ce_report env) (None :: net_error option) addr t\<rparr>,
                                g2\<lparr>gw_heap := h\<rparr>, cl)))))"

definition handleConnection :: "conn_env \<Rightarrow> TCPProxy \<times> gateway \<times> socket \<Rightarrow>
    (conn_outcome \<times> TCPProxy \<times> gateway \<times> socket) option" where
  "handleConnection env s =
    (let (p, g, cl) = s;
         p1 = p\<lparr>tp_activeConns := tp_activeConns p + 1\<rparr>;
         g1 = gw_record (tp_metrics p1) RecordConnection g
     in case tcp_body env (p1, g1, cl) of
          None \<Rightarrow> None
        | Some (out, p2, g2, cl2) \<Rightarrow>
            (let g3 = gw_record (tp_metrics p2) (RecordConnectionClosed (time_Sub (ce_end env) (ce_start env))) g2;
                 cl3 = snd (sock_Close cl2);
                 p3 = p2\<lparr>tp_activeConns := tp_activeConns p2 - 1\<rparr>;
                 p4 = p3\<lparr>tp_connWg := tp_connWg p3 - 1\<rparr>
             in Some (out, p4, g3, cl3)))"

section \<open>The bytes\<close>

text \<open>What a source offers: its chunks up to and including the read that fails, and that
  failure.\<close>

fun chunks :: "(string \<times> net_error option) list \<Rightarrow> string list" where
  "chunks [] = []"
| "chunks ((d, None) # rs) = d # chunks rs"
| "chunks ((d, Some e) # rs) = [d]"

fun final_error :: "(string \<times> net_error option) list \<Rightarrow> net_error option" where
  "final_error [] = None"
| "final_error ((d, None) # rs) = final_error rs"
| "final_error ((d, Some e) # rs) = Some e"

text \<open>A destination that takes every chunk whole.\<close>

definition takes_all :: "(string \<times> net_error option) list \<Rightarrow> (nat \<times> net_error option) list \<Rightarrow> bool" where
  "takes_all rs ws \<longleftrightarrow> prefix (map (\<lambda>d. (length d, None)) (filter (\<lambda>d. d \<noteq> []) (chunks rs))) ws"

lemma CopyBuffer_prefix:
  "CopyBuffer rs ws out = Some (res, err) \<Longrightarrow> \<exists>d. res = out @ d \<and> prefix d (concat (chunks rs))"
proof (induction rs ws out rule: CopyBuffer.induct)
  case (2 data er rs ws out)
  show ?case
  proof (cases "data = []")
    case True
    then show ?thesis using 2 by (cases er) auto
  next
    case False
    then obtain nw ew ws' where ws: "ws = (nw, ew) # ws'" using 2(3) by (cases ws) auto
    show ?thesis
    proof (cases "ew = None \<and> nw = length data \<and> er = None")
      case True
      then have "\<exists>d. res = (out @ data) @ d \<and> prefix d (concat (chunks rs))"
        using 2 False ws by auto
      then show ?thesis using True by auto
    next
      case other: False
      then have "res = out @ take nw data" using 2(3) False ws by (auto simp: Let_def split: if_splits option.splits)
      then show ?thesis by (cases er) (auto intro: prefix_prefix take_is_prefix)
    qed
  qed
qed simp

lemma CopyBuffer_complete:
  assumes "final_error rs = Some e" and "takes_all rs ws"
  shows "CopyBuffer rs ws out = Some (out @ concat (chunks rs), if e = ErrEOF then None else Some e)"
  using assms
proof (induction rs ws out rule: CopyBuffer.induct)
  case (2 data er rs ws out)
  show ?case
  proof (cases "data = []")
    case True
    then show ?thesis using 2 by (cases er) (auto simp: takes_all_def)
  next
    case False
    then obtain ws' where ws: "ws = (length data, None) # ws'" and "er = None \<longrightarrow> takes_all rs ws'"
      using 2(4) by (cases er; cases ws) (auto simp: takes_all_def)
    then show ?thesis using 2 False by (cases er) auto
  qed
qed simp

text \<open>C22: a copy delivers a prefix of what the source sent, byte for byte and in order, counts
  exactly the bytes delivered and half-closes the destination whenever it returns; and it does
  return, with everything delivered, when the source ends and the destination takes every chunk,
  whatever the sizes in which the bytes arrive. A clean end of the stream, and a socket closed
  under the copy, are not reported as errors.\<close>

theorem copy_faithful:
  assumes "r = copyWithHalfCloseAndCount closeWrite reads writes s"
  shows "(case r of
      None \<Rightarrow> True
    | Some (n, err, out, s') \<Rightarrow> n = length out \<and> prefix out (concat (chunks reads)) \<and> s' = closeWrite s) \<and>
    (takes_all reads writes \<longrightarrow>
      (case final_error reads of
         None \<Rightarrow> True
       | Some e \<Rightarrow> r = Some (length (concat (chunks reads)), if e = ErrEOF \<or> e = ErrNetClosed then None else Some e,
                        concat (chunks reads), closeWrite s)))"
proof
  show "case r of
      None \<Rightarrow> True
    | Some (n, err, out, s') \<Rightarrow> n = length out \<and> prefix out (concat (chunks reads)) \<and> s' = closeWrite s"
    using CopyBuffer_prefix [of reads writes "[]"]
    by (auto simp: assms copyWithHalfCloseAndCount_def Let_def split: option.splits if_splits prod.splits)
  show "takes_all reads writes \<longrightarrow>
      (case final_error reads of
         None \<Rightarrow> True
       | Some e \<Rightarrow> r = Some (length (concat (chunks reads)), if e = ErrEOF \<or> e = ErrNetClosed then None else Some e,
                        concat (chunks reads), closeWrite s))"
    using CopyBuffer_complete [of reads _ writes "[]"]
    by (auto simp: assms copyWithHalfCloseAndCount_def Let_def split: option.splits)
qed

theorem copy_faithful_witness:
  "copyWithHalfCloseAndCount Not [(''ab'', None), ([], None), (''c'', Some ErrEOF)] [(2, None), (1, None)] False =
    Some (3, None, ''abc'', True)"
  using copy_faithful [of _ Not "[(''ab'', None), ([], None), (''c'', Some ErrEOF)]" "[(2, None), (1, None)]" False, OF refl]
  by (simp add: takes_all_def numeral_2_eq_2 numeral_3_eq_3)

section \<open>Accounting\<close>

text \<open>No connection is parked.\<close>

definition pools_idle :: "heap \<Rightarrow> bool" where
  "pools_idle h \<longleftrightarrow> (\<forall>p. p_idle (h_pools h p) = [])"

lemma Dial_idle:
  assumes "pools_idle h" and "b_Dial dial live now now' dl b h = (r, h')"
  shows "pools_idle h'"
    and "b_ActiveConnections h' b' = b_ActiveConnections h b' + (if b' = b \<and> (\<exists>c. r = Inr c) then 1 else 0)"
    and "r = Inr c \<Longrightarrow> \<not> c_returned (h_conns h' c) \<and> c_backend (h_conns h' c) = b"
  using assms
  by (auto simp: b_Dial_def p_get_def pools_idle_def new_pooledConn_def c_touch_def b_addActive_def b_ActiveConnections_def Let_def
      split: option.splits sum.splits)

text \<open>A connection that has been half-closed is not pooled when it is closed.\<close>

lemma Close_after_CloseWrite:
  assumes "pools_idle h" and "\<not> c_returned (h_conns h c)" and "h1 = snd (c_CloseWrite c h)"
  shows "pools_idle (snd (c_Close now c h1))"
    and "b_ActiveConnections (snd (c_Close now c h1)) b =
      b_ActiveConnections h b - (if b = c_backend (h_conns h c) then 1 else 0)"
proof -
  have h1: "h_pools h1 = h_pools h" "h_backends h1 = h_backends h"
    "c_halfClosed (h_conns h1 c)" "\<not> c_returned (h_conns h1 c)" "c_backend (h_conns h1 c) = c_backend (h_conns h c)"
    using assms(2,3) by (auto simp: c_CloseWrite_def Let_def split: prod.splits if_splits)
  then show "pools_idle (snd (c_Close now c h1))"
    using assms(1) by (simp add: c_Close_def c_CloseEnter_def c_CloseDispose_def pools_idle_def b_addActive_def split: option.splits)
  show "b_ActiveConnections (snd (c_Close now c h1)) b =
      b_ActiveConnections h b - (if b = c_backend (h_conns h c) then 1 else 0)"
    using h1 by (simp add: c_Close_def c_CloseEnter_def c_CloseDispose_def b_ActiveConnections_def b_addActive_def split: option.splits)
qed

lemma forward_Some:
  assumes "tcp_forward env b c (p, g, cl) = Some (out, p', g', cl')"
  shows "p' = p" and "gw_heap g' = snd (c_Close (ce_close env) c (snd (c_CloseWrite c (gw_heap g))))"
    and "connectionsActive (gw_metrics g') = connectionsActive (gw_metrics g)"
    and "connectionsTotal (gw_metrics g') = connectionsTotal (gw_metrics g)"
    and "\<exists>up down. out = Proxied b up down"
  using assms
  by (auto simp: tcp_forward_def copyWithHalfCloseAndCount_def Let_def RecordRequest_def RecordLatency_def
      getOrCreateBackendMetrics_def split: option.splits prod.splits if_splits)

text \<open>A connection handled to its end leaves the gateway as it found it, apart from what it
  records.\<close>

definition settled :: "gateway \<Rightarrow> gateway \<Rightarrow> bool" where
  "settled g g' \<longleftrightarrow> pools_idle (gw_heap g') \<and>
    (\<forall>b. b_ActiveConnections (gw_heap g') b = b_ActiveConnections (gw_heap g) b) \<and>
    connectionsActive (gw_metrics g') = connectionsActive (gw_metrics g) \<and>
    connectionsTotal (gw_metrics g') = connectionsTotal (gw_metrics g)"

lemma forward_settled:
  assumes "tcp_forward env b c (p, g\<lparr>gw_heap := h\<rparr>, cl) = Some (out, p', g', cl')"
    and "pools_idle (gw_heap g)" and "b_Dial dial live now now' dl b (gw_heap g) = (Inr c, h)"
  shows "settled g g'"
proof -
  note dial = Dial_idle [OF assms(2,3)] and fw = forward_Some [OF assms(1)]
  have "\<not> c_returned (h_conns h c)" "c_backend (h_conns h c) = b" using dial(3) by auto
  then show ?thesis
    using Close_after_CloseWrite [OF dial(1), of c, OF _ refl] dial(2) fw(2-4)
    by (simp add: settled_def)
qed

text \<open>The five ways a handler can end.\<close>

lemma tcp_body_cases [consumes 1, case_names limited unavailable denied failed forwarded]:
  assumes "tcp_body env (p, g, cl) = Some (out, p', g', cl')"
  obtains (limited) tb where "out = RateLimited" "p' = p" "g' = g\<lparr>gw_limiter := tb\<rparr>" "cl' = cl"
  | (unavailable) tb lb e where "out = NoBackend e" "p' = p" "g' = g\<lparr>gw_limiter := tb, gw_lb := lb\<rparr>" "cl' = cl"
      "lb_Next (gw_heap g) (gw_lb g) = (Inl e, lb)"
  | (denied) tb lb b e t where "out = BreakerOpen b" "p' = p\<lparr>tp_breakers := t\<rparr>" "g' = g\<lparr>gw_limiter := tb, gw_lb := lb\<rparr>" "cl' = cl"
      "lb_Next (gw_heap g) (gw_lb g) = (Inr b, lb)"
      "allow_through (ce_created env) (ce_allow env) (b_Addr (gw_heap g) b) (tp_breakers p) = (Some e, t)"
  | (failed) tb lb b t e h where "out = DialFailed b e"
      "p' = p\<lparr>tp_breakers := report_to (ce_report env) (Some e) (b_Addr (gw_heap g) b) t\<rparr>"
      "g' = g\<lparr>gw_limiter := tb, gw_lb := lb, gw_heap := h\<rparr>" "cl' = cl"
      "lb_Next (gw_heap g) (gw_lb g) = (Inr b, lb)"
      "allow_through (ce_created env) (ce_allow env) (b_Addr (gw_heap g) b) (tp_breakers p) = (None, t)"
      "b_Dial (ce_dialFn env) (ce_live env) (ce_dial env) (ce_dialled env) None b (gw_heap g) = (Inl e, h)"
  | (forwarded) tb lb b t c h where
      "lb_Next (gw_heap g) (gw_lb g) = (Inr b, lb)"
      "allow_through (ce_created env) (ce_allow env) (b_Addr (gw_heap g) b) (tp_breakers p) = (None, t)"
      "b_Dial (ce_dialFn env) (ce_live env) (ce_dial env) (ce_dialled env) None b (gw_heap g) = (Inr c, h)"
      "tcp_forward env b c (p\<lparr>tp_breakers := report_to (ce_report env) (None :: net_error option) (b_Addr (gw_heap g) b) t\<rparr>,
         g\<lparr>gw_limiter := tb, gw_lb := lb, gw_heap := h\<rparr>, cl) = Some (out, p', g', cl')"
proof -
  obtain ok tb where rl: "(if tp_rateLimiter p then tb_Allow (ce_rnd env) (ce_limit env) (gw_limiter g) else (True, gw_limiter g)) = (ok, tb)"
    by force
  obtain r lb where nxt: "lb_Next (gw_heap g) (gw_lb g) = (r, lb)" by force
  note body = assms [unfolded tcp_body_def Let_def prod.case rl]
  show thesis
  proof (cases ok)
    case False
    then show thesis using body by (intro limited) auto
  next
    case ok: True
    show thesis
    proof (cases r)
      case (Inl e)
      then show thesis using body ok nxt by (intro unavailable) auto
    next
      case b: (Inr b)
      obtain d t where al: "allow_through (ce_created env) (ce_allow env) (b_Addr (gw_heap g) b) (tp_breakers p) = (d, t)" by force
      obtain q h where dial: "b_Dial (ce_dialFn env) (ce_live env) (ce_dial env) (ce_dialled env) None b (gw_heap g) = (q, h)" by force
      show thesis
      proof (cases d)
        case (Some e)
        then show thesis using body ok nxt b al by (intro denied) auto
      next
        case None
        then show thesis using body ok nxt b al dial
          by (cases q) (auto intro: failed forwarded)
      qed
    qed
  qed
qed

lemma tcp_body_settled:
  assumes "tcp_body env (p, g, cl) = Some (out, p', g', cl')" and "pools_idle (gw_heap g)"
  shows "settled g g' \<and> (\<exists>t. p' = p\<lparr>tp_breakers := t\<rparr>)"
  using assms(1)
proof (cases rule: tcp_body_cases)
  case (failed tb lb b t e h)
  then show ?thesis using Dial_idle [OF assms(2) failed(7)] by (auto simp: settled_def)
next
  case (forwarded tb lb b t c h)
  let ?g = "g\<lparr>gw_limiter := tb, gw_lb := lb\<rparr>"
  have "settled ?g g'"
    by (rule forward_settled [where g = ?g, OF forwarded(4)]) (use assms(2) forwarded(3) in simp_all)
  then show ?thesis using forward_Some(1) [OF forwarded(4)] by (auto simp: settled_def)
qed (use assms(2) in \<open>auto simp: settled_def intro: exI [of _ "tp_breakers p"]\<close>)

lemma handle_Some:
  assumes "handleConnection env (p, g, cl) = Some (out, p', g', cl')"
  obtains p2 g2 cl2 where
    "tcp_body env (p\<lparr>tp_activeConns := tp_activeConns p + 1\<rparr>, gw_record (tp_metrics p) RecordConnection g, cl) = Some (out, p2, g2, cl2)"
    "p' = p2\<lparr>tp_activeConns := tp_activeConns p2 - 1, tp_connWg := tp_connWg p2 - 1\<rparr>"
    "g' = gw_record (tp_metrics p2) (RecordConnectionClosed (time_Sub (ce_end env) (ce_start env))) g2"
    "cl' = snd (sock_Close cl2)"
  using assms by (auto simp: handleConnection_def Let_def split: option.splits)

lemma forward_returns:
  assumes "CopyBuffer (ce_upReads env) (ce_upWrites env) [] \<noteq> None" and "CopyBuffer (ce_downReads env) (ce_downWrites env) [] \<noteq> None"
  shows "tcp_forward env b c s \<noteq> None"
  using assms by (auto simp: tcp_forward_def copyWithHalfCloseAndCount_def Let_def split: option.splits prod.splits)

lemma handle_returns:
  assumes "CopyBuffer (ce_upReads env) (ce_upWrites env) [] \<noteq> None" and "CopyBuffer (ce_downReads env) (ce_downWrites env) [] \<noteq> None"
  shows "handleConnection env s \<noteq> None"
proof -
  have body: "tcp_body env s' \<noteq> None" for s'
    using forward_returns [OF assms] by (auto simp: tcp_body_def Let_def split: prod.splits sum.splits)
  obtain p g cl where s: "s = (p, g, cl)" by (cases s)
  show ?thesis
    using body [of "(p\<lparr>tp_activeConns := tp_activeConns p + 1\<rparr>, gw_record (tp_metrics p) RecordConnection g, cl)"]
    by (auto simp: handleConnection_def Let_def s)
qed

text \<open>A client that sends two bytes and a backend that answers three, on a gateway with one pooled
  backend.\<close>

definition sample_conn :: conn_env where
  "sample_conn = \<lparr>ce_rnd = id, ce_start = 0, ce_limit = 0, ce_created = 0, ce_allow = 0, ce_dialFn = sample_dial, ce_live = sample_live,
     ce_dial = 0, ce_dialled = 0, ce_report = 0, ce_upReads = [(''ab'', Some ErrEOF)], ce_upWrites = [(2, None)],
     ce_downReads = [(''xyz'', Some ErrEOF)], ce_downWrites = [(3, None)], ce_latency = 0, ce_close = 0, ce_end = 0\<rparr>"

definition sample_proxy :: TCPProxy where
  "sample_proxy = NewTCPProxy '':8080'' True [WithCircuitBreaker cb_DefaultConfig, WithMetrics]"

definition sample_client :: socket where
  "sample_client = \<lparr>sock_isTCP = True, sock_closed = False, sock_finSent = False\<rparr>"

lemma sample_handled: "handleConnection sample_conn (sample_proxy, sample_gateway, sample_client) \<noteq> None"
  by (rule handle_returns) (simp_all add: sample_conn_def numeral_2_eq_2 numeral_3_eq_3)

lemma sample_pools_idle: "pools_idle (gw_heap sample_gateway)"
  by (simp add: pools_idle_def sample_gateway_def sample_defs)

lemma sample_breakers:
  "bk_config (tp_breakers sample_proxy) = cb_DefaultConfig" "breaker_at (tp_breakers sample_proxy) a = None"
  by (simp_all add: sample_proxy_def NewTCPProxy_def breaker_at_def)

text \<open>C3: a handled connection leaves nothing behind, on every path through the handler, early
  returns included: the client socket is closed, the proxy's active count is what it was, its
  wait group is one lower, every backend counts as many active connections as before, the gauge
  of active connections is unchanged while the total has grown by one, and no pool holds a
  connection.\<close>

theorem handleConnection_balanced:
  assumes "handleConnection env (p, g, cl) = Some (out, p', g', cl')" and "pools_idle (gw_heap g)"
  shows "sock_closed cl' \<and> tp_activeConns p' = tp_activeConns p \<and> tp_connWg p' = tp_connWg p - 1 \<and>
    (\<forall>b. b_ActiveConnections (gw_heap g') b = b_ActiveConnections (gw_heap g) b) \<and>
    connectionsActive (gw_metrics g') = connectionsActive (gw_metrics g) \<and>
    connectionsTotal (gw_metrics g') = connectionsTotal (gw_metrics g) + (if tp_metrics p then 1 else 0) \<and>
    pools_idle (gw_heap g')"
  using assms(1)
proof (rule handle_Some)
  fix p2 g2 cl2
  let ?g1 = "gw_record (tp_metrics p) RecordConnection g"
  assume body: "tcp_body env (p\<lparr>tp_activeConns := tp_activeConns p + 1\<rparr>, ?g1, cl) = Some (out, p2, g2, cl2)"
    and p': "p' = p2\<lparr>tp_activeConns := tp_activeConns p2 - 1, tp_connWg := tp_connWg p2 - 1\<rparr>"
    and g': "g' = gw_record (tp_metrics p2) (RecordConnectionClosed (time_Sub (ce_end env) (ce_start env))) g2"
    and cl': "cl' = snd (sock_Close cl2)"
  have "settled ?g1 g2" and p2: "\<exists>t. p2 = p\<lparr>tp_activeConns := tp_activeConns p + 1, tp_breakers := t\<rparr>"
    using tcp_body_settled [OF body] assms(2) by auto
  then show ?thesis unfolding p' g' cl'
    by (auto simp: settled_def sock_Close_def RecordConnectionClosed_def RecordConnection_def)
qed

theorem handleConnection_balanced_witness:
  "\<exists>out p' g' cl'. handleConnection sample_conn (sample_proxy, sample_gateway, sample_client) = Some (out, p', g', cl') \<and>
    sock_closed cl' \<and> pools_idle (gw_heap g') \<and> connectionsActive (gw_metrics g') = 0"
proof -
  obtain out p' g' cl' where h: "handleConnection sample_conn (sample_proxy, sample_gateway, sample_client) = Some (out, p', g', cl')"
    using sample_handled by auto
  have "connectionsActive (gw_metrics sample_gateway) = 0" by (simp add: sample_gateway_def NewCollector_def Let_def)
  then show ?thesis using handleConnection_balanced [OF h sample_pools_idle] h by auto
qed

text \<open>Every request a breaker admits is reported to it exactly once, and every other one is
  counted as rejected: if the counters of all breakers of the proxy add up before a connection
  is handled, they add up when its handler returns, whichever of the five ways it ends; and all
  breakers keep their invariant.\<close>

theorem handleConnection_reports_once:
  assumes "handleConnection env (p, g, cl) = Some (out, p', g', cl')"
    and "cb_config_ok (bk_config (tp_breakers p))"
    and "all_breakers cb_balanced (tp_breakers p)" and "all_breakers cb_inv (tp_breakers p)"
  shows "all_breakers cb_balanced (tp_breakers p') \<and> all_breakers cb_inv (tp_breakers p')"
  using assms(1)
proof (rule handle_Some)
  fix p2 g2 cl2
  let ?g1 = "gw_record (tp_metrics p) RecordConnection g"
  assume body: "tcp_body env (p\<lparr>tp_activeConns := tp_activeConns p + 1\<rparr>, ?g1, cl) = Some (out, p2, g2, cl2)"
    and p': "p' = p2\<lparr>tp_activeConns := tp_activeConns p2 - 1, tp_connWg := tp_connWg p2 - 1\<rparr>"
  from body have "all_breakers cb_balanced (tp_breakers p2) \<and> all_breakers cb_inv (tp_breakers p2)"
  proof (cases rule: tcp_body_cases)
    case (denied tb lb b e t)
    then show ?thesis
      using balanced.rejected_all [of "tp_breakers p" _ _ _ e t] sound.rejected_all [of "tp_breakers p" _ _ _ e t] assms(2-4) by auto
  next
    case (failed tb lb b t e h)
    then show ?thesis
      using balanced.settled_all [of "tp_breakers p"] sound.settled_all [of "tp_breakers p"] assms(2-4) by auto
  next
    case (forwarded tb lb b t c h)
    then show ?thesis
      using balanced.settled_all [of "tp_breakers p"] sound.settled_all [of "tp_breakers p"] assms(2-4)
        forward_Some(1) [OF forwarded(4)] by auto
  qed (use assms(3,4) in auto)
  then show ?thesis unfolding p' by simp
qed

theorem handleConnection_reports_once_witness:
  "\<exists>out p' g' cl'. handleConnection sample_conn (sample_proxy, sample_gateway, sample_client) = Some (out, p', g', cl') \<and>
    all_breakers cb_balanced (tp_breakers p') \<and> all_breakers cb_inv (tp_breakers p')"
proof -
  obtain out p' g' cl' where h: "handleConnection sample_conn (sample_proxy, sample_gateway, sample_client) = Some (out, p', g', cl')"
    using sample_handled by auto
  have "cb_config_ok (bk_config (tp_breakers sample_proxy))" by (simp add: sample_breakers cb_config_ok_def cb_DefaultConfig_def)
  then show ?thesis using handleConnection_reports_once [OF h] h by (auto simp: all_breakers_def sample_breakers)
qed

section \<open>The pool under layer 4\<close>

text \<open>
  \<^verbatim>\<open>handleConnection\<close> closes a backend connection only after both copies have returned, and
  the copy towards the backend half-closes it first. So among the interleavings of the
  connection methods, those that handlers produce never have a goroutine inside \<^verbatim>\<open>Close\<close> of
  a connection that was not half-closed.
\<close>

definition half_closed_first :: "pc multiset \<Rightarrow> bool" where
  "half_closed_first T \<longleftrightarrow> (\<forall>c. ClosingCount c False \<notin># T \<and> ClosingDispose c False \<notin># T)"

inductive l4_step :: "heap \<times> pc multiset \<Rightarrow> heap \<times> pc multiset \<Rightarrow> bool" where
  "conn_step s (h, T) \<Longrightarrow> half_closed_first T \<Longrightarrow> l4_step s (h, T)"

text \<open>Nothing parked, nothing taken from a pool.\<close>

fun pool_unused :: "(pool_ref \<Rightarrow> connPool) \<Rightarrow> heap \<times> pc multiset \<Rightarrow> bool" where
  "pool_unused ps (h, T) \<longleftrightarrow> (\<forall>p. p_idle (h_pools h p) = [] \<and> p_returned (h_pools h p) = p_returned (ps p) \<and>
     p_hits (h_pools h p) = p_hits (ps p)) \<and> (\<forall>b p c. GetDecide b p c \<notin># T) \<and> half_closed_first T"

lemma CloseWrite_pools [simp]: "h_pools (snd (c_CloseWrite c h)) = h_pools h"
  by (simp add: c_CloseWrite_def Let_def split: prod.splits)

lemma CloseDispose_half [simp]: "h_pools (snd (c_CloseDispose now c True h)) = h_pools h"
  by (simp add: c_CloseDispose_def split: option.splits)

lemma l4_step_unused:
  assumes "l4_step s s'" and "pool_unused ps s"
  shows "pool_unused ps s'"
  using assms(1)
proof cases
  case l4: (1 h' T')
  from l4(2) show ?thesis
  proof cases
    case (close_enter c h hc T)
    then show ?thesis using assms(2) l4(1,3) by (auto simp: c_CloseEnter_def split: if_splits)
  next
    case (close_dispose h c hc now)
    then have "hc" using assms(2) by (auto simp: half_closed_first_def)
    then show ?thesis using close_dispose assms(2) l4(1,3) by auto
  qed (use assms(2) l4(1,3) in \<open>auto simp: c_CloseEnter_def new_pooledConn_def b_addActive_def Let_def split: if_splits\<close>)
qed

interpretation l4_sys: step_system l4_step "pool_unused ps" for ps
  by unfold_locales (rule l4_step_unused)

text \<open>The idle pool is dead weight for layer-4 traffic: in every interleaving of handlers, no
  connection is ever returned to a pool or taken from one, so each dial, with pooling enabled or
  not, opens a new connection and counts a miss.\<close>

theorem l4_pool_never_used:
  assumes "l4_step\<^sup>*\<^sup>* (h0, {#}) (h, T)" and "pools_idle h0"
  shows "pools_idle h \<and> p_returned (h_pools h p) = p_returned (h_pools h0 p) \<and> p_hits (h_pools h p) = p_hits (h_pools h0 p)"
proof -
  have "pool_unused (h_pools h0) (h0, {#})" using assms(2) by (simp add: pools_idle_def half_closed_first_def)
  with assms(1) have "pool_unused (h_pools h0) (h, T)"
    by (rule l4_sys.reach_keeps)
  then show ?thesis by (simp add: pools_idle_def)
qed

subsection \<open>Handlers are such runs\<close>

lemma Close_l4_run:
  assumes "c < h_nextConn h" and "c_halfClosed (h_conns h c)" and "half_closed_first T"
  shows "l4_step\<^sup>*\<^sup>* (h, T) (snd (c_Close now c h), T)"
proof (cases "c_returned (h_conns h c)")
  case True
  then have "c_Close now c h = (None, h)" by (simp add: c_Close_def c_CloseEnter_def)
  then show ?thesis by simp
next
  case False
  let ?h1 = "upd_conn c (\<lambda>v. v\<lparr>c_returned := True\<rparr>) h"
  let ?h2 = "b_addActive (- 1) (c_backend (h_conns h c)) ?h1"
  have quiet: "half_closed_first (add_mset (ClosingCount c True) T)" "half_closed_first (add_mset (ClosingDispose c True) T)"
    using assms(3) by (auto simp: half_closed_first_def)
  have "l4_step (h, T) (?h1, add_mset (ClosingCount c True) T)"
    using assms False quiet by (intro l4_step.intros close_enter) (simp_all add: c_CloseEnter_def)
  moreover have "conn_step (?h1, add_mset (ClosingCount c True) T) (?h2, add_mset (ClosingDispose c True) T)"
    using close_count [of ?h1 c True T] by simp
  then have "l4_step (?h1, add_mset (ClosingCount c True) T) (?h2, add_mset (ClosingDispose c True) T)"
    using quiet by (intro l4_step.intros)
  moreover have "l4_step (?h2, add_mset (ClosingDispose c True) T) (snd (c_CloseDispose now c True ?h2), T)"
    using assms(3) by (intro l4_step.intros close_dispose)
  moreover have "snd (c_Close now c h) = snd (c_CloseDispose now c True ?h2)"
    using False assms(2) by (simp add: c_Close_def c_CloseEnter_def)
  ultimately show ?thesis by (simp add: converse_rtranclp_into_rtranclp)
qed

lemma l4_one: "conn_step s (h, T) \<Longrightarrow> half_closed_first T \<Longrightarrow> l4_step\<^sup>*\<^sup>* s (h, T)"
  by (blast intro: l4_step.intros)

lemma half_closed_first_dial [simp]:
  "half_closed_first (add_mset (DialCount b c) T) = half_closed_first T"
  by (simp add: half_closed_first_def)

lemma get_idle_l4_run:
  assumes "pools_idle h" and "half_closed_first T"
    and "(case b_pool (h_backends h b) of None \<Rightarrow> (None, h) | Some p \<Rightarrow> p_get now live p h) = (r, h1)"
  shows "l4_step\<^sup>*\<^sup>* (h, T) (h1, T) \<and> r = None \<and> h_nextBackend h1 = h_nextBackend h"
proof (cases "b_pool (h_backends h b)")
  case (Some p)
  have p: "p_idle (h_pools h p) = []" using assms(1) by (simp add: pools_idle_def)
  then have "upd_pool p (\<lambda>v. v\<lparr>p_idle := [], p_misses := p_misses v + 1\<rparr>) h = upd_pool p (\<lambda>v. v\<lparr>p_misses := p_misses v + 1\<rparr>) h"
    by (cases "h_pools h p") (simp add: upd_pool_def)
  then have "r = None" "h1 = upd_pool p (\<lambda>v. v\<lparr>p_misses := p_misses v + 1\<rparr>) h"
    using assms(3) Some p by (auto simp: p_get_def)
  then show ?thesis using l4_one [OF get_miss [OF p] assms(2)] by simp
qed (use assms(3) in simp)

lemma Dial_l4_run:
  assumes "b < h_nextBackend h" and net: "\<And>d a s. dial d a = Inr s \<Longrightarrow> \<not> sock_closed s \<and> \<not> sock_finSent s"
    and "pools_idle h" and T: "half_closed_first T" and dial: "b_Dial dial live now now' dl b h = (r, h')"
  shows "l4_step\<^sup>*\<^sup>* (h, T) (h', T) \<and> (\<forall>c. r = Inr c \<longrightarrow> c < h_nextConn h')"
proof -
  obtain q h1 where get: "(case b_pool (h_backends h b) of None \<Rightarrow> (None, h) | Some p \<Rightarrow> p_get now live p h) = (q, h1)" by force
  note run1 = get_idle_l4_run [OF assms(3) T get]
  let ?h2 = "upd_backend b (\<lambda>v. v\<lparr>b_totalConns := b_totalConns v + 1\<rparr>) h1"
  have run2: "l4_step\<^sup>*\<^sup>* (h, T) (?h2, T)" using run1 l4_one [OF dial_start T] by (meson rtranclp_trans)
  show ?thesis
  proof (cases "dial (dial_timeout now dl) (b_Addr ?h2 b)")
    case (Inl e)
    then have "h' = upd_backend b (\<lambda>v. v\<lparr>b_failures := b_failures v + 1\<rparr>) ?h2" "r = Inl e"
      using dial get run1 by (auto simp: b_Dial_def Let_def)
    then show ?thesis using run2 l4_one [OF dial_fail T, of ?h2 b] by (auto intro: rtranclp_trans)
  next
    case (Inr s)
    obtain c h3 where new: "new_pooledConn now' s b ?h2 = (c, h3)" by force
    have "conn_step (?h2, T) (h3, add_mset (DialCount b c) T)"
      using net [OF Inr] assms(1) run1 new by (intro dial_new [where s = s and now = now']) auto
    then have "l4_step\<^sup>*\<^sup>* (h, T) (h3, add_mset (DialCount b c) T)" using run2 l4_one T by (auto intro: rtranclp_trans)
    moreover have "h' = b_addActive 1 b h3" "r = Inr c" using dial get run1 Inr new by (auto simp: b_Dial_def Let_def)
    moreover have "c < h_nextConn h3" using new by (auto simp: new_pooledConn_def Let_def)
    ultimately show ?thesis using l4_one [OF dial_count T, of h3 b c] by (auto simp: b_addActive_def intro: rtranclp_trans)
  qed
qed

text \<open>A handler is a run of the layer-4 system, alone or among other goroutines \<open>T\<close>.\<close>

lemma handle_l4_run:
  assumes "handleConnection env (p, g, cl) = Some (out, p', g', cl')"
    and "\<And>d a s. ce_dialFn env d a = Inr s \<Longrightarrow> \<not> sock_closed s \<and> \<not> sock_finSent s"
    and "pools_idle (gw_heap g)" and "\<forall>b \<in> set (lb_Backends (gw_lb g)). b < h_nextBackend (gw_heap g)"
    and T: "half_closed_first T"
  shows "l4_step\<^sup>*\<^sup>* (gw_heap g, T) (gw_heap g', T)"
  using assms(1)
proof (rule handle_Some)
  fix p2 g2 cl2
  let ?g1 = "gw_record (tp_metrics p) RecordConnection g"
  assume body: "tcp_body env (p\<lparr>tp_activeConns := tp_activeConns p + 1\<rparr>, ?g1, cl) = Some (out, p2, g2, cl2)"
    and g': "g' = gw_record (tp_metrics p2) (RecordConnectionClosed (time_Sub (ce_end env) (ce_start env))) g2"
  have member: "b < h_nextBackend (gw_heap g)" if "lb_Next (gw_heap g) (gw_lb g) = (Inr b, lb)" for b lb
    using assms(4) lb.next_member [of "gw_heap g" "gw_lb g" b] that by auto
  from body have "l4_step\<^sup>*\<^sup>* (gw_heap g, T) (gw_heap g2, T)"
  proof (cases rule: tcp_body_cases)
    case (failed tb lb b t e h)
    then show ?thesis using Dial_l4_run [OF member assms(2,3) T, where h' = h] by auto
  next
    case (forwarded tb lb b t c h)
    have run: "l4_step\<^sup>*\<^sup>* (gw_heap g, T) (h, T)" "c < h_nextConn h" "\<not> c_returned (h_conns h c)"
      using Dial_l4_run [OF member assms(2,3) T, where h' = h] Dial_idle(3) [OF assms(3), where h' = h] forwarded(1,3)
      by auto
    let ?h1 = "snd (c_CloseWrite c h)"
    have "l4_step\<^sup>*\<^sup>* (h, T) (?h1, T)" using run(2) T by (intro l4_one half_close)
    moreover have "l4_step\<^sup>*\<^sup>* (?h1, T) (snd (c_Close (ce_close env) c ?h1), T)"
      using run(2,3) T by (intro Close_l4_run) (auto simp: c_CloseWrite_def Let_def split: prod.splits if_splits)
    ultimately show ?thesis using run(1) forward_Some(2) [OF forwarded(4)] by (auto intro: rtranclp_trans)
  qed simp_all
  then show ?thesis by (simp add: g')
qed

theorem l4_pool_never_used_witness:
  "\<exists>out p' g' cl'. handleConnection sample_conn (sample_proxy, sample_gateway, sample_client) = Some (out, p', g', cl') \<and>
    p_returned (h_pools (gw_heap g') 0) = 0"
proof -
  obtain out p' g' cl' where h: "handleConnection sample_conn (sample_proxy, sample_gateway, sample_client) = Some (out, p', g', cl')"
    using sample_handled by auto
  have "l4_step\<^sup>*\<^sup>* (gw_heap sample_gateway, {#}) (gw_heap g', {#})"
    by (rule handle_l4_run [OF h])
      (use sample_heap_fresh in \<open>auto simp: fresh_heap_def pools_idle_def sample_conn_def sample_dial_def half_closed_first_def sample_gateway_def NewRoundRobin_def\<close>)
  from l4_pool_never_used [OF this sample_pools_idle, of 0] h show ?thesis
    by (auto simp: sample_gateway_def sample_defs)
qed

section \<open>Life cycle\<close>

datatype tcp_error = AlreadyStopped | AlreadyRunning | NoLoadBalancer | ListenFailed net_error | ShutdownTimeout int

text \<open>\<^verbatim>\<open>Start\<close>: \<open>listen\<close> is the result of \<^verbatim>\<open>net.Listen\<close>. The second component
  says whether the accept loop was spawned.\<close>

definition tp_Start :: "net_error option \<Rightarrow> TCPProxy \<Rightarrow> tcp_error option \<times> TCPProxy" where
  "tp_Start listen p =
    (if tp_stopped p then (Some AlreadyStopped, p)
     else if tp_running p then (Some AlreadyRunning, p)
     else if \<not> tp_lb p then (Some NoLoadBalancer, p)
     else (case listen of
             Some err \<Rightarrow> (Some (ListenFailed err), p\<lparr>tp_listener := None\<rparr>)
           | None \<Rightarrow> (None, p\<lparr>tp_listener := Some True, tp_running := True, tp_acceptWg := tp_acceptWg p + 1\<rparr>)))"

text \<open>\<^verbatim>\<open>Stop\<close> up to \<^verbatim>\<open>p.mu.Unlock()\<close>: whether it returns at once.\<close>

definition tp_StopEnter :: "TCPProxy \<Rightarrow> bool \<times> TCPProxy" where
  "tp_StopEnter p =
    (if tp_stopped p then (True, p)
     else if \<not> tp_running p then (True, p\<lparr>tp_stopped := True\<rparr>)
     else (False, p\<lparr>tp_running := False, tp_stopped := True, tp_listener := map_option (\<lambda>_. False) (tp_listener p)\<rparr>))"

text \<open>The end of \<^verbatim>\<open>Stop\<close> when the context expires first.\<close>

definition tp_StopTimeout :: "TCPProxy \<Rightarrow> tcp_error option" where
  "tp_StopTimeout p = (if tp_activeConns p > 0 then Some (ShutdownTimeout (tp_activeConns p)) else None)"

text \<open>The goroutines: the accept loop before it has signalled readiness, at the head of the loop, after it
  has found the context alive, inside \<^verbatim>\<open>Accept\<close>, with an accepted connection in hand, and after
  \<^verbatim>\<open>close(p.done)\<close>; a handler before it has counted itself, while it runs, and when it is no longer
  counted as active but has not left the wait group; a call of \<^verbatim>\<open>Stop\<close> that waits for the accept
  loop, then for the handlers.\<close>

datatype tcp_pc =
  AcceptSpawned | AcceptLooping | AcceptChecked | AcceptWaiting | AcceptHolding | AcceptLeaving
| HandlerSpawned | HandlerRunning | HandlerLeaving | StopWaitAccept | StopWaitConns

text \<open>\<open>Panic\<close> is the close of a closed channel.\<close>

datatype life = Live TCPProxy "tcp_pc multiset" | Panic

definition close_ready :: "TCPProxy \<Rightarrow> tcp_pc multiset \<Rightarrow> life" where
  "close_ready p T = (if tp_readyClosed p then Panic else Live (p\<lparr>tp_readyClosed := True\<rparr>) T)"

definition close_done :: "TCPProxy \<Rightarrow> tcp_pc multiset \<Rightarrow> life" where
  "close_done p T = (if tp_doneClosed p then Panic else Live (p\<lparr>tp_doneClosed := True\<rparr>) T)"

text \<open>One step of \<^verbatim>\<open>acceptLoop\<close>, where \<open>ctx\<close> says whether the context is done: it looks at the context, sets the
  deadline of one second, which a closed listener refuses, and waits in \<^verbatim>\<open>Accept\<close>, which gives a
  connection or the time-out while the listener is open and fails when it is closed.\<close>

inductive accept_step :: "bool \<Rightarrow> TCPProxy \<Rightarrow> tcp_pc multiset \<Rightarrow> life \<Rightarrow> bool" for ctx where
  ready: "accept_step ctx p (add_mset AcceptSpawned T) (close_ready p (add_mset AcceptLooping T))"
| ctx_done: "ctx \<Longrightarrow> accept_step ctx p (add_mset AcceptLooping T) (close_done p (add_mset AcceptLeaving T))"
| ctx_alive: "\<not> ctx \<Longrightarrow> accept_step ctx p (add_mset AcceptLooping T) (Live p (add_mset AcceptChecked T))"
| deadline: "tp_listener p = Some True \<Longrightarrow> accept_step ctx p (add_mset AcceptChecked T) (Live p (add_mset AcceptWaiting T))"
| deadline_err: "tp_listener p \<noteq> Some True \<Longrightarrow>
    accept_step ctx p (add_mset AcceptChecked T) (close_done p (add_mset AcceptLeaving T))"
| accept: "tp_listener p = Some True \<Longrightarrow> accept_step ctx p (add_mset AcceptWaiting T) (Live p (add_mset AcceptHolding T))"
| accept_timeout: "tp_listener p = Some True \<Longrightarrow> accept_step ctx p (add_mset AcceptWaiting T) (Live p (add_mset AcceptLooping T))"
| accept_closed: "tp_listener p \<noteq> Some True \<Longrightarrow>
    accept_step ctx p (add_mset AcceptWaiting T) (close_done p (add_mset AcceptLeaving T))"
| spawn: "accept_step ctx p (add_mset AcceptHolding T)
    (Live (p\<lparr>tp_connWg := tp_connWg p + 1\<rparr>) (add_mset HandlerSpawned (add_mset AcceptLooping T)))"
| left: "accept_step ctx p (add_mset AcceptLeaving T) (Live (p\<lparr>tp_acceptWg := tp_acceptWg p - 1\<rparr>) T)"

text \<open>One step of one goroutine. Beside its own steps the accept loop may meet another error of
  \<^verbatim>\<open>Accept\<close>, which ends it.\<close>

inductive life_step :: "bool \<Rightarrow> life \<Rightarrow> life \<Rightarrow> bool" for ctx where
  start_ok: "tp_Start listen p = (None, p') \<Longrightarrow> life_step ctx (Live p T) (Live p' (add_mset AcceptSpawned T))"
| start_err: "tp_Start listen p = (Some e, p') \<Longrightarrow> life_step ctx (Live p T) (Live p' T)"
| accepting: "accept_step ctx p T s \<Longrightarrow> life_step ctx (Live p T) s"
| accept_fails: "life_step ctx (Live p (add_mset AcceptWaiting T)) (close_done p (add_mset AcceptLeaving T))"
| handle: "life_step ctx (Live p (add_mset HandlerSpawned T))
    (Live (p\<lparr>tp_activeConns := tp_activeConns p + 1\<rparr>) (add_mset HandlerRunning T))"
| handled: "life_step ctx (Live p (add_mset HandlerRunning T))
    (Live (p\<lparr>tp_activeConns := tp_activeConns p - 1\<rparr>) (add_mset HandlerLeaving T))"
| handler_left: "life_step ctx (Live p (add_mset HandlerLeaving T)) (Live (p\<lparr>tp_connWg := tp_connWg p - 1\<rparr>) T)"
| stop_now: "tp_StopEnter p = (True, p') \<Longrightarrow> life_step ctx (Live p T) (Live p' T)"
| stop_enter: "tp_StopEnter p = (False, p') \<Longrightarrow> life_step ctx (Live p T) (Live p' (add_mset StopWaitAccept T))"
| stop_drain: "tp_acceptWg p = 0 \<Longrightarrow> life_step ctx (Live p (add_mset StopWaitAccept T)) (Live p (add_mset StopWaitConns T))"
| stop_done: "tp_connWg p = 0 \<Longrightarrow> life_step ctx (Live p (add_mset StopWaitConns T)) (Live p T)"
| stop_timeout: "life_step ctx (Live p (add_mset StopWaitConns T)) (Live p T)"

text \<open>A step with the context in either state.\<close>

definition life_move :: "life \<Rightarrow> life \<Rightarrow> bool" where
  "life_move s s' \<longleftrightarrow> life_step False s s' \<or> life_step True s s'"

fun is_accept :: "tcp_pc \<Rightarrow> bool" where
  "is_accept AcceptSpawned = True"
| "is_accept AcceptLooping = True"
| "is_accept AcceptChecked = True"
| "is_accept AcceptWaiting = True"
| "is_accept AcceptHolding = True"
| "is_accept AcceptLeaving = True"
| "is_accept _ = False"

fun is_handler :: "tcp_pc \<Rightarrow> bool" where
  "is_handler HandlerSpawned = True"
| "is_handler HandlerRunning = True"
| "is_handler HandlerLeaving = True"
| "is_handler _ = False"

fun is_stop :: "tcp_pc \<Rightarrow> bool" where
  "is_stop StopWaitAccept = True"
| "is_stop StopWaitConns = True"
| "is_stop _ = False"

text \<open>The wait groups and the active count are the numbers of goroutines they stand for; there is
  at most one accept loop and one waiting \<^verbatim>\<open>Stop\<close>; the listener is open while the proxy runs; the channels are
  closed by the accept loop on its way; and once a \<^verbatim>\<open>Stop\<close> waits for the handlers there is no accept loop.\<close>

fun life_inv :: "life \<Rightarrow> bool" where
  "life_inv Panic = False"
| "life_inv (Live p T) \<longleftrightarrow>
     tp_acceptWg p = int (size (filter_mset is_accept T)) \<and> size (filter_mset is_accept T) \<le> 1 \<and>
     tp_connWg p = int (size (filter_mset is_handler T)) \<and> tp_activeConns p = int (count T HandlerRunning) \<and>
     size (filter_mset is_stop T) \<le> (if tp_stopped p then 1 else 0) \<and>
     \<not> (tp_running p \<and> tp_stopped p) \<and> (tp_listener p = Some True) = tp_running p \<and>
     (\<not> tp_running p \<and> \<not> tp_stopped p \<longrightarrow> T = {#} \<and> \<not> tp_readyClosed p \<and> \<not> tp_doneClosed p) \<and>
     (tp_readyClosed p \<longrightarrow> AcceptSpawned \<notin># T) \<and>
     (tp_running p \<or> 0 < tp_acceptWg p \<longrightarrow> tp_readyClosed p \<or> AcceptSpawned \<in># T) \<and>
     (tp_doneClosed p \<longrightarrow> (\<forall>t \<in># T. is_accept t \<longrightarrow> t = AcceptLeaving)) \<and>
     (StopWaitConns \<in># T \<longrightarrow> filter_mset is_accept T = {#})"

lemma NewTCPProxy_life [simp]:
  "tp_acceptWg (NewTCPProxy a l opts) = 0" "tp_connWg (NewTCPProxy a l opts) = 0" "tp_activeConns (NewTCPProxy a l opts) = 0"
  "\<not> tp_running (NewTCPProxy a l opts)" "\<not> tp_stopped (NewTCPProxy a l opts)"
  "\<not> tp_readyClosed (NewTCPProxy a l opts)" "\<not> tp_doneClosed (NewTCPProxy a l opts)" "tp_listener (NewTCPProxy a l opts) = None"
proof -
  let ?same = "\<lambda>q p :: TCPProxy. tp_acceptWg q = tp_acceptWg p \<and> tp_connWg q = tp_connWg p \<and>
      tp_activeConns q = tp_activeConns p \<and> tp_running q = tp_running p \<and> tp_stopped q = tp_stopped p \<and>
      tp_readyClosed q = tp_readyClosed p \<and> tp_doneClosed q = tp_doneClosed p \<and> tp_listener q = tp_listener p"
  have step: "?same (apply_option e q) q" for e q by (cases e) simp_all
  have "?same (fold apply_option es q) q" for es q
    by (induction es arbitrary: q) (simp_all add: step)
  then show "tp_acceptWg (NewTCPProxy a l opts) = 0" "tp_connWg (NewTCPProxy a l opts) = 0" "tp_activeConns (NewTCPProxy a l opts) = 0"
    "\<not> tp_running (NewTCPProxy a l opts)" "\<not> tp_stopped (NewTCPProxy a l opts)"
    "\<not> tp_readyClosed (NewTCPProxy a l opts)" "\<not> tp_doneClosed (NewTCPProxy a l opts)" "tp_listener (NewTCPProxy a l opts) = None"
    by (simp_all add: NewTCPProxy_def)
qed

lemma filter_mset_empty: "size (filter_mset P T) = 0 \<longleftrightarrow> (\<forall>t \<in># T. \<not> P t)"
  by (auto simp: filter_mset_eq_conv)

lemma one_accept:
  assumes "life_inv (Live p (add_mset t T))" and "is_accept t"
  shows "\<forall>u \<in># T. \<not> is_accept u" "tp_acceptWg p = 1" "StopWaitConns \<notin># T" "filter_mset is_accept T = {#}"
    "t \<noteq> AcceptLeaving \<Longrightarrow> \<not> tp_doneClosed p"
proof -
  show none: "\<forall>u \<in># T. \<not> is_accept u" using assms unfolding filter_mset_empty [symmetric] by simp
  then show e: "filter_mset is_accept T = {#}" by (auto simp: filter_mset_eq_conv)
  then show "tp_acceptWg p = 1" "StopWaitConns \<notin># T" "t \<noteq> AcceptLeaving \<Longrightarrow> \<not> tp_doneClosed p" using assms by auto
qed

lemma close_done_inv:
  assumes "life_inv (Live p (add_mset t T))" and "t = AcceptLooping \<or> t = AcceptChecked \<or> t = AcceptWaiting"
  shows "life_inv (close_done p (add_mset AcceptLeaving T))"
proof -
  have a: "is_accept t" "t \<noteq> AcceptLeaving" "t \<noteq> AcceptSpawned" using assms(2) by auto
  note one = one_accept [OF assms(1) a(1)]
  show ?thesis using one(1,5) assms a by (auto simp: close_done_def)
qed

lemma accept_step_inv: "accept_step ctx p T s \<Longrightarrow> life_inv (Live p T) \<Longrightarrow> life_inv s"
proof (induction rule: accept_step.induct)
  case (ready p T)
  then show ?case using one_accept [OF ready] by (auto simp: close_ready_def)
next
  case (spawn p T)
  then show ?case using one_accept [OF spawn] by auto
next
  case (ctx_done p T)
  then show ?case by (auto intro: close_done_inv simp del: life_inv.simps)
next
  case (deadline_err p T)
  then show ?case by (auto intro: close_done_inv simp del: life_inv.simps)
next
  case (accept_closed p T)
  then show ?case by (auto intro: close_done_inv simp del: life_inv.simps)
next
  case (left p T)
  then have "size (filter_mset is_accept T) \<le> 1" by (subst one_accept(4) [OF left]) simp_all
  then show ?case using left one_accept(1,2,3) [OF left] by auto
qed (auto dest: one_accept)

lemma accept_step_flags:
  "accept_step ctx p T s \<Longrightarrow> s = Live q U \<Longrightarrow>
    tp_running q = tp_running p \<and> tp_stopped q = tp_stopped p \<and> tp_listener q = tp_listener p"
  by (induction rule: accept_step.induct) (auto simp: close_ready_def close_done_def split: if_splits)

lemma life_step_inv: "life_step ctx s s' \<Longrightarrow> life_inv s \<Longrightarrow> life_inv s'"
proof (induction rule: life_step.induct)
  case (start_ok listen p p' T)
  then show ?case by (auto simp: tp_Start_def split: if_splits option.splits)
next
  case (start_err listen p e p' T)
  then show ?case by (auto simp: tp_Start_def split: if_splits option.splits)
next
  case (accepting p T s)
  then show ?case by (rule accept_step_inv)
next
  case (accept_fails p T)
  then show ?case by (rule close_done_inv) simp
next
  case (stop_now p p' T)
  then show ?case by (auto simp: tp_StopEnter_def split: if_splits)
next
  case (stop_enter p p' T)
  then show ?case by (auto simp: tp_StopEnter_def filter_mset_empty split: if_splits)
qed (auto simp: filter_mset_empty split: if_splits)

text \<open>The accept loop is never stuck, and once the context is done or the listener closed each of its steps brings it
  nearer to its end: how many are left at most.\<close>

fun accept_rank :: "bool \<Rightarrow> tcp_pc \<Rightarrow> nat" where
  "accept_rank opened AcceptSpawned = (if opened then 8 else 5)"
| "accept_rank opened AcceptChecked = (if opened then 7 else 2)"
| "accept_rank opened AcceptWaiting = (if opened then 6 else 2)"
| "accept_rank opened AcceptHolding = (if opened then 5 else 4)"
| "accept_rank opened AcceptLooping = (if opened then 4 else 3)"
| "accept_rank opened AcceptLeaving = 1"
| "accept_rank opened _ = 0"

fun accept_work :: "life \<Rightarrow> nat" where
  "accept_work (Live p T) = (\<Sum>t \<in># T. accept_rank (tp_listener p = Some True) t)"
| "accept_work Panic = 0"

lemma accept_rank_mono: "accept_rank False t \<le> accept_rank opened t"
  by (cases t) simp_all

lemma accept_enabled:
  assumes "t \<in># T" and "is_accept t"
  shows "\<exists>s. accept_step ctx p T s"
proof -
  obtain U where T: "T = add_mset t U" using assms(1) by (meson multi_member_split)
  show ?thesis
  proof (cases t)
    case AcceptLooping
    then show ?thesis unfolding T by (cases ctx) (blast intro: accept_step.intros)+
  next
    case AcceptChecked
    then show ?thesis unfolding T by (cases "tp_listener p = Some True") (blast intro: accept_step.intros)+
  next
    case AcceptWaiting
    then show ?thesis unfolding T by (cases "tp_listener p = Some True") (blast intro: accept_step.intros)+
  qed (use assms(2) T in \<open>auto intro: accept_step.intros\<close>)
qed

lemma accept_decreases:
  assumes "accept_step ctx p T s" and "ctx \<or> tp_listener p \<noteq> Some True"
  shows "accept_work s < accept_work (Live p T)"
  using assms by (induction rule: accept_step.induct) (auto simp: close_ready_def close_done_def)

lemma life_step_work:
  assumes "life_step ctx (Live p T) s" and "ctx \<or> tp_listener p \<noteq> Some True" and "\<And>q U. s = Live q U \<Longrightarrow> \<not> tp_running p \<Longrightarrow> \<not> tp_running q"
  shows "accept_work s \<le> accept_work (Live p T)"
  using assms(1)
proof cases
  case (accepting)
  then show ?thesis using accept_decreases assms(2) by (simp add: less_imp_le)
next
  case (stop_enter p')
  then show ?thesis
    by (auto simp: tp_StopEnter_def map_option_case intro!: sum_mset_mono accept_rank_mono split: if_splits option.splits)
qed (use assms(3) in \<open>auto simp: tp_Start_def tp_StopEnter_def close_done_def intro!: sum_mset_mono accept_rank_mono split: if_splits option.splits\<close>)

lemma stopped_step:
  assumes "life_step ctx (Live p T) (Live q U)" and "\<not> tp_running p" and "tp_stopped p"
  shows "\<not> tp_running q"
  using assms by cases (auto simp: tp_Start_def tp_StopEnter_def close_done_def dest: accept_step_flags split: if_splits)

fun handlers :: "life \<Rightarrow> nat" where
  "handlers (Live p T) = size (filter_mset is_handler T)"
| "handlers Panic = 0"

fun draining :: "life \<Rightarrow> bool" where
  "draining (Live p T) \<longleftrightarrow> StopWaitConns \<in># T"
| "draining Panic = False"

lemma accept_step_needs: "accept_step ctx p T s \<Longrightarrow> \<exists>t \<in># T. is_accept t"
  by (induction rule: accept_step.induct) auto

lemma draining_step:
  assumes "life_step ctx s s'" and "life_inv s" and "draining s"
  shows "handlers s' \<le> handlers s"
  using assms
proof (induction rule: life_step.induct)
  case (accepting p T s)
  then show ?case using accept_step_needs [OF accepting(1)] by (auto simp: filter_mset_eq_conv)
qed (auto simp: close_done_def split: if_splits)

text \<open>Nothing of the proxy is left but calls of \<^verbatim>\<open>Stop\<close>, and it stays so: a stopped proxy is not started again.\<close>

fun idle :: "life \<Rightarrow> bool" where
  "idle (Live p T) \<longleftrightarrow> tp_stopped p \<and> tp_listener p \<noteq> Some True \<and> (\<forall>t \<in># T. \<not> is_accept t \<and> \<not> is_handler t) \<and>
     tp_acceptWg p = 0 \<and> tp_connWg p = 0 \<and> tp_activeConns p = 0"
| "idle Panic = False"

lemma idle_step:
  assumes "life_step ctx s s'" and "life_inv s" and "idle s"
  shows "idle s'"
  using assms
proof (induction rule: life_step.induct)
  case (accepting p T s)
  then show ?case using accept_step_needs [OF accepting(1)] by auto
qed (auto simp: tp_Start_def tp_StopEnter_def split: if_splits)

interpretation life_sys: step_system life_move life_inv
  by unfold_locales (auto simp: life_move_def intro: life_step_inv)

interpretation idle_sys: step_system life_move "\<lambda>s. life_inv s \<and> idle s"
  by unfold_locales (auto simp: life_move_def intro: life_step_inv idle_step)

lemma drained_idle:
  assumes "life_inv (Live p (add_mset StopWaitConns T))" and "tp_connWg p = 0"
  shows "life_inv (Live p T) \<and> idle (Live p T)"
proof -
  have "life_inv (Live p T)" using life_step_inv [OF stop_done [OF assms(2)] assms(1)] .
  moreover have "\<forall>t \<in># T. \<not> is_accept t" "\<forall>t \<in># T. \<not> is_handler t"
    using assms by (auto simp: filter_mset_eq_conv filter_mset_empty [unfolded One_nat_def])
  moreover have "tp_stopped p" using assms(1) by (auto split: if_splits)
  ultimately show ?thesis using assms by (auto simp: count_eq_zero_iff)
qed

text \<open>C9: the life cycle is sound under every interleaving of \<^verbatim>\<open>Start\<close>, \<^verbatim>\<open>Stop\<close>, the
  accept loop and the handlers, with any number of callers: no channel is closed twice, and the
  active count and the wait group are the numbers of running and of pending handlers. Of the calls of
  \<^verbatim>\<open>Stop\<close>, the one that shuts the proxy down waits (any other returns at once). While it waits for the accept loop, the
  loop can always go on and each of its steps brings it nearer to its end, which no other step
  undoes. While it waits for the handlers, none is added. And when it returns because they are all
  gone, there is never again an accept loop, a handler, an active connection or an open listener.\<close>

theorem lifecycle_safe:
  assumes "life_move\<^sup>*\<^sup>* (Live (NewTCPProxy addr lb opts) {#}) s"
  shows "\<exists>p T. s = Live p T \<and> tp_connWg p = int (size (filter_mset is_handler T)) \<and>
    tp_activeConns p = int (count T HandlerRunning) \<and>
    (StopWaitAccept \<in># T \<longrightarrow> (\<forall>ctx. (tp_acceptWg p \<noteq> 0 \<longrightarrow> (\<exists>s'. accept_step ctx p T s')) \<and>
      (\<forall>s'. accept_step ctx p T s' \<longrightarrow> accept_work s' < accept_work s) \<and>
      (\<forall>s'. life_step ctx s s' \<longrightarrow> accept_work s' \<le> accept_work s))) \<and>
    (StopWaitConns \<in># T \<longrightarrow> (\<forall>s'. life_move s s' \<longrightarrow> handlers s' \<le> handlers s) \<and>
      (tp_connWg p = 0 \<longrightarrow> (\<forall>s'. life_move\<^sup>*\<^sup>* (Live p (T - {#StopWaitConns#})) s' \<longrightarrow> idle s')))"
proof -
  have inv: "life_inv s"
    using life_sys.reach_keeps [OF assms] by (simp add: NewTCPProxy_life)
  then obtain p T where s: "s = Live p T" by (cases s) auto
  have loop: "\<exists>s'. accept_step ctx p T s'" if "tp_acceptWg p \<noteq> 0" for ctx
  proof -
    have "\<not> (\<forall>t \<in># T. \<not> is_accept t)" using inv that by (auto simp: s filter_mset_empty [symmetric])
    then show ?thesis using accept_enabled by blast
  qed
  have closed: "tp_listener p \<noteq> Some True" "tp_stopped p" if "StopWaitAccept \<in># T"
  proof -
    have "filter_mset is_stop T \<noteq> {#}" using that by (auto simp: filter_mset_eq_conv intro: bexI [of _ StopWaitAccept])
    then show "tp_stopped p" "tp_listener p \<noteq> Some True" using inv by (auto simp: s split: if_splits)
  qed
  have down: "accept_work s' \<le> accept_work s" if "StopWaitAccept \<in># T" "life_step ctx s s'" for ctx s'
    unfolding s
  proof (rule life_step_work)
    show "life_step ctx (Live p T) s'" using that(2) s by simp
    fix q U assume q: "s' = Live q U"
    have "\<not> tp_running p" using inv closed(2) [OF that(1)] by (simp add: s)
    then show "\<not> tp_running q" using stopped_step closed(2) [OF that(1)] that(2) unfolding s q by blast
  qed (use closed that in simp)
  have counts: "tp_connWg p = int (size (filter_mset is_handler T)) \<and> tp_activeConns p = int (count T HandlerRunning)"
    using inv by (simp add: s)
  have shrinks: "accept_work s' < accept_work s" if "StopWaitAccept \<in># T" "accept_step ctx p T s'" for ctx s'
    using accept_decreases [OF that(2)] closed(1) [OF that(1)] by (simp add: s)
  have drained: "idle s'"
    if "StopWaitConns \<in># T" "tp_connWg p = 0" "life_move\<^sup>*\<^sup>* (Live p (T - {#StopWaitConns#})) s'" for s'
  proof -
    have "life_inv (Live p (add_mset StopWaitConns (T - {#StopWaitConns#})))" using inv s that(1) by (simp only: insert_DiffM)
    then have "life_inv (Live p (T - {#StopWaitConns#})) \<and> idle (Live p (T - {#StopWaitConns#}))" using that(2) by (rule drained_idle)
    then show ?thesis using idle_sys.reach_keeps [OF that(3)] by blast
  qed
  have falls: "handlers s' \<le> handlers s" if "StopWaitConns \<in># T" "life_move s s'" for s'
    using that draining_step [OF _ inv] by (auto simp: life_move_def s)
  show ?thesis using s counts loop shrinks down drained falls by blast
qed

text \<open>A run that starts the proxy and stops it while the accept loop waits.\<close>

lemma life_moves:
  "life_step ctx s s' \<Longrightarrow> life_move s s'" "accept_step ctx p T s' \<Longrightarrow> life_move (Live p T) s'"
  by (cases ctx; auto simp: life_move_def dest: accepting)+

lemma sample_shutdown:
  "\<exists>p. life_move\<^sup>*\<^sup>* (Live (NewTCPProxy '':0'' True []) {#}) (Live p {#StopWaitConns#}) \<and> tp_connWg p = 0"
proof -
  let ?p0 = "NewTCPProxy '':0'' True []"
  let ?p1 = "?p0\<lparr>tp_listener := Some True, tp_running := True, tp_acceptWg := 1\<rparr>"
  let ?p2 = "?p1\<lparr>tp_readyClosed := True\<rparr>"
  let ?p3 = "?p2\<lparr>tp_running := False, tp_stopped := True, tp_listener := Some False\<rparr>"
  let ?p4 = "?p3\<lparr>tp_doneClosed := True\<rparr>"
  let ?p5 = "?p4\<lparr>tp_acceptWg := 0\<rparr>"
  have "life_move (Live ?p0 {#}) (Live ?p1 {#AcceptSpawned#})"
    by (rule life_moves(1) [of False], rule start_ok [of None]) (simp add: tp_Start_def NewTCPProxy_def)
  moreover have "life_move (Live ?p1 {#AcceptSpawned#}) (Live ?p2 {#AcceptLooping#})"
    using life_moves(2) [OF ready [of False ?p1 "{#}"]] by (simp add: close_ready_def)
  moreover have "life_move (Live ?p2 {#AcceptLooping#}) (Live ?p2 {#AcceptChecked#})"
    by (rule life_moves(2) [of False], rule ctx_alive) simp
  moreover have "life_move (Live ?p2 {#AcceptChecked#}) (Live ?p2 {#AcceptWaiting#})"
    by (rule life_moves(2) [of False], rule deadline) simp
  moreover have "life_move (Live ?p2 {#AcceptWaiting#}) (Live ?p3 {#StopWaitAccept, AcceptWaiting#})"
    by (rule life_moves(1) [of False], rule stop_enter) (simp add: tp_StopEnter_def)
  moreover have "life_move (Live ?p3 {#StopWaitAccept, AcceptWaiting#}) (Live ?p4 {#StopWaitAccept, AcceptLeaving#})"
    using life_moves(2) [OF accept_closed [of ?p3 False "{#StopWaitAccept#}"]] by (simp add: close_done_def add_mset_commute)
  moreover have "life_move (Live ?p4 {#StopWaitAccept, AcceptLeaving#}) (Live ?p5 {#StopWaitAccept#})"
    using life_moves(2) [OF left [of False ?p4 "{#StopWaitAccept#}"]] by (simp add: add_mset_commute)
  moreover have "life_move (Live ?p5 {#StopWaitAccept#}) (Live ?p5 {#StopWaitConns#})"
    by (rule life_moves(1) [of False], rule stop_drain) simp
  ultimately have "life_move\<^sup>*\<^sup>* (Live ?p0 {#}) (Live ?p5 {#StopWaitConns#})"
    by (meson converse_rtranclp_into_rtranclp rtranclp.rtrancl_refl)
  then show ?thesis by (intro exI [of _ ?p5]) simp
qed

theorem lifecycle_safe_witness:
  "\<exists>p. life_move\<^sup>*\<^sup>* (Live (NewTCPProxy '':0'' True []) {#}) (Live p {#StopWaitConns#}) \<and>
    idle (Live p {#}) \<and> (\<nexists>s. life_move\<^sup>*\<^sup>* (Live p {#}) s \<and> \<not> idle s)"
proof -
  obtain p where p: "life_move\<^sup>*\<^sup>* (Live (NewTCPProxy '':0'' True []) {#}) (Live p {#StopWaitConns#})" "tp_connWg p = 0"
    using sample_shutdown by blast
  from lifecycle_safe [OF p(1)] have "\<forall>s. life_move\<^sup>*\<^sup>* (Live p {#}) s \<longrightarrow> idle s" using p(2) by simp
  then have "idle (Live p {#})" "\<nexists>s. life_move\<^sup>*\<^sup>* (Live p {#}) s \<and> \<not> idle s" by blast+
  with p(1) show ?thesis by blast
qed

text \<open>A proxy is started at most once: after \<^verbatim>\<open>Stop\<close>, also one that came before any
  \<^verbatim>\<open>Start\<close>, every \<^verbatim>\<open>Start\<close> is refused and changes nothing, and a further \<^verbatim>\<open>Stop\<close>
  returns at once.\<close>

theorem stopped_for_good:
  "tp_Start listen (snd (tp_StopEnter p)) = (Some AlreadyStopped, snd (tp_StopEnter p)) \<and>
   tp_StopEnter (snd (tp_StopEnter p)) = (True, snd (tp_StopEnter p))"
  by (simp add: tp_Start_def tp_StopEnter_def)

end
