(* ===== verification/Relay.thy ===== *)
theory Relay
  imports TCPProxy
begin

text \<open>
  The two copies of a proxied connection as they run at the same time
  (\<^verbatim>\<open>handleConnection\<close>, steps 3 and 4, and \<^verbatim>\<open>copyWithHalfCloseAndCount\<close> in
  \<^verbatim>\<open>internal/proxy/tcp.go\<close>). \<open>TCPProxy\<close> takes what each copy has read and written as given and computes the
  outcome of the handler. Here the bytes travel: a peer sends into the buffer of a socket, a
  goroutine of the proxy copies from it to the buffer of the other socket, the other peer takes them
  from there, and the half-close tells it the end. The handler waits for both copies, so the
  question is whether they come to an end.
\<close>

section \<open>One direction\<close>

text \<open>The goroutine of a copy: inside \<^verbatim>\<open>Read\<close>, inside \<^verbatim>\<open>Write\<close> of a chunk with a rest that is not written
  yet, between \<^verbatim>\<open>io.CopyBuffer\<close> and \<^verbatim>\<open>CloseWrite\<close>, or past \<^verbatim>\<open>wg.Done()\<close>.\<close>

datatype copy_pc = CopyReading | CopyWriting string string | CopyClosing | CopyDone

text \<open>What the source has still to send and whether it has ended its stream, the bytes in the receive buffer, the
  goroutine with the results of its calls of \<^verbatim>\<open>Read\<close> and \<^verbatim>\<open>Write\<close>, the state that holds the
  destination socket, the bytes on their way to the destination, what it has taken, and whether it has seen the end.\<close>

record 's direction =
  d_unsent :: string
  d_ended :: bool
  d_in :: string
  d_pc :: copy_pc
  d_reads :: "(string \<times> net_error option) list"
  d_writes :: "(nat \<times> net_error option) list"
  d_dst :: 's
  d_out :: string
  d_got :: string
  d_seen :: bool

definition dir_start :: "string \<Rightarrow> 's \<Rightarrow> 's direction" where
  "dir_start script dst = \<lparr>d_unsent = script, d_ended = False, d_in = [], d_pc = CopyReading, d_reads = [], d_writes = [],
     d_dst = dst, d_out = [], d_got = [], d_seen = False\<rparr>"

definition bufSize :: nat where
  "bufSize = 32 * 1024"

text \<open>One step: \<open>go\<close> says whether the source may send now, \<open>cap\<close> bounds what a socket buffers in either
  direction. \<^verbatim>\<open>Write\<close> returns when it has handed over the whole chunk.\<close>

inductive dir_step :: "('s \<Rightarrow> 's) \<Rightarrow> ('s \<Rightarrow> bool) \<Rightarrow> nat \<Rightarrow> bool \<Rightarrow> 's direction \<Rightarrow> 's direction \<Rightarrow> bool"
  for closeWrite finSent cap go where
  send: "go \<Longrightarrow> d_unsent d = x @ y \<Longrightarrow> x \<noteq> [] \<Longrightarrow> length (d_in d) + length x \<le> cap \<Longrightarrow>
    dir_step closeWrite finSent cap go d (d\<lparr>d_unsent := y, d_in := d_in d @ x\<rparr>)"
| end_stream: "go \<Longrightarrow> d_unsent d = [] \<Longrightarrow> \<not> d_ended d \<Longrightarrow> dir_step closeWrite finSent cap go d (d\<lparr>d_ended := True\<rparr>)"
| read: "d_pc d = CopyReading \<Longrightarrow> d_in d = x @ y \<Longrightarrow> x \<noteq> [] \<Longrightarrow> length x \<le> bufSize \<Longrightarrow>
    dir_step closeWrite finSent cap go d (d\<lparr>d_in := y, d_pc := CopyWriting x x, d_reads := d_reads d @ [(x, None)]\<rparr>)"
| read_eof: "d_pc d = CopyReading \<Longrightarrow> d_in d = [] \<Longrightarrow> d_ended d \<Longrightarrow>
    dir_step closeWrite finSent cap go d (d\<lparr>d_pc := CopyClosing, d_reads := d_reads d @ [([], Some ErrEOF)]\<rparr>)"
| write_part: "d_pc d = CopyWriting w (x @ y) \<Longrightarrow> x \<noteq> [] \<Longrightarrow> y \<noteq> [] \<Longrightarrow> length (d_out d) + length x \<le> cap \<Longrightarrow>
    dir_step closeWrite finSent cap go d (d\<lparr>d_pc := CopyWriting w y, d_out := d_out d @ x\<rparr>)"
| written: "d_pc d = CopyWriting w x \<Longrightarrow> length (d_out d) + length x \<le> cap \<Longrightarrow>
    dir_step closeWrite finSent cap go d
      (d\<lparr>d_pc := CopyReading, d_out := d_out d @ x, d_writes := d_writes d @ [(length w, None)]\<rparr>)"
| half_close: "d_pc d = CopyClosing \<Longrightarrow>
    dir_step closeWrite finSent cap go d (d\<lparr>d_pc := CopyDone, d_dst := closeWrite (d_dst d)\<rparr>)"
| take_out: "d_out d = x @ y \<Longrightarrow> x \<noteq> [] \<Longrightarrow> dir_step closeWrite finSent cap go d (d\<lparr>d_out := y, d_got := d_got d @ x\<rparr>)"
| see_end: "d_out d = [] \<Longrightarrow> finSent (d_dst d) \<Longrightarrow> \<not> d_seen d \<Longrightarrow> dir_step closeWrite finSent cap go d (d\<lparr>d_seen := True\<rparr>)"

text \<open>A call of the copy may fail at any moment.\<close>

inductive dir_fault :: "'s direction \<Rightarrow> 's direction \<Rightarrow> bool" where
  read_fails: "d_pc d = CopyReading \<Longrightarrow> e \<noteq> ErrEOF \<Longrightarrow>
    dir_fault d (d\<lparr>d_pc := CopyClosing, d_reads := d_reads d @ [([], Some e)]\<rparr>)"
| write_fails: "d_pc d = CopyWriting w x \<Longrightarrow>
    dir_fault d (d\<lparr>d_pc := CopyClosing, d_writes := d_writes d @ [(length w - length x, Some e)]\<rparr>)"

text \<open>The steps that are left at most.\<close>

fun copy_work :: "copy_pc \<Rightarrow> nat" where
  "copy_work CopyReading = 2"
| "copy_work (CopyWriting w x) = 3 + 2 * length x"
| "copy_work CopyClosing = 1"
| "copy_work CopyDone = 0"

definition dir_work :: "'s direction \<Rightarrow> nat" where
  "dir_work d = 5 * length (d_unsent d) + 4 * length (d_in d) + copy_work (d_pc d) + length (d_out d) +
     (if d_ended d then 0 else 1) + (if d_seen d then 0 else 1)"

lemma dir_step_work: "dir_step cw fin cap go d d' \<Longrightarrow> dir_work d' < dir_work d"
  by (induction rule: dir_step.induct) (auto simp: dir_work_def simp flip: length_greater_0_conv)

lemma dir_fault_work: "dir_fault d d' \<Longrightarrow> dir_work d' < dir_work d"
  by (induction rule: dir_fault.induct) (auto simp: dir_work_def)

text \<open>Where the bytes of the source are, and what \<open>CopyBuffer\<close> makes of the calls so far: while the copy
  reads, it goes on from what has been delivered; when the copy is through, it returns that. Only a
  fault (\<open>f\<close>) makes the copy end with an error, and without one everything is delivered.\<close>

definition copies :: "(string \<times> net_error option) list \<Rightarrow> (nat \<times> net_error option) list \<Rightarrow> string \<Rightarrow> bool" where
  "copies rs ws out \<longleftrightarrow> (\<forall>rs' ws'. CopyBuffer (rs @ rs') (ws @ ws') [] = CopyBuffer rs' ws' out)"

fun copy_inv :: "bool \<Rightarrow> string \<Rightarrow> copy_pc \<Rightarrow> 's direction \<Rightarrow> bool" where
  "copy_inv f script CopyReading d \<longleftrightarrow> copies (d_reads d) (d_writes d) (d_got d @ d_out d) \<and>
     d_got d @ d_out d @ d_in d @ d_unsent d = script"
| "copy_inv f script (CopyWriting w x) d \<longleftrightarrow> w \<noteq> [] \<and> d_got d @ d_out d @ x @ d_in d @ d_unsent d = script \<and>
     (\<exists>rs out v. w = v @ x \<and> d_reads d = rs @ [(w, None)] \<and> copies rs (d_writes d) out \<and> d_got d @ d_out d = out @ v)"
| "copy_inv f script _ d \<longleftrightarrow> (\<exists>err. CopyBuffer (d_reads d) (d_writes d) [] = Some (d_got d @ d_out d, err) \<and>
     (f \<or> err = None \<and> d_got d @ d_out d = script))"

definition dir_inv :: "('s \<Rightarrow> bool) \<Rightarrow> ('s \<Rightarrow> bool) \<Rightarrow> bool \<Rightarrow> string \<Rightarrow> 's direction \<Rightarrow> bool" where
  "dir_inv finSent usable f script d \<longleftrightarrow> copy_inv f script (d_pc d) d \<and>
     (if d_pc d = CopyDone then finSent (d_dst d) else usable (d_dst d)) \<and> (d_ended d \<longrightarrow> d_unsent d = [])"

lemma copies_Nil [simp]: "copies [] [] []"
  by (simp add: copies_def)

lemma copies_written: "copies rs ws out \<Longrightarrow> w \<noteq> [] \<Longrightarrow> copies (rs @ [(w, None)]) (ws @ [(length w, None)]) (out @ w)"
  by (simp add: copies_def)

lemma copies_write_fails:
  "copies rs ws out \<Longrightarrow> w \<noteq> [] \<Longrightarrow> CopyBuffer (rs @ [(w, None)]) (ws @ [(n, Some e)]) [] = Some (out @ take n w, Some e)"
  by (simp add: copies_def)

lemma copies_ends:
  "copies rs ws out \<Longrightarrow> CopyBuffer (rs @ [([], Some e)]) ws [] = Some (out, if e = ErrEOF then None else Some e)"
  unfolding copies_def by (drule spec [of _ "[([], Some e)]"], drule spec [of _ "[]"]) simp

lemma dir_fault_inv: "dir_fault d d' \<Longrightarrow> dir_inv fin ok f script d \<Longrightarrow> dir_inv fin ok True script d'"
proof (induction rule: dir_fault.induct)
  case (read_fails d e)
  then show ?case by (auto simp: dir_inv_def copies_ends)
next
  case (write_fails d w x e)
  then show ?case by (auto simp: dir_inv_def copies_write_fails)
qed

text \<open>The contract of a half-close: on a socket that can still be written, it sends the FIN.\<close>

locale half_closing =
  fixes closeWrite :: "'s \<Rightarrow> 's"
    and finSent :: "'s \<Rightarrow> bool"
    and usable :: "'s \<Rightarrow> bool"
  assumes fin_reaches: "usable s \<Longrightarrow> finSent (closeWrite s)"
begin

lemma dir_step_inv: "dir_step closeWrite finSent cap go d d' \<Longrightarrow> dir_inv finSent usable f script d \<Longrightarrow> dir_inv finSent usable f script d'"
proof (induction rule: dir_step.induct)
  case (send d x y)
  then show ?case by (cases "d_pc d") (auto simp: dir_inv_def)
next
  case (end_stream d)
  then show ?case by (cases "d_pc d") (auto simp: dir_inv_def)
next
  case (read d x y)
  then show ?case by (auto simp: dir_inv_def)
next
  case (read_eof d)
  then show ?case by (auto simp: dir_inv_def copies_ends)
next
  case (written d w x)
  then obtain rs out v where w: "w = v @ x" "w \<noteq> []" "d_reads d = rs @ [(w, None)]" "copies rs (d_writes d) out"
    "d_got d @ d_out d = out @ v" "d_got d @ d_out d @ x @ d_in d @ d_unsent d = script"
    by (auto simp: dir_inv_def)
  have "copies (d_reads d) (d_writes d @ [(length w, None)]) (d_got d @ d_out d @ x)"
    using copies_written [OF w(4,2)] w(5) by (simp add: w(3) w(1) flip: append_assoc)
  then show ?case using written w(6) by (simp add: dir_inv_def)
next
  case (take_out d x y)
  then show ?case by (cases "d_pc d") (auto simp: dir_inv_def)
next
  case (see_end d)
  then show ?case by (cases "d_pc d") (auto simp: dir_inv_def)
qed (auto simp: dir_inv_def fin_reaches)

text \<open>A direction whose source may send goes on until its destination has seen the end.\<close>

lemma dir_live:
  assumes "dir_inv finSent usable f script d" and "0 < cap" and "go" and "\<not> (d_pc d = CopyDone \<and> d_seen d)"
  shows "\<exists>d'. dir_step closeWrite finSent cap go d d'"
proof (cases "d_out d = []")
  case False
  then show ?thesis using take_out [of d "d_out d" "[]"] by fastforce
next
  case empty: True
  show ?thesis
  proof (cases "d_pc d")
    case reading: CopyReading
    show ?thesis
    proof (cases "d_in d")
      case (Cons c cs)
      then show ?thesis using read [where x = "[c]" and y = cs and cap = cap and go = go, OF reading] by (auto simp: bufSize_def)
    next
      case Nil
      show ?thesis
      proof (cases "d_unsent d")
        case (Cons c cs)
        then show ?thesis using send [OF assms(3), of d "[c]" cs cap] Nil assms(2) by auto
      next
        case no_more: Nil
        then show ?thesis using read_eof [OF reading Nil] end_stream [OF assms(3) no_more] by (cases "d_ended d") blast+
      qed
    qed
  next
    case (CopyWriting w x)
    show ?thesis
    proof (cases "length x \<le> cap")
      case True
      then show ?thesis using written [OF CopyWriting, of cap] empty by auto
    next
      case False
      have "take cap x \<noteq> []" "drop cap x \<noteq> []" using False assms(2) by auto
      then show ?thesis using write_part [of d w "take cap x" "drop cap x" cap] CopyWriting empty by auto
    qed
  next
    case CopyClosing
    then show ?thesis using half_close by blast
  next
    case CopyDone
    then show ?thesis using assms(1,4) empty see_end [of d finSent] by (auto simp: dir_inv_def)
  qed
qed

end

section \<open>Both directions\<close>

text \<open>The client's socket, and the backend's socket behind its pooled connection.\<close>

definition open_socket :: "socket \<Rightarrow> bool" where
  "open_socket s \<longleftrightarrow> sock_isTCP s \<and> \<not> sock_closed s \<and> \<not> sock_finSent s"

definition conn_finSent :: "conn_ref \<Rightarrow> heap \<Rightarrow> bool" where
  "conn_finSent c h = sock_finSent (c_Conn (h_conns h c))"

definition open_conn :: "conn_ref \<Rightarrow> heap \<Rightarrow> bool" where
  "open_conn c h \<longleftrightarrow> \<not> c_returned (h_conns h c) \<and> open_socket (c_Conn (h_conns h c))"

interpretation to_client: half_closing client_CloseWrite sock_finSent open_socket
  by unfold_locales (simp add: client_CloseWrite_def sock_CloseWrite_def open_socket_def)

interpretation to_backend: half_closing "\<lambda>h. snd (c_CloseWrite c h)" "conn_finSent c" "open_conn c" for c
  by unfold_locales
    (simp add: c_CloseWrite_def sock_CloseWrite_def open_conn_def open_socket_def conn_finSent_def upd_conn_def Let_def)

text \<open>The handler starts both copies and waits for both. A client that waits (\<open>wc\<close>) sends only when it has seen the
  end of the backend's stream, a backend that waits (\<open>wb\<close>) only when it has seen the end of the client's.\<close>

type_synonym relay = "heap direction \<times> socket direction"

definition relay_start :: "string \<Rightarrow> string \<Rightarrow> heap \<Rightarrow> socket \<Rightarrow> relay" where
  "relay_start sent answer h cl = (dir_start sent h, dir_start answer cl)"

inductive relay_step :: "conn_ref \<Rightarrow> nat \<Rightarrow> bool \<Rightarrow> bool \<Rightarrow> relay \<Rightarrow> relay \<Rightarrow> bool" for c cap wc wb where
  up_step: "dir_step (\<lambda>h. snd (c_CloseWrite c h)) (conn_finSent c) cap (wc \<longrightarrow> d_seen down) up up' \<Longrightarrow>
    relay_step c cap wc wb (up, down) (up', down)"
| down_step: "dir_step client_CloseWrite sock_finSent cap (wb \<longrightarrow> d_seen up) down down' \<Longrightarrow>
    relay_step c cap wc wb (up, down) (up, down')"

inductive relay_fault :: "relay \<Rightarrow> relay \<Rightarrow> bool" where
  up_fault: "dir_fault up up' \<Longrightarrow> relay_fault (up, down) (up', down)"
| down_fault: "dir_fault down down' \<Longrightarrow> relay_fault (up, down) (up, down')"

definition relay_move :: "bool \<Rightarrow> conn_ref \<Rightarrow> nat \<Rightarrow> bool \<Rightarrow> bool \<Rightarrow> relay \<Rightarrow> relay \<Rightarrow> bool" where
  "relay_move f c cap wc wb s s' \<longleftrightarrow> relay_step c cap wc wb s s' \<or> f \<and> relay_fault s s'"

definition relay_work :: "relay \<Rightarrow> nat" where
  "relay_work s = dir_work (fst s) + dir_work (snd s)"

definition relay_inv :: "bool \<Rightarrow> conn_ref \<Rightarrow> string \<Rightarrow> string \<Rightarrow> relay \<Rightarrow> bool" where
  "relay_inv f c sent answer s \<longleftrightarrow>
     dir_inv (conn_finSent c) (open_conn c) f sent (fst s) \<and> dir_inv sock_finSent open_socket f answer (snd s)"

lemma relay_start_inv: "open_conn c h \<Longrightarrow> open_socket cl \<Longrightarrow> relay_inv f c sent answer (relay_start sent answer h cl)"
  by (simp add: relay_inv_def relay_start_def dir_inv_def dir_start_def)

lemma relay_move_inv:
  assumes "relay_move f c cap wc wb s s'" and "relay_inv f c sent answer s"
  shows "relay_inv f c sent answer s'"
proof -
  have "relay_inv f c sent answer s'" if "relay_step c cap wc wb s s'"
    using that assms(2) by cases (auto simp: relay_inv_def intro: to_client.dir_step_inv to_backend.dir_step_inv)
  moreover have "relay_inv f c sent answer s'" if "f" "relay_fault s s'"
    using that(2,1) assms(2) by cases (auto simp: relay_inv_def intro: dir_fault_inv)
  ultimately show ?thesis using assms(1) by (auto simp: relay_move_def)
qed

interpretation relay_sys: step_system "relay_move f c cap wc wb" "relay_inv f c sent answer" for f c cap wc wb sent answer
  by unfold_locales (rule relay_move_inv)

lemma relay_move_work: "relay_move f c cap wc wb s s' \<Longrightarrow> relay_work s' < relay_work s"
  by (auto simp: relay_move_def relay_work_def elim!: relay_step.cases relay_fault.cases dest: dir_step_work dir_fault_work)

lemma relay_live:
  assumes "relay_inv f c sent answer (up, down)" and "0 < cap" and "\<not> (wc \<and> wb)"
    and "\<not> (d_pc up = CopyDone \<and> d_pc down = CopyDone)"
  shows "\<exists>s'. relay_step c cap wc wb (up, down) s'"
proof (rule ccontr)
  assume "\<nexists>s'. relay_step c cap wc wb (up, down) s'"
  then have stuck: "\<nexists>up'. dir_step (\<lambda>h. snd (c_CloseWrite c h)) (conn_finSent c) cap (wc \<longrightarrow> d_seen down) up up'"
    "\<nexists>down'. dir_step client_CloseWrite sock_finSent cap (wb \<longrightarrow> d_seen up) down down'"
    using relay_step.intros by blast+
  have inv: "dir_inv (conn_finSent c) (open_conn c) f sent up" "dir_inv sock_finSent open_socket f answer down"
    using assms(1) by (simp_all add: relay_inv_def)
  have "d_pc up = CopyDone \<and> d_seen up" if "wc \<longrightarrow> d_seen down"
    by (rule ccontr) (use to_backend.dir_live [OF inv(1) assms(2) that] stuck(1) in simp)
  moreover have "d_pc down = CopyDone \<and> d_seen down" if "wb \<longrightarrow> d_seen up"
    by (rule ccontr) (use to_client.dir_live [OF inv(2) assms(2) that] stuck(2) in simp)
  ultimately show False using assms(3,4) by blast
qed

lemma forward_bytes:
  assumes "CopyBuffer (ce_upReads env) (ce_upWrites env) [] = Some (u, e1)"
    and "CopyBuffer (ce_downReads env) (ce_downWrites env) [] = Some (v, e2)"
    and "handleConnection env (p, g, cl) = Some (Proxied b u' v', p', g', cl')"
  shows "u' = u \<and> v' = v"
proof -
  obtain p2 g2 cl2 where body: "tcp_body env (p\<lparr>tp_activeConns := tp_activeConns p + 1\<rparr>, gw_record (tp_metrics p) RecordConnection g, cl) =
      Some (Proxied b u' v', p2, g2, cl2)"
    using assms(3) by (rule handle_Some)
  show ?thesis using body assms(1,2)
    by (auto simp: tcp_body_def tcp_forward_def copyWithHalfCloseAndCount_def Let_def split: prod.splits sum.splits if_splits)
qed

lemma relay_done:
  assumes "relay_inv f c sent answer (up, down)" and "d_pc up = CopyDone" and "d_pc down = CopyDone"
  shows "\<exists>e. CopyBuffer (d_reads up) (d_writes up) [] = Some (d_got up @ d_out up, e) \<and> (f \<or> d_got up @ d_out up = sent)"
    "\<exists>e. CopyBuffer (d_reads down) (d_writes down) [] = Some (d_got down @ d_out down, e) \<and> (f \<or> d_got down @ d_out down = answer)"
  using assms by (auto simp: relay_inv_def dir_inv_def)

text \<open>C36: a proxied connection comes to its end. A client and a backend each have something to
  send and take what they are sent; at most one of them holds its answer back until it has seen the
  end of the other's stream. Socket buffers of any size make both copies wait, and calls may fail
  (\<open>f\<close>). Then every step brings the two copies nearer to their end, and until both are done some step that is not a
  failure is possible: there is no deadlock, because the copies run side by side and
  each passes the end of its stream on. When both are done the handler returns, having passed on
  in each direction what was read and written; if nothing failed that is all that was sent.\<close>

theorem relay_returns:
  assumes "(relay_move f c cap wc wb)\<^sup>*\<^sup>* (relay_start sent answer h cl) (up, down)"
    and "open_conn c h" and "open_socket cl" and "0 < cap" and "\<not> (wc \<and> wb)"
    and "ce_upReads env = d_reads up" and "ce_upWrites env = d_writes up"
    and "ce_downReads env = d_reads down" and "ce_downWrites env = d_writes down"
  shows "(\<forall>s'. relay_move f c cap wc wb (up, down) s' \<longrightarrow> relay_work s' < relay_work (up, down)) \<and>
    (if d_pc up = CopyDone \<and> d_pc down = CopyDone
     then conn_finSent c (d_dst up) \<and> sock_finSent (d_dst down) \<and>
       (\<exists>out p' g' cl'. handleConnection env (p, g, cl) = Some (out, p', g', cl') \<and>
         (\<forall>b u v. out = Proxied b u v \<longrightarrow> u = d_got up @ d_out up \<and> v = d_got down @ d_out down \<and> (f \<or> u = sent \<and> v = answer)))
     else \<exists>s'. relay_step c cap wc wb (up, down) s')"
proof -
  have inv: "relay_inv f c sent answer (up, down)"
    using relay_sys.reach_keeps [OF assms(1)] relay_start_inv [OF assms(2,3)] by blast
  show ?thesis
  proof (cases "d_pc up = CopyDone \<and> d_pc down = CopyDone")
    case True
    obtain e1 where e1: "CopyBuffer (ce_upReads env) (ce_upWrites env) [] = Some (d_got up @ d_out up, e1)" "f \<or> d_got up @ d_out up = sent"
      using relay_done(1) [OF inv] True assms(6,7) by auto
    obtain e2 where e2: "CopyBuffer (ce_downReads env) (ce_downWrites env) [] = Some (d_got down @ d_out down, e2)" "f \<or> d_got down @ d_out down = answer"
      using relay_done(2) [OF inv] True assms(8,9) by auto
    have "handleConnection env (p, g, cl) \<noteq> None" by (rule handle_returns) (use e1 e2 in simp_all)
    moreover have "u = d_got up @ d_out up \<and> v = d_got down @ d_out down"
      if "handleConnection env (p, g, cl) = Some (Proxied b u v, p', g', cl')" for b u v p' g' cl'
      by (rule forward_bytes [OF e1(1) e2(1) that])
    moreover have "conn_finSent c (d_dst up)" "sock_finSent (d_dst down)"
      using inv True by (simp_all add: relay_inv_def dir_inv_def)
    ultimately show ?thesis using True e1(2) e2(2) relay_move_work by fastforce
  qed (use relay_live [OF inv assms(4,5)] relay_move_work in auto)
qed

text \<open>A client that sends nothing and ends its stream, and a backend that waits for that and then answers with one
  byte, through sockets that hold one byte.\<close>

definition sample_relay_heap :: heap where
  "sample_relay_heap = upd_conn 0 (\<lambda>v. v\<lparr>c_Conn := sample_client, c_returned := False\<rparr>) (gw_heap sample_gateway)"

definition sample_up :: "heap direction" where
  "sample_up = \<lparr>d_unsent = [], d_ended = True, d_in = [], d_pc = CopyDone, d_reads = [([], Some ErrEOF)], d_writes = [],
     d_dst = snd (c_CloseWrite 0 sample_relay_heap), d_out = [], d_got = [], d_seen = True\<rparr>"

definition sample_down :: "socket direction" where
  "sample_down = \<lparr>d_unsent = [], d_ended = True, d_in = [], d_pc = CopyDone, d_reads = [(''x'', None), ([], Some ErrEOF)],
     d_writes = [(1, None)], d_dst = client_CloseWrite sample_client, d_out = ''x'', d_got = [], d_seen = False\<rparr>"

lemma sample_relay_open: "open_conn 0 sample_relay_heap" "open_socket sample_client"
  by (simp_all add: open_conn_def open_socket_def sample_relay_heap_def sample_client_def upd_conn_def)

lemma up_run:
  assumes "(dir_step (\<lambda>h. snd (c_CloseWrite c h)) (conn_finSent c) cap True)\<^sup>*\<^sup>* up up'" and "\<not> wc"
  shows "(relay_move f c cap wc wb)\<^sup>*\<^sup>* (up, down) (up', down)"
  using assms(1) by (induction rule: rtranclp_induct)
    (use assms(2) up_step [of c cap wc down] in \<open>auto simp: relay_move_def intro: rtranclp.rtrancl_into_rtrancl\<close>)

lemma down_run:
  assumes "(dir_step client_CloseWrite sock_finSent cap True)\<^sup>*\<^sup>* down down'" and "d_seen up"
  shows "(relay_move f c cap wc wb)\<^sup>*\<^sup>* (up, down) (up, down')"
  using assms(1) by (induction rule: rtranclp_induct)
    (use assms(2) down_step [of cap wb up] in \<open>auto simp: relay_move_def intro: rtranclp.rtrancl_into_rtrancl\<close>)

lemma sample_up_run:
  "(dir_step (\<lambda>h. snd (c_CloseWrite 0 h)) (conn_finSent 0) 1 True)\<^sup>*\<^sup>* (dir_start [] sample_relay_heap) sample_up"
proof -
  let ?cw = "\<lambda>h. snd (c_CloseWrite 0 h)"
  let ?R = "dir_step ?cw (conn_finSent 0) 1 True"
  let ?d0 = "dir_start [] sample_relay_heap"
  let ?d1 = "?d0\<lparr>d_ended := True\<rparr>"
  let ?d2 = "?d1\<lparr>d_pc := CopyClosing, d_reads := [([], Some ErrEOF)]\<rparr>"
  let ?d3 = "?d2\<lparr>d_pc := CopyDone, d_dst := ?cw sample_relay_heap\<rparr>"
  have "?R ?d0 ?d1" by (rule end_stream) (simp_all add: dir_start_def)
  moreover have "?R ?d1 ?d2" using read_eof [of ?d1] by (simp add: dir_start_def)
  moreover have "?R ?d2 ?d3" using half_close [of ?d2] by (simp add: dir_start_def)
  moreover have "?R ?d3 sample_up"
    using see_end [of ?d3 "conn_finSent 0"] to_backend.fin_reaches [OF sample_relay_open(1)] by (simp add: dir_start_def sample_up_def)
  ultimately show ?thesis by (meson converse_rtranclp_into_rtranclp rtranclp.rtrancl_refl)
qed

lemma sample_down_run: "(dir_step client_CloseWrite sock_finSent 1 True)\<^sup>*\<^sup>* (dir_start ''x'' sample_client) sample_down"
proof -
  let ?R = "dir_step client_CloseWrite sock_finSent 1 True"
  let ?d0 = "dir_start ''x'' sample_client"
  let ?d1 = "?d0\<lparr>d_unsent := [], d_in := ''x''\<rparr>"
  let ?d2 = "?d1\<lparr>d_ended := True\<rparr>"
  let ?d3 = "?d2\<lparr>d_in := [], d_pc := CopyWriting ''x'' ''x'', d_reads := [(''x'', None)]\<rparr>"
  let ?d4 = "?d3\<lparr>d_pc := CopyReading, d_out := ''x'', d_writes := [(1, None)]\<rparr>"
  let ?d5 = "?d4\<lparr>d_pc := CopyClosing, d_reads := [(''x'', None), ([], Some ErrEOF)]\<rparr>"
  have "?R ?d0 ?d1" using send [of True ?d0 "''x''" "[]" 1] by (simp add: dir_start_def)
  moreover have "?R ?d1 ?d2" by (rule end_stream) (simp_all add: dir_start_def)
  moreover have "?R ?d2 ?d3" using read [of ?d2 "''x''" "[]"] by (simp add: dir_start_def bufSize_def)
  moreover have "?R ?d3 ?d4" using written [of ?d3 "''x''" "''x''" 1] by (simp add: dir_start_def)
  moreover have "?R ?d4 ?d5" using read_eof [of ?d4] by (simp add: dir_start_def)
  moreover have "?R ?d5 sample_down" using half_close [of ?d5] by (simp add: dir_start_def sample_down_def)
  ultimately show ?thesis by (meson converse_rtranclp_into_rtranclp rtranclp.rtrancl_refl)
qed

definition sample_relay_env :: conn_env where
  "sample_relay_env = sample_conn\<lparr>ce_upReads := d_reads sample_up, ce_upWrites := d_writes sample_up,
     ce_downReads := d_reads sample_down, ce_downWrites := d_writes sample_down\<rparr>"

theorem relay_returns_witness:
  "\<exists>out p' g' cl'. handleConnection sample_relay_env (sample_proxy, sample_gateway, sample_client) = Some (out, p', g', cl') \<and>
    (case out of Proxied b u v \<Rightarrow> u = [] \<and> v = ''x'' | _ \<Rightarrow> True)"
proof -
  have "(relay_move False 0 1 False True)\<^sup>*\<^sup>* (relay_start [] ''x'' sample_relay_heap sample_client) (sample_up, sample_down)"
    unfolding relay_start_def
    by (rule rtranclp_trans [OF up_run [OF sample_up_run] down_run [OF sample_down_run]]) (simp_all add: sample_up_def)
  note returns = relay_returns [OF this sample_relay_open, of sample_relay_env sample_proxy sample_gateway]
  show ?thesis using returns
    by (auto simp: sample_relay_env_def sample_up_def sample_down_def split: conn_outcome.splits)
qed

end
