(* ===== verification/HTTPProxy.thy ===== *)
theory HTTPProxy
  imports Gateway Http
begin

text \<open>
  The layer-7 proxy, \<^verbatim>\<open>internal/proxy/http.go\<close>: the proxy and its options, the request
  sent to the backend, the headers that are and are not forwarded, and \<^verbatim>\<open>ServeHTTP\<close> on every
  path, as a handler on the world of the gateway. The transport is not part of the program: what
  \<^verbatim>\<open>RoundTrip\<close> returns is a function in the environment of a request.
\<close>

section \<open>The proxy\<close>

record HTTPTransportConfig =
  ht_MaxIdleConns :: int
  ht_MaxIdleConnsPerHost :: int
  ht_MaxConnsPerHost :: int
  ht_IdleConnTimeout :: duration
  ht_TLSHandshakeTimeout :: duration
  ht_ExpectContinueTimeout :: duration
  ht_DialTimeout :: duration
  ht_DialKeepAlive :: duration
  ht_DisableCompression :: bool

definition DefaultHTTPTransportConfig :: HTTPTransportConfig where
  "DefaultHTTPTransportConfig = \<lparr>ht_MaxIdleConns = 100, ht_MaxIdleConnsPerHost = 10, ht_MaxConnsPerHost = 0,
     ht_IdleConnTimeout = 90 * Second, ht_TLSHandshakeTimeout = 10 * Second, ht_ExpectContinueTimeout = 1 * Second,
     ht_DialTimeout = 30 * Second, ht_DialKeepAlive = 30 * Second, ht_DisableCompression = True\<rparr>"

text \<open>The parameters of the \<^verbatim>\<open>http.Transport\<close> that \<^verbatim>\<open>NewHTTPTransport\<close> builds: a zero is
  replaced by the default, except for \<^verbatim>\<open>MaxConnsPerHost\<close>.\<close>

definition NewHTTPTransport :: "HTTPTransportConfig \<Rightarrow> HTTPTransportConfig" where
  "NewHTTPTransport cfg0 =
    (let cfg1 = (if ht_MaxIdleConns cfg0 = 0 then cfg0\<lparr>ht_MaxIdleConns := 100\<rparr> else cfg0);
         cfg2 = (if ht_MaxIdleConnsPerHost cfg1 = 0 then cfg1\<lparr>ht_MaxIdleConnsPerHost := 10\<rparr> else cfg1);
         cfg3 = (if ht_IdleConnTimeout cfg2 = 0 then cfg2\<lparr>ht_IdleConnTimeout := 90 * Second\<rparr> else cfg2);
         cfg4 = (if ht_TLSHandshakeTimeout cfg3 = 0 then cfg3\<lparr>ht_TLSHandshakeTimeout := 10 * Second\<rparr> else cfg3);
         cfg5 = (if ht_ExpectContinueTimeout cfg4 = 0 then cfg4\<lparr>ht_ExpectContinueTimeout := 1 * Second\<rparr> else cfg4);
         cfg6 = (if ht_DialTimeout cfg5 = 0 then cfg5\<lparr>ht_DialTimeout := 30 * Second\<rparr> else cfg5);
         cfg7 = (if ht_DialKeepAlive cfg6 = 0 then cfg6\<lparr>ht_DialKeepAlive := 30 * Second\<rparr> else cfg6)
     in cfg7)"

definition DefaultTransport :: HTTPTransportConfig where
  "DefaultTransport = NewHTTPTransport DefaultHTTPTransportConfig"

datatype RoundTripper = HttpTransport HTTPTransportConfig | CustomTransport

record HTTPProxy =
  hp_transport :: RoundTripper
  hp_breakers :: breakers
  hp_metrics :: bool
  hp_activeRequests :: int

datatype HTTPOption =
  WithHTTPCircuitBreaker cb_Config
| WithHTTPMetrics
| WithHTTPTransport RoundTripper
| WithHTTPTransportConfig HTTPTransportConfig

fun apply_http_option :: "HTTPOption \<Rightarrow> HTTPProxy \<Rightarrow> HTTPProxy" where
  "apply_http_option (WithHTTPCircuitBreaker config) p = p\<lparr>hp_breakers := \<lparr>bk_map = Some Map.empty, bk_config = config\<rparr>\<rparr>"
| "apply_http_option WithHTTPMetrics p = p\<lparr>hp_metrics := True\<rparr>"
| "apply_http_option (WithHTTPTransport transport) p = p\<lparr>hp_transport := transport\<rparr>"
| "apply_http_option (WithHTTPTransportConfig cfg) p = p\<lparr>hp_transport := HttpTransport (NewHTTPTransport cfg)\<rparr>"

definition NewHTTPProxy :: "HTTPOption list \<Rightarrow> HTTPProxy" where
  "NewHTTPProxy opts = fold apply_http_option opts
     \<lparr>hp_transport = HttpTransport DefaultTransport, hp_breakers = no_breakers, hp_metrics = False, hp_activeRequests = 0\<rparr>"

definition ActiveRequests :: "HTTPProxy \<Rightarrow> int" where
  "ActiveRequests p = hp_activeRequests p"

definition http_CircuitBreakerStates :: "HTTPProxy \<Rightarrow> (string \<rightharpoonup> int) option" where
  "http_CircuitBreakerStates p = CircuitBreakerStates (hp_breakers p)"

section \<open>Headers that are not forwarded\<close>

definition hopByHopHeaders :: "string list" where
  "hopByHopHeaders = [''Connection'', ''Keep-Alive'', ''Proxy-Authenticate'', ''Proxy-Authorization'', ''Te'',
     ''Trailers'', ''Transfer-Encoding'', ''Upgrade'']"

definition isHopByHopHeader :: "string \<Rightarrow> bool" where
  "isHopByHopHeader hdr = list_ex (\<lambda>h. EqualFold hdr h) hopByHopHeaders"

definition removeHopByHopHeaders :: "header \<Rightarrow> header" where
  "removeHopByHopHeaders hdr = fold hdr_Del hopByHopHeaders hdr"

text \<open>\<^verbatim>\<open>for k, vv := range src\<close>: \<open>keys\<close> is the order in which the map is visited.\<close>

definition copyHeaders :: "string list \<Rightarrow> header \<Rightarrow> header \<Rightarrow> header" where
  "copyHeaders keys src dst =
    fold (\<lambda>k dst. if isHopByHopHeader k then dst else fold (\<lambda>v dst. hdr_Add k v dst) (src k) dst) keys dst"

section \<open>Serving a request\<close>

text \<open>The request sent to the backend: the clone, with the scheme and host of its URL.\<close>

record 'x outgoing =
  o_Scheme :: string
  o_URLHost :: string
  o_req :: "'x request"

definition cloneRequest :: "'x request \<Rightarrow> string \<Rightarrow> 'x outgoing" where
  "cloneRequest r addr = \<lparr>o_Scheme = ''http'', o_URLHost = addr,
     o_req = r\<lparr>r_Host := addr, r_RawPath := [], r_RequestURI := [],
               r_Header := removeHopByHopHeaders (r_Header r), r_Close := False\<rparr>\<rparr>"

text \<open>A response: the body is the list of chunks its reader yields before it ends or fails.\<close>

record response =
  rs_StatusCode :: int
  rs_Header :: header
  rs_keys :: "string list"
  rs_Body :: "string list"

text \<open>The readings of the clock that a request meets, and the transport.\<close>

record 'x http_env =
  he_start :: go_time
  he_created :: go_time
  he_allow :: go_time
  he_report :: go_time
  he_latency :: go_time
  he_RoundTrip :: "'x outgoing \<Rightarrow> net_error + response"

record http_world =
  hw_proxy :: HTTPProxy
  hw_gw :: gateway

text \<open>\<^verbatim>\<open>io.Copy(w, resp.Body)\<close>: the bytes copied; a short write ends it.\<close>

fun io_Copy :: "string list \<Rightarrow> writer \<Rightarrow> nat \<times> writer" where
  "io_Copy [] w = (0, w)"
| "io_Copy (d # ds) w =
     (if d = [] then io_Copy ds w
      else (let (n, w1) = w_Write_n d w
            in if n \<noteq> length d then (n, w1)
               else (let (m, w2) = io_Copy ds w1 in (n + m, w2))))"

text \<open>Steps 5 to 7: headers, status and body of the response, then the metrics. A status that
  the server's writer does not accept is a panic.\<close>

definition http_respond :: "'x http_env \<Rightarrow> string \<Rightarrow> response \<Rightarrow> ('z http_world_scheme, 'x) handler" where
  "http_respond env addr resp c =
    (let w = cf_w c;
         w1 = w\<lparr>w_Header := copyHeaders (rs_keys resp) (rs_Header resp) (w_Header w)\<rparr>;
         (panics, w2) = w_WriteHeader (rs_StatusCode resp) w1
     in if panics then (True, c\<lparr>cf_w := w2\<rparr>)
        else
          (let (bytesCopied, w3) = io_Copy (rs_Body resp) w2;
               latency = time_Sub (he_latency env) (he_start env);
               W = cf_world c;
               success = (rs_StatusCode resp < 500);
               g = gw_record (hp_metrics (hw_proxy W))
                     (RecordRequest addr success latency 0 (int bytesCopied)) (hw_gw W)
           in (False, c\<lparr>cf_w := w3, cf_world := W\<lparr>hw_gw := g\<rparr>\<rparr>)))"

definition put_breakers :: "breakers \<Rightarrow> 'z http_world_scheme \<Rightarrow> 'z http_world_scheme" where
  "put_breakers t W = W\<lparr>hw_proxy := (hw_proxy W)\<lparr>hp_breakers := t\<rparr>\<rparr>"

text \<open>Steps 1 to 4: selection, breaker, clone, round trip.\<close>

definition http_body :: "'x http_env \<Rightarrow> ('z http_world_scheme, 'x) handler" where
  "http_body env c =
    (let W = cf_world c; g = hw_gw W;
         (r, lb) = lb_Next (gw_heap g) (gw_lb g);
         W1 = W\<lparr>hw_gw := g\<lparr>gw_lb := lb\<rparr>\<rparr>
     in case r of
          Inl err \<Rightarrow> (False, c\<lparr>cf_w := http_Error ''Service Unavailable'' 503 (cf_w c), cf_world := W1\<rparr>)
        | Inr b \<Rightarrow>
            (let addr = b_Addr (gw_heap g) b;
                 (denied, t) = allow_through (he_created env) (he_allow env) addr (hp_breakers (hw_proxy W1))
             in if denied \<noteq> None
                then (False, c\<lparr>cf_w := http_Error ''Service Unavailable (circuit open)'' 503 (cf_w c),
                               cf_world := put_breakers t W1\<rparr>)
                else
                  (case he_RoundTrip env (cloneRequest (cf_r c) addr) of
                     Inl err \<Rightarrow>
                       (False, c\<lparr>cf_w := (if err = ErrDeadlineExceeded then http_Error ''Gateway Timeout'' 504 (cf_w c)
                                          else http_Error ''Bad Gateway'' 502 (cf_w c)),
                                 cf_world := put_breakers (report_to (he_report env) (Some err) addr t) W1\<rparr>)
                   | Inr resp \<Rightarrow>
                       http_respond env addr resp
                         (c\<lparr>cf_world := put_breakers (report_to (he_report env) (None :: net_error option) addr t) W1\<rparr>))))"

definition add_active :: "int \<Rightarrow> 'z http_world_scheme \<Rightarrow> 'z http_world_scheme" where
  "add_active d W = W\<lparr>hw_proxy := (hw_proxy W)\<lparr>hp_activeRequests := hp_activeRequests (hw_proxy W) + d\<rparr>\<rparr>"

text \<open>\<^verbatim>\<open>ServeHTTP\<close>: the deferred decrement runs on a panic too.\<close>

definition http_ServeHTTP :: "'x http_env \<Rightarrow> ('z http_world_scheme, 'x) handler" where
  "http_ServeHTTP env c =
    (let (panics, c1) = http_body env (c\<lparr>cf_world := add_active 1 (cf_world c)\<rparr>)
     in (panics, c1\<lparr>cf_world := add_active (- 1) (cf_world c1)\<rparr>))"

section \<open>What is forwarded\<close>

lemma fold_Del: "fold hdr_Del ks h k = (if k \<in> canonical_key ` set ks then [] else h k)"
  by (induction ks arbitrary: h) (auto simp: hdr_Del_def)

lemma fold_Add: "canonical_key k = k \<Longrightarrow> fold (\<lambda>v dst. hdr_Add k v dst) vs h = h(k := h k @ vs)"
  by (induction vs arbitrary: h) (auto simp: hdr_Add_def)

lemma copyHeaders_eq:
  assumes "distinct keys" and "\<forall>k \<in> set keys. canonical_key k = k"
  shows "copyHeaders keys src dst k = dst k @ (if k \<in> set keys \<and> \<not> isHopByHopHeader k then src k else [])"
  using assms
proof (induction keys arbitrary: dst)
  case (Cons k' keys)
  let ?dst = "if isHopByHopHeader k' then dst else fold (\<lambda>v dst. hdr_Add k' v dst) (src k') dst"
  have "copyHeaders (k' # keys) src dst k = copyHeaders keys src ?dst k" by (simp add: copyHeaders_def)
  then show ?case using Cons by (auto simp: fold_Add)
qed (simp add: copyHeaders_def)

text \<open>Two names that differ only in case are one key.\<close>

lemma ascii_case: "ascii_upper (ascii_lower c) = ascii_upper c" "ascii_lower (ascii_lower c) = ascii_lower c"
  "ascii_lower (ascii_upper c) = ascii_lower c"
  by (auto simp: ascii_upper_def ascii_lower_def)

lemma ascii_lower_hyphen: "ascii_lower c = CHR ''-'' \<longleftrightarrow> c = CHR ''-''"
proof
  assume lower: "ascii_lower c = CHR ''-''"
  show "c = CHR ''-''"
  proof (cases "65 \<le> (of_char c :: nat) \<and> (of_char c :: nat) \<le> 90")
    case True
    then have "(of_char (ascii_lower c) :: nat) = of_char c + 32" by (simp add: ascii_lower_def)
    then show ?thesis using True unfolding lower by simp
  qed (use lower in \<open>auto simp: ascii_lower_def\<close>)
qed (simp add: ascii_lower_def)

lemma canonical_from_lower: "canonical_from up (map ascii_lower s) = canonical_from up s"
  by (induction s arbitrary: up) (simp_all add: ascii_case ascii_lower_hyphen)

lemma lower_canonical_from: "map ascii_lower (canonical_from up s) = map ascii_lower s"
  by (induction s arbitrary: up) (simp_all add: ascii_case)

lemma EqualFold_canonical: "EqualFold s t \<longleftrightarrow> canonical_key s = canonical_key t"
  unfolding EqualFold_def canonical_key_def by (metis canonical_from_lower lower_canonical_from)

lemma hop_canonical: "map canonical_key hopByHopHeaders = hopByHopHeaders"
  unfolding hopByHopHeaders_def by code_simp

lemma isHopByHop_canonical: "isHopByHopHeader k \<longleftrightarrow> canonical_key k \<in> set hopByHopHeaders"
proof -
  have "set hopByHopHeaders = canonical_key ` set hopByHopHeaders" using hop_canonical by (metis set_map)
  then show ?thesis by (auto simp: isHopByHopHeader_def list_ex_iff EqualFold_canonical)
qed

text \<open>The request a backend receives is the client's, aimed at the backend: same method, path,
  query, length, body context and headers, except that exactly the listed hop-by-hop headers are
  gone, under any spelling of their case; and the response filter drops exactly the same names.\<close>

theorem cloneRequest_forwards:
  "o_Scheme (cloneRequest r addr) = ''http'' \<and> o_URLHost (cloneRequest r addr) = addr \<and>
   o_req (cloneRequest r addr) = r\<lparr>r_Host := addr, r_RawPath := [], r_RequestURI := [], r_Close := False,
     r_Header := (\<lambda>k. if canonical_key k = k \<and> isHopByHopHeader k then [] else r_Header r k)\<rparr>"
proof -
  have "canonical_key ` set hopByHopHeaders = set hopByHopHeaders" using hop_canonical by (metis set_map)
  moreover have "k \<in> set hopByHopHeaders \<Longrightarrow> canonical_key k = k" for k
    using hop_canonical by (metis map_eq_conv map_ident)
  ultimately have "removeHopByHopHeaders h = (\<lambda>k. if canonical_key k = k \<and> isHopByHopHeader k then [] else h k)" for h
    by (auto simp: removeHopByHopHeaders_def fold_Del isHopByHop_canonical fun_eq_iff)
  then show ?thesis by (simp add: cloneRequest_def)
qed

section \<open>The ways a request ends\<close>

abbreviation world_gw :: "('z http_world_scheme, 'x) conf \<Rightarrow> gateway" where
  "world_gw c \<equiv> hw_gw (cf_world c)"

abbreviation world_breakers :: "('z http_world_scheme, 'x) conf \<Rightarrow> breakers" where
  "world_breakers c \<equiv> hp_breakers (hw_proxy (cf_world c))"

lemma world_simps [simp]:
  "hw_gw (put_breakers t W) = hw_gw W" "hp_breakers (hw_proxy (put_breakers t W)) = t"
  "hp_metrics (hw_proxy (put_breakers t W)) = hp_metrics (hw_proxy W)"
  "hp_activeRequests (hw_proxy (put_breakers t W)) = hp_activeRequests (hw_proxy W)"
  "hw_gw (add_active d W) = hw_gw W" "hp_breakers (hw_proxy (add_active d W)) = hp_breakers (hw_proxy W)"
  "hp_metrics (hw_proxy (add_active d W)) = hp_metrics (hw_proxy W)"
  "hp_activeRequests (hw_proxy (add_active d W)) = hp_activeRequests (hw_proxy W) + d"
  by (simp_all add: put_breakers_def add_active_def)

lemma respond_frame:
  assumes "http_respond env addr resp c = (panics, c')"
  shows "cf_r c' = cf_r c" and "hw_proxy (cf_world c') = hw_proxy (cf_world c)"
    and "gw_heap (world_gw c') = gw_heap (world_gw c)" and "gw_lb (world_gw c') = gw_lb (world_gw c)"
    and "gw_limiter (world_gw c') = gw_limiter (world_gw c)"
    and "panics \<Longrightarrow> cf_world c' = cf_world c"
  using assms by (auto simp: http_respond_def Let_def split: prod.splits if_splits)

lemma http_body_cases [consumes 1, case_names unavailable denied failed answered]:
  assumes "http_body env c = (panics, c')"
  obtains (unavailable) e lb where "lb_Next (gw_heap (world_gw c)) (gw_lb (world_gw c)) = (Inl e, lb)" "\<not> panics"
      "c' = c\<lparr>cf_w := http_Error ''Service Unavailable'' 503 (cf_w c),
         cf_world := (cf_world c)\<lparr>hw_gw := (world_gw c)\<lparr>gw_lb := lb\<rparr>\<rparr>\<rparr>"
  | (denied) b lb e t where "lb_Next (gw_heap (world_gw c)) (gw_lb (world_gw c)) = (Inr b, lb)"
      "allow_through (he_created env) (he_allow env) (b_Addr (gw_heap (world_gw c)) b) (world_breakers c) = (Some e, t)" "\<not> panics"
      "c' = c\<lparr>cf_w := http_Error ''Service Unavailable (circuit open)'' 503 (cf_w c),
         cf_world := put_breakers t ((cf_world c)\<lparr>hw_gw := (world_gw c)\<lparr>gw_lb := lb\<rparr>\<rparr>)\<rparr>"
  | (failed) b lb t err where "lb_Next (gw_heap (world_gw c)) (gw_lb (world_gw c)) = (Inr b, lb)"
      "allow_through (he_created env) (he_allow env) (b_Addr (gw_heap (world_gw c)) b) (world_breakers c) = (None, t)"
      "he_RoundTrip env (cloneRequest (cf_r c) (b_Addr (gw_heap (world_gw c)) b)) = Inl err" "\<not> panics"
      "c' = c\<lparr>cf_w := (if err = ErrDeadlineExceeded then http_Error ''Gateway Timeout'' 504 (cf_w c)
                       else http_Error ''Bad Gateway'' 502 (cf_w c)),
         cf_world := put_breakers (report_to (he_report env) (Some err) (b_Addr (gw_heap (world_gw c)) b) t)
           ((cf_world c)\<lparr>hw_gw := (world_gw c)\<lparr>gw_lb := lb\<rparr>\<rparr>)\<rparr>"
  | (answered) b lb t resp where "lb_Next (gw_heap (world_gw c)) (gw_lb (world_gw c)) = (Inr b, lb)"
      "allow_through (he_created env) (he_allow env) (b_Addr (gw_heap (world_gw c)) b) (world_breakers c) = (None, t)"
      "he_RoundTrip env (cloneRequest (cf_r c) (b_Addr (gw_heap (world_gw c)) b)) = Inr resp"
      "http_respond env (b_Addr (gw_heap (world_gw c)) b) resp
         (c\<lparr>cf_world := put_breakers (report_to (he_report env) (None :: net_error option) (b_Addr (gw_heap (world_gw c)) b) t)
           ((cf_world c)\<lparr>hw_gw := (world_gw c)\<lparr>gw_lb := lb\<rparr>\<rparr>)\<rparr>) = (panics, c')"
proof -
  obtain r lb where nxt: "lb_Next (gw_heap (world_gw c)) (gw_lb (world_gw c)) = (r, lb)" by force
  show thesis
  proof (cases r)
    case (Inl e)
    then show thesis using assms nxt by (intro unavailable) (auto simp: http_body_def Let_def)
  next
    case b: (Inr b)
    obtain d t where al: "allow_through (he_created env) (he_allow env) (b_Addr (gw_heap (world_gw c)) b) (world_breakers c) = (d, t)"
      by force
    show thesis
    proof (cases d)
      case (Some e)
      then show thesis using assms nxt b al by (intro denied) (auto simp: http_body_def Let_def)
    next
      case None
      show thesis
      proof (cases "he_RoundTrip env (cloneRequest (cf_r c) (b_Addr (gw_heap (world_gw c)) b))")
        case (Inl err)
        then show thesis using assms nxt b al None by (intro failed) (auto simp: http_body_def Let_def)
      next
        case (Inr resp)
        then show thesis using assms nxt b al None by (intro answered) (auto simp: http_body_def Let_def)
      qed
    qed
  qed
qed

section \<open>A response is passed on\<close>

lemma io_Copy_after_header:
  assumes "w_status w = Some s" and "bodyAllowedForStatus s" and "\<forall>rw \<in> set (w_wraps w). rw_wroteHeader rw"
  shows "io_Copy ds w = (length (concat ds), w\<lparr>w_body := w_body w @ concat ds,
    w_wraps := map (\<lambda>rw. rw\<lparr>rw_bytes := rw_bytes rw + int (length (concat ds))\<rparr>) (w_wraps w)\<rparr>)"
  using assms
proof (induction ds arbitrary: w)
  case Nil
  have "map (\<lambda>rw. rw\<lparr>rw_bytes := rw_bytes rw\<rparr>) (w_wraps w) = w_wraps w" by simp
  then show ?case by simp
next
  case (Cons d ds)
  show ?case
  proof (cases "d = []")
    case False
    let ?w = "w\<lparr>w_body := w_body w @ d, w_wraps := map (\<lambda>rw. rw\<lparr>rw_bytes := rw_bytes rw + int (length d)\<rparr>) (w_wraps w)\<rparr>"
    have "io_Copy ds ?w = (length (concat ds), ?w\<lparr>w_body := w_body ?w @ concat ds,
      w_wraps := map (\<lambda>rw. rw\<lparr>rw_bytes := rw_bytes rw + int (length (concat ds))\<rparr>) (w_wraps ?w)\<rparr>)"
      by (rule Cons.IH) (use Cons.prems in auto)
    then show ?thesis using False Write_after_header [OF Cons.prems, of d]
      by (simp add: comp_def add.assoc)
  qed (use Cons in simp)
qed

text \<open>The writer after a response has been passed on to a fresh one.\<close>

definition passed_on :: "response \<Rightarrow> writer \<Rightarrow> writer" where
  "passed_on resp w =
    (let h = (\<lambda>k. w_Header w k @ (if isHopByHopHeader k then [] else rs_Header resp k));
         body = concat (rs_Body resp)
     in w\<lparr>w_Header := h, w_status := Some (rs_StatusCode resp), w_sent := h, w_body := w_body w @ body,
          w_wraps := map (\<lambda>rw. rw\<lparr>rw_status := rs_StatusCode resp, rw_wroteHeader := True,
            rw_bytes := rw_bytes rw + int (length body)\<rparr>) (w_wraps w)\<rparr>)"

text \<open>A response as the transport delivers it: canonical keys, each visited once, and a status with
  which a body may be sent.\<close>

definition proper_response :: "response \<Rightarrow> bool" where
  "proper_response resp \<longleftrightarrow> 200 \<le> rs_StatusCode resp \<and> rs_StatusCode resp \<le> 999 \<and> bodyAllowedForStatus (rs_StatusCode resp) \<and>
     distinct (rs_keys resp) \<and> (\<forall>k \<in> set (rs_keys resp). canonical_key k = k) \<and> (\<forall>k. k \<notin> set (rs_keys resp) \<longrightarrow> rs_Header resp k = [])"

lemma respond_eq:
  assumes "fresh_writer (cf_w c)" and "proper_response resp"
  shows "http_respond env addr resp c = (False, c\<lparr>cf_w := passed_on resp (cf_w c),
    cf_world := (cf_world c)\<lparr>hw_gw := gw_record (hp_metrics (hw_proxy (cf_world c)))
      (RecordRequest addr (rs_StatusCode resp < 500) (time_Sub (he_latency env) (he_start env)) 0
        (int (length (concat (rs_Body resp))))) (world_gw c)\<rparr>\<rparr>)"
proof -
  let ?h = "\<lambda>k. w_Header (cf_w c) k @ (if isHopByHopHeader k then [] else rs_Header resp k)"
  let ?w1 = "(cf_w c)\<lparr>w_Header := ?h\<rparr>"
  let ?w2 = "?w1\<lparr>w_status := Some (rs_StatusCode resp), w_sent := ?h,
     w_wraps := map (\<lambda>rw. rw\<lparr>rw_status := rs_StatusCode resp, rw_wroteHeader := True\<rparr>) (w_wraps (cf_w c))\<rparr>"
  note ok = assms(2) [unfolded proper_response_def]
  have copy: "copyHeaders (rs_keys resp) (rs_Header resp) (w_Header (cf_w c)) = ?h"
    using ok copyHeaders_eq [of "rs_keys resp" "rs_Header resp" "w_Header (cf_w c)"] by (auto simp: fun_eq_iff)
  have "fresh_writer ?w1" using assms(1) by (simp add: fresh_writer_def)
  then have wh: "w_WriteHeader (rs_StatusCode resp) ?w1 = (False, ?w2)"
    using WriteHeader_fresh [of ?w1 "rs_StatusCode resp"] ok by simp
  have body: "io_Copy (rs_Body resp) ?w2 = (length (concat (rs_Body resp)), ?w2\<lparr>w_body := w_body ?w2 @ concat (rs_Body resp),
      w_wraps := map (\<lambda>rw. rw\<lparr>rw_bytes := rw_bytes rw + int (length (concat (rs_Body resp)))\<rparr>) (w_wraps ?w2)\<rparr>)"
    by (rule io_Copy_after_header) (use ok in auto)
  show ?thesis by (simp add: http_respond_def Let_def copy wh body passed_on_def comp_def)
qed

text \<open>The request is given to a backend, and its breaker lets it pass.\<close>

definition admitted :: "'x http_env \<Rightarrow> ('z http_world_scheme, 'x) conf \<Rightarrow> string \<Rightarrow> LoadBalancer \<Rightarrow> breakers \<Rightarrow> bool" where
  "admitted env c addr lb t \<longleftrightarrow> (\<exists>b. lb_Next (gw_heap (world_gw c)) (gw_lb (world_gw c)) = (Inr b, lb) \<and>
     addr = b_Addr (gw_heap (world_gw c)) b \<and>
     allow_through (he_created env) (he_allow env) addr (world_breakers c) = (None, t))"

lemma ServeHTTP_eq:
  assumes "fresh_writer (cf_w c)" and "admitted env c addr lb t" and "he_RoundTrip env (cloneRequest (cf_r c) addr) = Inr resp"
    and "proper_response resp"
  shows "http_ServeHTTP env c = (False, c\<lparr>cf_w := passed_on resp (cf_w c),
    cf_world := (cf_world c)\<lparr>hw_proxy := (hw_proxy (cf_world c))\<lparr>hp_breakers := report_to (he_report env) (None :: net_error option) addr t\<rparr>,
      hw_gw := gw_record (hp_metrics (hw_proxy (cf_world c)))
        (RecordRequest addr (rs_StatusCode resp < 500) (time_Sub (he_latency env) (he_start env)) 0
          (int (length (concat (rs_Body resp))))) ((world_gw c)\<lparr>gw_lb := lb\<rparr>)\<rparr>\<rparr>)"
proof -
  obtain b where b: "lb_Next (gw_heap (world_gw c)) (gw_lb (world_gw c)) = (Inr b, lb)" "addr = b_Addr (gw_heap (world_gw c)) b"
    "allow_through (he_created env) (he_allow env) addr (world_breakers c) = (None, t)"
    using assms(2) by (auto simp: admitted_def)
  obtain p where p: "hw_proxy (cf_world c) = p" by simp
  have "p\<lparr>hp_activeRequests := hp_activeRequests p, hp_breakers := bk\<rparr> = p\<lparr>hp_breakers := bk\<rparr>" for bk by (cases p) simp
  then show ?thesis
    using b assms(1,3,4)
    by (simp add: http_ServeHTTP_def http_body_def respond_eq Let_def put_breakers_def add_active_def p)
qed

text \<open>C7: a response of the backend reaches the client as it is: the same status, the body byte
  for byte however it was chunked, and every header of the response that is not hop-by-hop behind
  those the gateway had set; every wrapper of the writer has seen that status and that many
  bytes; the breaker of the backend gets one success, and the collector one request for the
  backend's address, a failure exactly for a status of 500 or more.\<close>

theorem ServeHTTP_forwards:
  assumes "fresh_writer (cf_w c)" and "admitted env c addr lb t" and "he_RoundTrip env (cloneRequest (cf_r c) addr) = Inr resp"
    and "proper_response resp" and "http_ServeHTTP env c = (panics, c')"
  shows "\<not> panics \<and> w_status (cf_w c') = Some (rs_StatusCode resp) \<and> w_body (cf_w c') = w_body (cf_w c) @ concat (rs_Body resp) \<and>
    w_sent (cf_w c') = (\<lambda>k. w_Header (cf_w c) k @ (if isHopByHopHeader k then [] else rs_Header resp k)) \<and>
    w_wraps (cf_w c') = map (\<lambda>rw. rw\<lparr>rw_status := rs_StatusCode resp, rw_wroteHeader := True,
       rw_bytes := rw_bytes rw + int (length (concat (rs_Body resp)))\<rparr>) (w_wraps (cf_w c)) \<and>
    world_breakers c' = report_to (he_report env) (None :: net_error option) addr t \<and>
    gw_metrics (world_gw c') =
      (if hp_metrics (hw_proxy (cf_world c))
       then RecordRequest addr (rs_StatusCode resp < 500) (time_Sub (he_latency env) (he_start env)) 0
              (int (length (concat (rs_Body resp)))) (gw_metrics (world_gw c))
       else gw_metrics (world_gw c))"
  using ServeHTTP_eq [OF assms(1-4)] assms(5) by (auto simp: passed_on_def Let_def)

definition sample_response :: response where
  "sample_response = \<lparr>rs_StatusCode = 200, rs_Header = (\<lambda>k. if k = ''Content-Type'' then [''text/plain''] else if k = ''Connection'' then [''close''] else []),
     rs_keys = [''Connection'', ''Content-Type''], rs_Body = [''ab'', ''c'']\<rparr>"

definition sample_env :: "(unit outgoing \<Rightarrow> net_error + response) \<Rightarrow> unit http_env" where
  "sample_env rt = \<lparr>he_start = 0, he_created = 0, he_allow = 0, he_report = 0, he_latency = 0, he_RoundTrip = rt\<rparr>"

definition sample_http_request :: "unit request" where
  "sample_http_request = \<lparr>r_Method = ''GET'', r_Host = ''gw'', r_Path = ''/x'', r_RawPath = [], r_RawQuery = [], r_RequestURI = ''/x'',
     r_Header = (\<lambda>k. if k = ''Upgrade'' then [''h2c''] else []), r_RemoteAddr = ''c:1'', r_TLS = False, r_ContentLength = 0,
     r_Close = False, r_ctx = \<lparr>ctx_route = None\<rparr>\<rparr>"

definition sample_conf :: "(http_world, unit) conf" where
  "sample_conf = \<lparr>cf_w = new_writer, cf_r = sample_http_request,
     cf_world = \<lparr>hw_proxy = NewHTTPProxy [WithHTTPMetrics, WithHTTPCircuitBreaker cb_DefaultConfig], hw_gw = sample_gateway\<rparr>\<rparr>"

lemma sample_conf_sel [simp]:
  "cf_w sample_conf = new_writer" "cf_r sample_conf = sample_http_request" "world_gw sample_conf = sample_gateway"
  "world_breakers sample_conf = \<lparr>bk_map = Some Map.empty, bk_config = cb_DefaultConfig\<rparr>"
  "hp_metrics (hw_proxy (cf_world sample_conf))"
  by (simp_all add: sample_conf_def NewHTTPProxy_def)

definition sample_breakers_after :: breakers where
  "sample_breakers_after = snd (allow_through 0 0 ''a:80'' \<lparr>bk_map = Some Map.empty, bk_config = cb_DefaultConfig\<rparr>)"

lemma sample_allowed:
  "allow_through 0 0 ''a:80'' \<lparr>bk_map = Some Map.empty, bk_config = cb_DefaultConfig\<rparr> = (None, sample_breakers_after)"
  by (simp add: sample_breakers_after_def allow_through_def getCircuitBreaker_def cb_Allow_def cb_New_def Let_def)

lemma sample_canonical: "canonical_key ''Connection'' = ''Connection''" "canonical_key ''Content-Type'' = ''Content-Type''"
  by code_simp+

lemma sample_proper: "proper_response sample_response"
  by (simp add: proper_response_def sample_response_def bodyAllowedForStatus_def sample_canonical)

lemma sample_admitted:
  "admitted (sample_env rt) sample_conf ''a:80'' (RR \<lparr>rr_backends = [0], rr_counter = 1\<rparr>) sample_breakers_after"
  using sample_allowed by (simp add: admitted_def sample_env_def sample_gateway_next sample_gateway_addr)

lemma sample_fresh: "fresh_writer (cf_w sample_conf)" by (simp add: fresh_writer_def new_writer_def)

theorem ServeHTTP_forwards_witness:
  "w_status (cf_w (snd (http_ServeHTTP (sample_env (\<lambda>_. Inr sample_response)) sample_conf))) = Some 200 \<and>
   w_body (cf_w (snd (http_ServeHTTP (sample_env (\<lambda>_. Inr sample_response)) sample_conf))) = ''abc''"
proof -
  let ?env = "sample_env (\<lambda>_. Inr sample_response)"
  obtain p c' where run: "http_ServeHTTP ?env sample_conf = (p, c')" by force
  have "he_RoundTrip ?env (cloneRequest (cf_r sample_conf) ''a:80'') = Inr sample_response" by (simp add: sample_env_def)
  from ServeHTTP_forwards [OF sample_fresh sample_admitted this sample_proper run] run
  show ?thesis by (simp add: sample_response_def new_writer_def)
qed

section \<open>A request that is not answered by a backend\<close>

text \<open>The gateway has answered by itself: one status line and a line of text, seen by every wrapper,
  and nothing recorded.\<close>

definition replied :: "('z http_world_scheme, 'x) conf \<Rightarrow> string \<Rightarrow> int \<Rightarrow> ('z http_world_scheme, 'x) conf \<Rightarrow> bool" where
  "replied c msg code c' \<longleftrightarrow> w_status (cf_w c') = Some code \<and> w_body (cf_w c') = w_body (cf_w c) @ msg @ newline \<and>
     (\<forall>rw \<in> set (w_wraps (cf_w c')). rw_status rw = code) \<and> length (w_wraps (cf_w c')) = length (w_wraps (cf_w c)) \<and>
     gw_metrics (world_gw c') = gw_metrics (world_gw c) \<and> gw_heap (world_gw c') = gw_heap (world_gw c)"

lemma repliedI:
  assumes "fresh_writer (cf_w c)" and "cf_w c' = http_Error msg code (cf_w c)" and "200 \<le> code" and "code \<le> 999"
    and "bodyAllowedForStatus code" and "gw_metrics (world_gw c') = gw_metrics (world_gw c)" and "gw_heap (world_gw c') = gw_heap (world_gw c)"
  shows "replied c msg code c'"
  using http_Error_fresh [OF assms(1,3-5), of msg] assms(2,6,7) by (auto simp: replied_def)

text \<open>C27: a request no backend answers gets exactly one reply from the gateway, and the reply tells
  why: 503 when the balancer has no backend or the breaker of the selected one is open, 504 when
  the round trip ran into its deadline, 502 for every other failure of the round trip, and then
  the failure is reported to the breaker. No such request reaches the collector.\<close>

theorem ServeHTTP_refuses:
  assumes "fresh_writer (cf_w c)" and "http_ServeHTTP env c = (panics, c')"
  shows "case lb_Next (gw_heap (world_gw c)) (gw_lb (world_gw c)) of
      (Inl e, lb) \<Rightarrow> \<not> panics \<and> replied c ''Service Unavailable'' 503 c' \<and> world_breakers c' = world_breakers c
    | (Inr b, lb) \<Rightarrow>
        (case allow_through (he_created env) (he_allow env) (b_Addr (gw_heap (world_gw c)) b) (world_breakers c) of
           (Some e, t) \<Rightarrow> \<not> panics \<and> replied c ''Service Unavailable (circuit open)'' 503 c' \<and> world_breakers c' = t
         | (None, t) \<Rightarrow>
             (case he_RoundTrip env (cloneRequest (cf_r c) (b_Addr (gw_heap (world_gw c)) b)) of
                Inl err \<Rightarrow> \<not> panics \<and>
                  (if err = ErrDeadlineExceeded then replied c ''Gateway Timeout'' 504 c' else replied c ''Bad Gateway'' 502 c') \<and>
                  world_breakers c' = report_to (he_report env) (Some err) (b_Addr (gw_heap (world_gw c)) b) t
              | Inr resp \<Rightarrow> True))"
proof -
  obtain c1 where body: "http_body env (c\<lparr>cf_world := add_active 1 (cf_world c)\<rparr>) = (panics, c1)"
    and c': "c' = c1\<lparr>cf_world := add_active (- 1) (cf_world c1)\<rparr>"
    using assms(2) by (auto simp: http_ServeHTTP_def split: prod.splits)
  from body show ?thesis
  proof (cases rule: http_body_cases)
    case (unavailable e lb)
    then show ?thesis unfolding c' by (auto intro!: repliedI assms(1) simp: bodyAllowedForStatus_def)
  next
    case (denied b lb e t)
    then show ?thesis unfolding c' by (auto intro!: repliedI assms(1) simp: bodyAllowedForStatus_def)
  next
    case (failed b lb t err)
    then show ?thesis unfolding c' by (auto intro!: repliedI assms(1) simp: bodyAllowedForStatus_def)
  qed simp
qed

theorem ServeHTTP_refuses_witness:
  "w_status (cf_w (snd (http_ServeHTTP (sample_env (\<lambda>_. Inl ErrDeadlineExceeded)) sample_conf))) = Some 504"
proof -
  let ?env = "sample_env (\<lambda>_. Inl ErrDeadlineExceeded)"
  obtain p c' where run: "http_ServeHTTP ?env sample_conf = (p, c')" by force
  from ServeHTTP_refuses [OF sample_fresh run] show ?thesis
    using run sample_allowed by (simp add: sample_gateway_next sample_gateway_addr sample_env_def replied_def)
qed

section \<open>Accounting\<close>

text \<open>Whichever way a request ends, an answer, a refusal or a panic on a status the server
  does not accept, the count of active requests is what it was, the backends and the limiter are
  untouched, every request a breaker admitted has been reported to it exactly once, and all
  breakers keep their invariant.\<close>

theorem ServeHTTP_settles:
  assumes "http_ServeHTTP env c = (panics, c')"
    and "cb_config_ok (bk_config (world_breakers c))"
    and "all_breakers cb_balanced (world_breakers c)" and "all_breakers cb_inv (world_breakers c)"
  shows "ActiveRequests (hw_proxy (cf_world c')) = ActiveRequests (hw_proxy (cf_world c)) \<and>
    gw_heap (world_gw c') = gw_heap (world_gw c) \<and> gw_limiter (world_gw c') = gw_limiter (world_gw c) \<and>
    all_breakers cb_balanced (world_breakers c') \<and> all_breakers cb_inv (world_breakers c')"
proof -
  obtain c1 where body: "http_body env (c\<lparr>cf_world := add_active 1 (cf_world c)\<rparr>) = (panics, c1)"
    and c': "c' = c1\<lparr>cf_world := add_active (- 1) (cf_world c1)\<rparr>"
    using assms(1) by (auto simp: http_ServeHTTP_def split: prod.splits)
  from body show ?thesis
  proof (cases rule: http_body_cases)
    case (denied b lb e t)
    then show ?thesis unfolding c'
      using balanced.rejected_all [of "world_breakers c" _ _ _ e t] sound.rejected_all [of "world_breakers c" _ _ _ e t] assms(2-4)
      by (auto simp: ActiveRequests_def)
  next
    case (failed b lb t err)
    then show ?thesis unfolding c'
      using balanced.settled_all [of "world_breakers c"] sound.settled_all [of "world_breakers c"] assms(2-4)
      by (auto simp: ActiveRequests_def)
  next
    case (answered b lb t resp)
    then show ?thesis unfolding c'
      using balanced.settled_all [of "world_breakers c"] sound.settled_all [of "world_breakers c"] assms(2-4)
        respond_frame [OF answered(4)]
      by (auto simp: ActiveRequests_def)
  qed (use assms(3,4) in \<open>auto simp: c' ActiveRequests_def\<close>)
qed

theorem ServeHTTP_settles_witness:
  "ActiveRequests (hw_proxy (cf_world (snd (http_ServeHTTP (sample_env (\<lambda>_. Inr (sample_response\<lparr>rs_StatusCode := 99\<rparr>))) sample_conf)))) = 0"
proof -
  let ?env = "sample_env (\<lambda>_. Inr (sample_response\<lparr>rs_StatusCode := 99\<rparr>))"
  obtain p c' where run: "http_ServeHTTP ?env sample_conf = (p, c')" by force
  have "all_breakers P (world_breakers sample_conf)" for P by (simp add: all_breakers_def breaker_at_def)
  moreover have "cb_config_ok (bk_config (world_breakers sample_conf))" by (simp add: cb_config_ok_def cb_DefaultConfig_def)
  moreover have "ActiveRequests (hw_proxy (cf_world sample_conf)) = 0" by (simp add: ActiveRequests_def sample_conf_def NewHTTPProxy_def)
  ultimately show ?thesis using ServeHTTP_settles [OF run] run by simp
qed

section \<open>What the breakers see\<close>

text \<open>A breaker that has met only successes.\<close>

definition cb_untouched :: "CircuitBreaker \<Rightarrow> bool" where
  "cb_untouched cb \<longleftrightarrow> cb_state cb = StateClosed \<and> cb_failures cb = 0 \<and> cb_totalFailures cb = 0 \<and> cb_totalRejected cb = 0"

type_synonym 'x http_call = "'x http_env \<times> writer \<times> 'x request"

fun serve_call :: "'z http_world_scheme \<Rightarrow> 'x http_call \<Rightarrow> 'z http_world_scheme" where
  "serve_call W (env, w, r) = cf_world (snd (http_ServeHTTP env \<lparr>cf_w = w, cf_r = r, cf_world = W\<rparr>))"

text \<open>The transport brings a response, of whatever status, to every request.\<close>

fun answered_call :: "'z http_world_scheme \<Rightarrow> 'x http_call \<Rightarrow> bool" where
  "answered_call W (env, w, r) \<longleftrightarrow> (\<forall>out. \<exists>resp. he_RoundTrip env out = Inr resp)"

lemma untouched_rules:
  "cb_untouched (cb_New c now)" "cb_untouched cb \<Longrightarrow> cb_Allow now cb = (e, cb') \<Longrightarrow> e = None \<and> cb_untouched cb'"
  "cb_untouched cb \<Longrightarrow> cb_untouched (cb_RecordResult now None cb)"
  by (auto simp: cb_untouched_def cb_New_def cb_op_defs)

lemma untouched_table:
  assumes "all_breakers cb_untouched t" and "allow_through created now addr t = (err, t')"
  shows "err = None" and "all_breakers cb_untouched (report_to now' (None :: net_error option) addr t')"
proof -
  note eq = allow_through_eq [OF assms(2)]
  have new: "cb_untouched (breaker_or_new created t addr)"
    using assms(1) untouched_rules(1) by (auto simp: all_breakers_def breaker_or_new_def split: option.splits)
  show "err = None" using eq(3,4) untouched_rules(2) [OF new] by (cases "bk_map t = None") auto
  show "all_breakers cb_untouched (report_to now' (None :: net_error option) addr t')"
    unfolding all_breakers_def report_to_eq
  proof (intro allI impI)
    fix a cb
    assume at: "(if a = addr then map_option (cb_RecordResult now' (None :: net_error option)) (breaker_at t' a) else breaker_at t' a) = Some cb"
    show "cb_untouched cb"
    proof (cases "a = addr")
      case True
      then have "bk_map t \<noteq> None" using at eq(3) by (cases "bk_map t = None") auto
      then show ?thesis using at True eq(4,5) untouched_rules(2) [OF new] by (auto intro!: untouched_rules(3))
    qed (use at eq(6) assms(1) in \<open>auto simp: all_breakers_def\<close>)
  qed
qed

interpretation served: op_system serve_call "\<lambda>W. all_breakers cb_untouched (hp_breakers (hw_proxy W))" answered_call
proof
  fix W :: "'a http_world_scheme" and call :: "'b http_call"
  assume inv: "all_breakers cb_untouched (hp_breakers (hw_proxy W))" and legal: "answered_call W call"
  obtain env w r where call: "call = (env, w, r)" by (cases call)
  obtain panics c1 where body: "http_body env \<lparr>cf_w = w, cf_r = r, cf_world = add_active 1 W\<rparr> = (panics, c1)" by force
  from body have "all_breakers cb_untouched (world_breakers c1)"
  proof (cases rule: http_body_cases)
    case (denied b lb e t)
    then show ?thesis by (auto dest: untouched_table(1) [OF inv])
  next
    case (failed b lb t err)
    then show ?thesis using legal call by (metis answered_call.simps sum.distinct(1))
  next
    case (answered b lb t resp)
    then show ?thesis using untouched_table(2) [OF inv] respond_frame(2) [OF answered(4)] by auto
  qed (use inv in auto)
  then show "all_breakers cb_untouched (hp_breakers (hw_proxy (serve_call W call)))"
    using body by (simp add: call http_ServeHTTP_def)
qed

text \<open>A backend that answers every request with an error, 500 or 503 for instance, never trips
  its breaker at this layer: as long as the transport brings some response to each request, no
  sequence of requests makes any breaker leave the closed state, count a failure or reject.\<close>

theorem server_errors_never_trip:
  assumes "bk_map (hp_breakers (hw_proxy W)) = Some Map.empty" and "legal_run serve_call answered_call W cs"
  shows "all_breakers cb_untouched (hp_breakers (hw_proxy (foldl serve_call W cs)))"
proof -
  have "all_breakers cb_untouched (hp_breakers (hw_proxy W))"
    using assms(1) by (simp add: all_breakers_def breaker_at_def)
  then show ?thesis using assms(2) by (rule served.run_inv)
qed

theorem server_errors_never_trip_witness:
  "all_breakers cb_untouched (hp_breakers (hw_proxy (foldl serve_call (cf_world sample_conf)
     (replicate 100 (sample_env (\<lambda>_. Inr (sample_response\<lparr>rs_StatusCode := 500\<rparr>)), new_writer, sample_http_request)))))"
proof (rule server_errors_never_trip)
  let ?call = "(sample_env (\<lambda>_. Inr (sample_response\<lparr>rs_StatusCode := 500\<rparr>)), new_writer, sample_http_request)"
  have "legal_run serve_call answered_call W (replicate n ?call)" for n and W :: http_world
    by (induction n arbitrary: W) (simp_all add: sample_env_def)
  then show "legal_run serve_call answered_call (cf_world sample_conf) (replicate 100 ?call)" .
qed (simp add: sample_conf_def NewHTTPProxy_def)

end
