(* ===== verification/Config.thy ===== *)
theory Config
  imports Complex_Main Go_Prelude
begin

text \<open>
  The configuration file, \<^verbatim>\<open>internal/config/config.go\<close>: the records of the schema, the defaults
  of \<^verbatim>\<open>applyDefaults\<close> section by section, and \<^verbatim>\<open>Load\<close> and \<^verbatim>\<open>Validate\<close>. Reading the file
  and \<^verbatim>\<open>yaml.Unmarshal\<close> are parameters of \<^verbatim>\<open>Load\<close>. A \<^verbatim>\<open>float64\<close> is a rational.
\<close>

section \<open>The schema\<close>

record BackendConfig =
  bc_Addr :: string
  bc_Weight :: int

record HealthConfig =
  h_Interval :: duration
  h_Timeout :: duration
  h_UnhealthyThreshold :: int
  h_HealthyThreshold :: int
  h_CheckType :: string
  h_HTTPPath :: string

record RateLimitConfig =
  rl_Enabled :: bool
  rl_Rate :: rat
  rl_Burst :: int

record CircuitBreakerConfig =
  cc_Enabled :: bool
  cc_FailureThreshold :: int
  cc_SuccessThreshold :: int
  cc_Timeout :: duration
  cc_Window :: duration
  cc_MaxHalfOpenRequests :: int

record TCPPoolConfig =
  tc_Enabled :: bool
  tc_MaxIdle :: int
  tc_IdleTimeout :: duration
  tc_MaxLifetime :: duration

record TransportConfig =
  xc_MaxIdleConns :: int
  xc_MaxIdleConnsPerHost :: int
  xc_MaxConnsPerHost :: int
  xc_IdleConnTimeout :: duration
  xc_TLSHandshakeTimeout :: duration
  xc_ExpectContinueTimeout :: duration
  xc_DialTimeout :: duration
  xc_DialKeepAlive :: duration
  xc_DisableCompression :: bool

record RegistryConfig =
  rc_Enabled :: bool
  rc_Listen :: string
  rc_DefaultTTL :: duration
  rc_CleanupInterval :: duration
  rc_MaxServices :: int

record AdminConfig =
  ac_Enabled :: bool
  ac_Listen :: string

record LoggingConfig =
  lc_Level :: string
  lc_Format :: string
  lc_AddSource :: bool

record MetricsConfig =
  mc_Enabled :: bool
  mc_Listen :: string
  mc_Path :: string

record ServerConfig =
  s_ListenAddr :: string
  s_HTTPListenAddr :: string
  s_Backends :: "BackendConfig list"
  s_LoadBalancer :: string
  s_Health :: HealthConfig
  s_RateLimit :: RateLimitConfig
  s_CircuitBreaker :: CircuitBreakerConfig
  s_Admin :: AdminConfig
  s_TCPPool :: TCPPoolConfig
  s_HTTPTransport :: TransportConfig
  s_Registry :: RegistryConfig
  s_Logging :: LoggingConfig
  s_Metrics :: MetricsConfig

record Config =
  Server :: ServerConfig

section \<open>Defaults\<close>

text \<open>\<^verbatim>\<open>if x == 0 { x = d }\<close> and \<^verbatim>\<open>if x == "" { x = d }\<close>.\<close>

definition or_else :: "'a \<Rightarrow> 'a \<Rightarrow> 'a::zero" where
  "or_else x d = (if x = 0 then d else x)"

definition or_string :: "string \<Rightarrow> string \<Rightarrow> string" where
  "or_string x d = (if x = [] then d else x)"

definition default_weights :: "BackendConfig list \<Rightarrow> BackendConfig list" where
  "default_weights bs = map (\<lambda>b. b\<lparr>bc_Weight := or_else (bc_Weight b) 1\<rparr>) bs"

definition default_health :: "HealthConfig \<Rightarrow> HealthConfig" where
  "default_health h = h\<lparr>
     h_Interval := or_else (h_Interval h) (5 * Second),
     h_Timeout := or_else (h_Timeout h) (2 * Second),
     h_UnhealthyThreshold := or_else (h_UnhealthyThreshold h) 3,
     h_HealthyThreshold := or_else (h_HealthyThreshold h) 2,
     h_CheckType := or_string (h_CheckType h) ''tcp'',
     h_HTTPPath := or_string (h_HTTPPath h) ''/health''\<rparr>"

definition default_rate :: "RateLimitConfig \<Rightarrow> RateLimitConfig" where
  "default_rate r = (if rl_Enabled r then r\<lparr>rl_Rate := or_else (rl_Rate r) 1000, rl_Burst := or_else (rl_Burst r) 100\<rparr> else r)"

definition default_breaker :: "CircuitBreakerConfig \<Rightarrow> CircuitBreakerConfig" where
  "default_breaker b = (if cc_Enabled b then b\<lparr>
     cc_FailureThreshold := or_else (cc_FailureThreshold b) 5,
     cc_SuccessThreshold := or_else (cc_SuccessThreshold b) 1,
     cc_Timeout := or_else (cc_Timeout b) (30 * Second),
     cc_Window := or_else (cc_Window b) (60 * Second)\<rparr> else b)"

definition default_admin :: "AdminConfig \<Rightarrow> AdminConfig" where
  "default_admin a = (if ac_Enabled a \<and> ac_Listen a = [] then a\<lparr>ac_Listen := '':9090''\<rparr> else a)"

definition default_pool :: "TCPPoolConfig \<Rightarrow> TCPPoolConfig" where
  "default_pool t = (if tc_Enabled t then t\<lparr>
     tc_MaxIdle := or_else (tc_MaxIdle t) 64,
     tc_IdleTimeout := or_else (tc_IdleTimeout t) (30 * Second),
     tc_MaxLifetime := or_else (tc_MaxLifetime t) (120 * Second)\<rparr> else t)"

definition default_transport :: "TransportConfig \<Rightarrow> TransportConfig" where
  "default_transport x = x\<lparr>
     xc_MaxIdleConns := or_else (xc_MaxIdleConns x) 100,
     xc_MaxIdleConnsPerHost := or_else (xc_MaxIdleConnsPerHost x) 10,
     xc_IdleConnTimeout := or_else (xc_IdleConnTimeout x) (90 * Second),
     xc_TLSHandshakeTimeout := or_else (xc_TLSHandshakeTimeout x) (10 * Second),
     xc_ExpectContinueTimeout := or_else (xc_ExpectContinueTimeout x) (1 * Second),
     xc_DialTimeout := or_else (xc_DialTimeout x) (30 * Second),
     xc_DialKeepAlive := or_else (xc_DialKeepAlive x) (30 * Second)\<rparr>"

definition default_registry :: "RegistryConfig \<Rightarrow> RegistryConfig" where
  "default_registry r = (if rc_Enabled r then r\<lparr>
     rc_Listen := or_string (rc_Listen r) '':8500'',
     rc_DefaultTTL := or_else (rc_DefaultTTL r) (30 * Second),
     rc_CleanupInterval := or_else (rc_CleanupInterval r) (10 * Second)\<rparr> else r)"

definition default_logging :: "LoggingConfig \<Rightarrow> LoggingConfig" where
  "default_logging l = l\<lparr>lc_Level := or_string (lc_Level l) ''info'', lc_Format := or_string (lc_Format l) ''json''\<rparr>"

definition default_metrics :: "MetricsConfig \<Rightarrow> MetricsConfig" where
  "default_metrics m = (if mc_Enabled m then m\<lparr>mc_Path := or_string (mc_Path m) ''/metrics''\<rparr> else m)"

text \<open>Each section of the server record depends only on itself.\<close>

definition applyDefaults :: "Config \<Rightarrow> Config" where
  "applyDefaults c =
    (let s = Server c
     in c\<lparr>Server := s\<lparr>
          s_LoadBalancer := or_string (s_LoadBalancer s) ''round_robin'',
          s_Backends := default_weights (s_Backends s),
          s_Health := default_health (s_Health s),
          s_RateLimit := default_rate (s_RateLimit s),
          s_CircuitBreaker := default_breaker (s_CircuitBreaker s),
          s_Admin := default_admin (s_Admin s),
          s_TCPPool := default_pool (s_TCPPool s),
          s_HTTPTransport := default_transport (s_HTTPTransport s),
          s_Registry := default_registry (s_Registry s),
          s_Logging := default_logging (s_Logging s),
          s_Metrics := default_metrics (s_Metrics s)\<rparr>\<rparr>)"

section \<open>Loading\<close>

datatype config_error =
  ReadConfig string
| ParseConfig string
| ListenRequired
| NoBackendsConfigured
| BackendAddrRequired nat
| BackendWeightNegative nat

fun check_backends :: "nat \<Rightarrow> BackendConfig list \<Rightarrow> config_error option" where
  "check_backends i [] = None"
| "check_backends i (b # bs) =
     (if bc_Addr b = [] then Some (BackendAddrRequired i)
      else if bc_Weight b < 0 then Some (BackendWeightNegative i)
      else check_backends (Suc i) bs)"

definition Validate :: "Config \<Rightarrow> config_error option" where
  "Validate c =
    (if s_ListenAddr (Server c) = [] then Some ListenRequired
     else if length (s_Backends (Server c)) = 0 then Some NoBackendsConfigured
     else check_backends 0 (s_Backends (Server c)))"

text \<open>\<^verbatim>\<open>Load\<close> makes the same checks itself.\<close>

definition Load :: "(string \<Rightarrow> string + 'd) \<Rightarrow> ('d \<Rightarrow> string + Config) \<Rightarrow> string \<Rightarrow> config_error + Config" where
  "Load readFile unmarshal path =
    (case readFile path of
       Inl err \<Rightarrow> Inl (ReadConfig err)
     | Inr data \<Rightarrow>
         (case unmarshal data of
            Inl err \<Rightarrow> Inl (ParseConfig err)
          | Inr cfg0 \<Rightarrow>
              (let cfg = applyDefaults cfg0
               in if s_ListenAddr (Server cfg) = [] then Inl ListenRequired
                  else if length (s_Backends (Server cfg)) = 0 then Inl NoBackendsConfigured
                  else (case check_backends 0 (s_Backends (Server cfg)) of
                          Some err \<Rightarrow> Inl err
                        | None \<Rightarrow> Inr cfg))))"

definition HTTPTransportConfigValues :: "Config \<Rightarrow> TransportConfig" where
  "HTTPTransportConfigValues c = s_HTTPTransport (Server c)"

section \<open>What defaults do\<close>

lemma or_else_idem [simp]: "d \<noteq> 0 \<Longrightarrow> or_else (or_else x d) d = or_else x d"
  by (simp add: or_else_def)

lemma or_string_idem [simp]: "d \<noteq> [] \<Longrightarrow> or_string (or_string x d) d = or_string x d"
  by (simp add: or_string_def)

lemma Second_nonzero [simp]: "Second \<noteq> 0" by (simp add: Second_def)

lemma sections_idem:
  "default_weights (default_weights bs) = default_weights bs" "default_health (default_health h) = default_health h"
  "default_rate (default_rate r) = default_rate r" "default_breaker (default_breaker b) = default_breaker b"
  "default_admin (default_admin a) = default_admin a" "default_pool (default_pool t) = default_pool t"
  "default_transport (default_transport x) = default_transport x" "default_registry (default_registry g) = default_registry g"
  "default_logging (default_logging l) = default_logging l" "default_metrics (default_metrics m) = default_metrics m"
  by (simp_all add: default_weights_def default_health_def default_rate_def default_breaker_def default_admin_def default_pool_def
      default_transport_def default_registry_def default_logging_def default_metrics_def)

lemma applyDefaults_idem: "applyDefaults (applyDefaults c) = applyDefaults c"
  by (simp add: applyDefaults_def Let_def sections_idem)

text \<open>The first entry that breaks a rule decides the error; there is an error exactly when some entry
  breaks one.\<close>

definition entry_ok :: "BackendConfig \<Rightarrow> bool" where
  "entry_ok b \<longleftrightarrow> bc_Addr b \<noteq> [] \<and> 0 \<le> bc_Weight b"

lemma check_backends_None: "check_backends i bs = None \<longleftrightarrow> (\<forall>b \<in> set bs. entry_ok b)"
  by (induction bs arbitrary: i) (auto simp: entry_ok_def)

lemma check_backends_Some:
  "check_backends i bs = Some err \<Longrightarrow> \<exists>j < length bs. (\<forall>k < j. entry_ok (bs ! k)) \<and>
    (bc_Addr (bs ! j) = [] \<and> err = BackendAddrRequired (i + j) \<or>
     bc_Addr (bs ! j) \<noteq> [] \<and> bc_Weight (bs ! j) < 0 \<and> err = BackendWeightNegative (i + j))"
proof (induction bs arbitrary: i)
  case (Cons b bs)
  show ?case
  proof (cases "entry_ok b")
    case True
    with Cons.prems have "check_backends (Suc i) bs = Some err" by (auto simp: entry_ok_def)
    from Cons.IH [OF this] obtain j where j: "j < length bs" "\<forall>k < j. entry_ok (bs ! k)"
      "bc_Addr (bs ! j) = [] \<and> err = BackendAddrRequired (Suc i + j) \<or>
       bc_Addr (bs ! j) \<noteq> [] \<and> bc_Weight (bs ! j) < 0 \<and> err = BackendWeightNegative (Suc i + j)" by blast
    have "\<forall>k < Suc j. entry_ok ((b # bs) ! k)" using j(2) True by (auto simp: less_Suc_eq_0_disj)
    with j show ?thesis by (intro exI [of _ "Suc j"]) auto
  next
    case False
    with Cons.prems show ?thesis by (intro exI [of _ 0]) (auto simp: entry_ok_def split: if_splits)
  qed
qed simp

lemma default_weights_ok: "entry_ok (b\<lparr>bc_Weight := or_else (bc_Weight b) 1\<rparr>) \<longleftrightarrow> entry_ok b"
  by (auto simp: entry_ok_def or_else_def)

text \<open>C38: loading succeeds exactly for a readable file that parses to a configuration with a
  listen address and at least one backend, every backend with an address and no negative weight;
  the result is then the parsed configuration with its zero values filled in, has only positive
  weights, passes \<^verbatim>\<open>Validate\<close>, and filling in again changes nothing.\<close>

theorem Load_exact:
  "Load readFile unmarshal path = Inr cfg \<longleftrightarrow>
    (\<exists>data cfg0. readFile path = Inr data \<and> unmarshal data = Inr cfg0 \<and> cfg = applyDefaults cfg0 \<and>
       s_ListenAddr (Server cfg0) \<noteq> [] \<and> s_Backends (Server cfg0) \<noteq> [] \<and> list_all entry_ok (s_Backends (Server cfg0)) \<and>
       Validate cfg = None \<and> applyDefaults cfg = cfg \<and> list_all (\<lambda>b. 1 \<le> bc_Weight b) (s_Backends (Server cfg)))"
proof -
  have "list_all (\<lambda>b. 1 \<le> bc_Weight b) (default_weights bs)" if "list_all entry_ok bs" for bs
    using that by (auto simp: list_all_iff default_weights_def entry_ok_def or_else_def)
  moreover have "check_backends 0 (default_weights bs) = None \<longleftrightarrow> list_all entry_ok bs" for bs
    by (auto simp: check_backends_None default_weights_def default_weights_ok list_all_iff)
  moreover have "default_weights bs = [] \<longleftrightarrow> bs = []" for bs by (simp add: default_weights_def)
  moreover have "s_ListenAddr (Server (applyDefaults c)) = s_ListenAddr (Server c)"
    "s_Backends (Server (applyDefaults c)) = default_weights (s_Backends (Server c))" for c
    by (simp_all add: applyDefaults_def Let_def)
  ultimately show ?thesis
    by (auto simp: Load_def Validate_def Let_def applyDefaults_idem split: sum.splits option.splits)
qed

text \<open>A configuration that is refused is refused for the first rule it breaks, and the error
  names it: the listen address before the list of backends, and in the list the first offending
  entry with its index, its address before its weight.\<close>

theorem Validate_first_error:
  assumes "Validate c = Some err"
  shows "err = ListenRequired \<and> s_ListenAddr (Server c) = [] \<or>
    err = NoBackendsConfigured \<and> s_ListenAddr (Server c) \<noteq> [] \<and> s_Backends (Server c) = [] \<or>
    (\<exists>i < length (s_Backends (Server c)). (\<forall>k < i. entry_ok (s_Backends (Server c) ! k)) \<and>
      (bc_Addr (s_Backends (Server c) ! i) = [] \<and> err = BackendAddrRequired i \<or>
       bc_Addr (s_Backends (Server c) ! i) \<noteq> [] \<and> bc_Weight (s_Backends (Server c) ! i) < 0 \<and> err = BackendWeightNegative i))"
  using assms check_backends_Some [of 0 "s_Backends (Server c)" err]
  by (auto simp: Validate_def split: if_splits)

definition zero_server :: ServerConfig where
  "zero_server = \<lparr>s_ListenAddr = [], s_HTTPListenAddr = [], s_Backends = [], s_LoadBalancer = [],
     s_Health = \<lparr>h_Interval = 0, h_Timeout = 0, h_UnhealthyThreshold = 0, h_HealthyThreshold = 0, h_CheckType = [], h_HTTPPath = []\<rparr>,
     s_RateLimit = \<lparr>rl_Enabled = False, rl_Rate = 0, rl_Burst = 0\<rparr>,
     s_CircuitBreaker = \<lparr>cc_Enabled = False, cc_FailureThreshold = 0, cc_SuccessThreshold = 0, cc_Timeout = 0, cc_Window = 0,
       cc_MaxHalfOpenRequests = 0\<rparr>,
     s_Admin = \<lparr>ac_Enabled = False, ac_Listen = []\<rparr>,
     s_TCPPool = \<lparr>tc_Enabled = False, tc_MaxIdle = 0, tc_IdleTimeout = 0, tc_MaxLifetime = 0\<rparr>,
     s_HTTPTransport = \<lparr>xc_MaxIdleConns = 0, xc_MaxIdleConnsPerHost = 0, xc_MaxConnsPerHost = 0, xc_IdleConnTimeout = 0,
       xc_TLSHandshakeTimeout = 0, xc_ExpectContinueTimeout = 0, xc_DialTimeout = 0, xc_DialKeepAlive = 0, xc_DisableCompression = False\<rparr>,
     s_Registry = \<lparr>rc_Enabled = False, rc_Listen = [], rc_DefaultTTL = 0, rc_CleanupInterval = 0, rc_MaxServices = 0\<rparr>,
     s_Logging = \<lparr>lc_Level = [], lc_Format = [], lc_AddSource = False\<rparr>,
     s_Metrics = \<lparr>mc_Enabled = False, mc_Listen = [], mc_Path = []\<rparr>\<rparr>"

definition sample_config :: "BackendConfig list \<Rightarrow> Config" where
  "sample_config bs = \<lparr>Server = zero_server\<lparr>s_ListenAddr := '':8080'', s_Backends := bs\<rparr>\<rparr>"

theorem Validate_first_error_witness:
  "Validate (sample_config [\<lparr>bc_Addr = ''a:1'', bc_Weight = 1\<rparr>, \<lparr>bc_Addr = [], bc_Weight = - 1\<rparr>]) = Some (BackendAddrRequired 1) \<and>
   entry_ok \<lparr>bc_Addr = ''a:1'', bc_Weight = 1\<rparr>"
proof -
  let ?c = "sample_config [\<lparr>bc_Addr = ''a:1'', bc_Weight = 1\<rparr>, \<lparr>bc_Addr = [], bc_Weight = - 1\<rparr>]"
  have v: "Validate ?c = Some (BackendAddrRequired 1)" by (simp add: Validate_def sample_config_def zero_server_def)
  from Validate_first_error [OF v] show ?thesis using v
    by (auto simp: sample_config_def zero_server_def less_Suc_eq)
qed

text \<open>Nothing checks the durations and thresholds: a negative health interval, on which the ticker
  of the checker panics, is accepted as it is.\<close>

theorem Load_accepts_negative_interval:
  "\<exists>cfg. Load (\<lambda>_. Inr ()) (\<lambda>_. Inr ((sample_config [\<lparr>bc_Addr = ''a:1'', bc_Weight = 0\<rparr>])\<lparr>Server := (Server (sample_config
      [\<lparr>bc_Addr = ''a:1'', bc_Weight = 0\<rparr>]))\<lparr>s_Health := (s_Health zero_server)\<lparr>h_Interval := - 1\<rparr>\<rparr>\<rparr>)) path = Inr cfg \<and>
    h_Interval (s_Health (Server cfg)) = - 1"
  by (simp add: Load_def sample_config_def zero_server_def applyDefaults_def default_weights_def default_health_def or_else_def)

end
