(* ===== verification/Base64.thy ===== *)
theory Base64
  imports Http
begin

text \<open>
  The base64url encoding of \<^verbatim>\<open>internal/auth/jwt.go\<close> over Go's \<^verbatim>\<open>base64.URLEncoding\<close>. Byte slices
  are strings. The decoder of the standard library skips line breaks, asks for the padding, and
  ignores the unused bits of the last character.
\<close>

section \<open>The standard library's codec\<close>

definition b64_alphabet :: string where
  "b64_alphabet = ''ABCDEFGHIJKLMNOPQRSTUVWXYZabcdefghijklmnopqrstuvwxyz0123456789-_''"

definition b64_char :: "nat \<Rightarrow> char" where
  "b64_char n = b64_alphabet ! n"

definition b64_index :: "char \<Rightarrow> nat option" where
  "b64_index c = Index_byte b64_alphabet c"

abbreviation byte :: "char \<Rightarrow> nat" where
  "byte c \<equiv> of_char c"

fun EncodeToString :: "string \<Rightarrow> string" where
  "EncodeToString [] = []"
| "EncodeToString [a] = [b64_char (byte a div 4), b64_char (byte a mod 4 * 16), CHR ''='', CHR ''='']"
| "EncodeToString [a, b] =
     [b64_char (byte a div 4), b64_char (byte a mod 4 * 16 + byte b div 16), b64_char (byte b mod 16 * 4), CHR ''='']"
| "EncodeToString (a # b # c # s) =
     b64_char (byte a div 4) # b64_char (byte a mod 4 * 16 + byte b div 16) #
     b64_char (byte b mod 16 * 4 + byte c div 64) # b64_char (byte c mod 64) # EncodeToString s"

fun decode_quanta :: "string \<Rightarrow> string option" where
  "decode_quanta [] = Some []"
| "decode_quanta (a # b # c # d # s) =
     (case (b64_index a, b64_index b, b64_index c, b64_index d) of
        (Some i, Some j, Some k, Some l) \<Rightarrow>
          map_option (\<lambda>t. char_of (i * 4 + j div 16) # char_of (j mod 16 * 16 + k div 4) # char_of (k mod 4 * 64 + l) # t)
            (decode_quanta s)
      | (Some i, Some j, Some k, None) \<Rightarrow>
          (if d = CHR ''='' \<and> s = [] then Some [char_of (i * 4 + j div 16), char_of (j mod 16 * 16 + k div 4)] else None)
      | (Some i, Some j, None, _) \<Rightarrow>
          (if c = CHR ''='' \<and> d = CHR ''='' \<and> s = [] then Some [char_of (i * 4 + j div 16)] else None)
      | _ \<Rightarrow> None)"
| "decode_quanta _ = None"

definition line_break :: "char \<Rightarrow> bool" where
  "line_break c \<longleftrightarrow> c = CHR 0x0A \<or> c = CHR 0x0D"

definition DecodeString :: "string \<Rightarrow> string option" where
  "DecodeString s = decode_quanta (filter (\<lambda>c. \<not> line_break c) s)"

text \<open>\<^verbatim>\<open>strings.TrimRight\<close> with a one-byte cutset.\<close>

definition TrimRight :: "string \<Rightarrow> char \<Rightarrow> string" where
  "TrimRight s c = rev (dropWhile (\<lambda>x. x = c) (rev s))"

section \<open>The functions of the package\<close>

definition base64URLDecode :: "string \<Rightarrow> string option" where
  "base64URLDecode s =
    (let s' = (if length s mod 4 = 2 then s @ ''=='' else if length s mod 4 = 3 then s @ ''='' else s)
     in DecodeString s')"

definition base64URLEncode :: "string \<Rightarrow> string" where
  "base64URLEncode data = TrimRight (EncodeToString data) CHR ''=''"

section \<open>Decoding inverts encoding\<close>

lemma Index_byte_nth: "distinct s \<Longrightarrow> i < length s \<Longrightarrow> Index_byte s (s ! i) = Some i"
proof (induction s arbitrary: i)
  case (Cons x s)
  then show ?case by (cases i) auto
qed simp

lemma b64_alphabet_ok: "distinct b64_alphabet" "length b64_alphabet = 64"
  "\<forall>c \<in> set b64_alphabet. c \<noteq> CHR ''='' \<and> c \<noteq> CHR ''.'' \<and> \<not> line_break c"
  unfolding b64_alphabet_def line_break_def by code_simp+

lemma b64_index_char [simp]: "n < 64 \<Longrightarrow> b64_index (b64_char n) = Some n"
  by (simp add: b64_index_def b64_char_def Index_byte_nth b64_alphabet_ok)

lemma b64_char_alphabet: "n < 64 \<Longrightarrow> b64_char n \<in> set b64_alphabet"
  by (simp add: b64_char_def b64_alphabet_ok)

lemma b64_index_pad [simp]: "b64_index CHR ''='' = None"
  using b64_alphabet_ok(3) by (auto simp: b64_index_def Index_byte_None)

lemma byte_parts [simp]:
  "byte a div 4 < 64" "byte a div 16 < 16" "byte a div 64 < 4" "byte a div 16 div 16 = 0" "byte a div 64 div 4 = 0"
  "byte a div 16 mod 16 = byte a div 16" "byte a div 64 mod 4 = byte a div 64" "byte a mod 16 * 4 < 64" "byte a mod 4 * 16 < 64"
proof -
  have a: "byte a < 256" by simp
  show "byte a div 4 < 64" "byte a div 16 < 16" "byte a div 64 < 4" using a by (simp_all add: div_less_iff_less_mult)
  then show "byte a div 16 div 16 = 0" "byte a div 64 div 4 = 0" "byte a div 16 mod 16 = byte a div 16"
    "byte a div 64 mod 4 = byte a div 64" by simp_all
  have "byte a mod 16 < 16" "byte a mod 4 < 4" by simp_all
  then show "byte a mod 16 * 4 < 64" "byte a mod 4 * 16 < 64" by linarith+
qed

lemma byte_sums [simp]: "byte a mod 4 * 16 + byte b div 16 < 64" "byte b mod 16 * 4 + byte c div 64 < 64"
proof -
  have "byte a mod 4 < 4" "byte b div 16 < 16" by simp_all
  then show "byte a mod 4 * 16 + byte b div 16 < 64" by linarith
  have "byte b mod 16 < 16" "byte c div 64 < 4" by simp_all
  then show "byte b mod 16 * 4 + byte c div 64 < 64" by linarith
qed

lemma decode_encode: "decode_quanta (EncodeToString s) = Some s"
  by (induction s rule: EncodeToString.induct) simp_all

lemma two_pads: "replicate 2 c = [c, c]"
  by (simp add: numeral_2_eq_2)

text \<open>The encoding is a string over the alphabet, followed by the padding that its length asks for.\<close>

lemma EncodeToString_shape:
  "\<exists>raw. set raw \<subseteq> set b64_alphabet \<and> EncodeToString s = raw @ replicate ((4 - length raw mod 4) mod 4) CHR ''='' \<and>
    length raw mod 4 \<noteq> 1"
proof (induction s rule: EncodeToString.induct)
  case (4 a b c s)
  then obtain raw where raw: "set raw \<subseteq> set b64_alphabet"
    "EncodeToString s = raw @ replicate ((4 - length raw mod 4) mod 4) CHR ''=''" "length raw mod 4 \<noteq> 1" by blast
  let ?quad = "[b64_char (byte a div 4), b64_char (byte a mod 4 * 16 + byte b div 16),
     b64_char (byte b mod 16 * 4 + byte c div 64), b64_char (byte c mod 64)]"
  have "length (?quad @ raw) mod 4 = length raw mod 4" by simp
  with raw show ?case by (intro exI [of _ "?quad @ raw"]) (simp add: b64_char_alphabet)
next
  case (2 a)
  show ?case
    by (intro exI [of _ "[b64_char (byte a div 4), b64_char (byte a mod 4 * 16)]"])
      (simp add: b64_char_alphabet two_pads)
next
  case (3 a b)
  show ?case
    by (intro exI [of _ "[b64_char (byte a div 4), b64_char (byte a mod 4 * 16 + byte b div 16), b64_char (byte b mod 16 * 4)]"])
      (simp add: b64_char_alphabet)
qed simp

lemma TrimRight_pads: "c \<notin> set s \<Longrightarrow> TrimRight (s @ replicate n c) c = s"
proof -
  assume "c \<notin> set s"
  then have "dropWhile (\<lambda>x. x = c) (rev s) = rev s" by (cases "rev s") (auto simp: rev_eq_Cons_iff)
  moreover have "dropWhile (\<lambda>x. x = c) (replicate n c @ t) = dropWhile (\<lambda>x. x = c) t" for t by (induction n) auto
  ultimately show ?thesis by (simp add: TrimRight_def)
qed

lemma base64URLEncode_chars: "set (base64URLEncode s) \<subseteq> set b64_alphabet"
proof -
  obtain raw n where "set raw \<subseteq> set b64_alphabet" "EncodeToString s = raw @ replicate n CHR ''=''"
    using EncodeToString_shape by blast
  moreover have "CHR ''='' \<notin> set raw" using calculation(1) b64_alphabet_ok(3) by auto
  ultimately show ?thesis by (simp add: base64URLEncode_def TrimRight_pads)
qed

lemma base64URLEncode_no_dot: "CHR ''.'' \<notin> set (base64URLEncode s)"
  using base64URLEncode_chars b64_alphabet_ok(3) by blast

lemma base64URL_inverse: "base64URLDecode (base64URLEncode s) = Some s"
proof -
  obtain raw where raw: "set raw \<subseteq> set b64_alphabet" "length raw mod 4 \<noteq> 1"
    "EncodeToString s = raw @ replicate ((4 - length raw mod 4) mod 4) CHR ''=''"
    using EncodeToString_shape by blast
  have pad: "CHR ''='' \<notin> set raw" using raw(1) b64_alphabet_ok(3) by auto
  have "length raw mod 4 < 4" by simp
  with raw(2) have "length raw mod 4 = 0 \<or> length raw mod 4 = 2 \<or> length raw mod 4 = 3" by linarith
  then have "base64URLDecode raw = DecodeString (EncodeToString s)"
    unfolding raw(3) by (auto simp: base64URLDecode_def two_pads)
  moreover have "\<not> line_break c" if "c \<in> set (EncodeToString s)" for c
  proof -
    have "c \<in> set raw \<or> c = CHR ''=''" using that unfolding raw(3) by (auto split: if_splits)
    moreover have "\<not> line_break CHR ''=''" by (simp add: line_break_def)
    ultimately show ?thesis using raw(1) b64_alphabet_ok(3) by blast
  qed
  then have "filter (\<lambda>c. \<not> line_break c) (EncodeToString s) = EncodeToString s" by (simp add: filter_id_conv)
  moreover have "base64URLEncode s = raw" using pad by (simp add: base64URLEncode_def raw(3) TrimRight_pads)
  ultimately show ?thesis by (simp add: DecodeString_def decode_encode)
qed

end
