(* ===== verification/Json.thy ===== *)
theory Json
  imports Http Complex_Main "HOL-Library.AList"
begin

text \<open>
  What \<^verbatim>\<open>internal/auth/jwt.go\<close> uses of Go's \<^verbatim>\<open>encoding/json\<close>: a parser for documents, the printer
  for the values that are marshalled, and the conversion to \<^verbatim>\<open>interface{}\<close> values. Strings are
  byte strings; those of a document come out as valid UTF-8. A number keeps its literal, because
  what it means depends on the type it is stored into. The parser recurses on a bound for the
  length of the document, which the entry point takes from the document itself.
\<close>

datatype json =
    JNull
  | JBool bool
  | JNum string
  | JStr string
  | JArr "json list"
  | JObj "(string \<times> json) list"

section \<open>Runes\<close>

text \<open>\<^verbatim>\<open>utf8.AppendRune\<close> and \<^verbatim>\<open>utf8.DecodeRune\<close>.\<close>

definition EncodeRune :: "nat \<Rightarrow> string" where
  "EncodeRune r =
    (if r < 0x80 then [char_of r]
     else if r < 0x800 then [char_of (0xC0 + r div 64), char_of (0x80 + r mod 64)]
     else if 0xD800 \<le> r \<and> r \<le> 0xDFFF \<or> 0x10FFFF < r then [char_of (0xEF :: nat), char_of (0xBF :: nat), char_of (0xBD :: nat)]
     else if r < 0x10000 then [char_of (0xE0 + r div 4096), char_of (0x80 + r div 64 mod 64), char_of (0x80 + r mod 64)]
     else [char_of (0xF0 + r div 262144), char_of (0x80 + r div 4096 mod 64), char_of (0x80 + r div 64 mod 64), char_of (0x80 + r mod 64)])"

definition in_range :: "nat \<Rightarrow> nat \<Rightarrow> nat \<Rightarrow> bool" where
  "in_range lo hi n \<longleftrightarrow> lo \<le> n \<and> n \<le> hi"

definition RuneError :: nat where
  "RuneError = 0xFFFD"

text \<open>The range of the second byte depends on the first, which excludes overlong forms,
  surrogates and values beyond the last code point.\<close>

definition second_range :: "nat \<Rightarrow> nat \<times> nat" where
  "second_range a =
    (if a = 0xE0 then (0xA0, 0xBF) else if a = 0xED then (0x80, 0x9F)
     else if a = 0xF0 then (0x90, 0xBF) else if a = 0xF4 then (0x80, 0x8F) else (0x80, 0xBF))"

definition DecodeRune :: "nat list \<Rightarrow> nat \<times> nat" where
  "DecodeRune bs =
    (case bs of
       [] \<Rightarrow> (RuneError, 0)
     | a # t \<Rightarrow>
        (let (lo, hi) = second_range a
         in if a < 0x80 then (a, 1)
            else if in_range 0xC2 0xDF a then
              (case t of b # _ \<Rightarrow> if in_range lo hi b then (a mod 32 * 64 + b mod 64, 2) else (RuneError, 1) | _ \<Rightarrow> (RuneError, 1))
            else if in_range 0xE0 0xEF a then
              (case t of b # c # _ \<Rightarrow>
                 if in_range lo hi b \<and> in_range 0x80 0xBF c then (a mod 16 * 4096 + b mod 64 * 64 + c mod 64, 3) else (RuneError, 1)
               | _ \<Rightarrow> (RuneError, 1))
            else if in_range 0xF0 0xF4 a then
              (case t of b # c # d # _ \<Rightarrow>
                 if in_range lo hi b \<and> in_range 0x80 0xBF c \<and> in_range 0x80 0xBF d
                 then (a mod 8 * 262144 + b mod 64 * 4096 + c mod 64 * 64 + d mod 64, 4) else (RuneError, 1)
               | _ \<Rightarrow> (RuneError, 1))
            else (RuneError, 1)))"

section \<open>Parsing\<close>

type_synonym 'a parser = "string \<Rightarrow> ('a \<times> string) option"

definition json_space :: "char \<Rightarrow> bool" where
  "json_space c \<longleftrightarrow> c = CHR '' '' \<or> c = CHR 0x09 \<or> c = CHR 0x0A \<or> c = CHR 0x0D"

definition skip_space :: "string \<Rightarrow> string" where
  "skip_space s = dropWhile json_space s"

definition digit :: "char \<Rightarrow> bool" where
  "digit c \<longleftrightarrow> in_range 48 57 (of_char c)"

definition hex_value :: "char \<Rightarrow> nat option" where
  "hex_value c =
    (let n = of_char c
     in if in_range 48 57 n then Some (n - 48)
        else if in_range 97 102 n then Some (n - 87)
        else if in_range 65 70 n then Some (n - 55) else None)"

text \<open>\<^verbatim>\<open>getu4\<close>: a rune written as \<^verbatim>\<open>\uXXXX\<close> at the front.\<close>

fun getu4 :: "string \<Rightarrow> (nat \<times> string) option" where
  "getu4 (bs # u # a # b # c # d # s) =
     (if bs = CHR 0x5C \<and> u = CHR ''u'' then
        (case (hex_value a, hex_value b, hex_value c, hex_value d) of
           (Some i, Some j, Some k, Some l) \<Rightarrow> Some (((i * 16 + j) * 16 + k) * 16 + l, s)
         | _ \<Rightarrow> None)
      else None)"
| "getu4 _ = None"

text \<open>A surrogate that is followed by its partner forms one rune with it; any other is replaced.\<close>

definition surrogate :: "nat \<Rightarrow> bool" where
  "surrogate r \<longleftrightarrow> in_range 0xD800 0xDFFF r"

definition utf16_decode :: "nat \<Rightarrow> nat \<Rightarrow> nat" where
  "utf16_decode r1 r2 =
    (if in_range 0xD800 0xDBFF r1 \<and> in_range 0xDC00 0xDFFF r2
     then (r1 - 0xD800) * 1024 + (r2 - 0xDC00) + 0x10000 else RuneError)"

definition unescape_u :: "string \<Rightarrow> (string \<times> string) option" where
  "unescape_u s =
    (case getu4 s of
       None \<Rightarrow> None
     | Some (rr, s1) \<Rightarrow>
         if surrogate rr then
           (case getu4 s1 of
              Some (rr1, s2) \<Rightarrow>
                if utf16_decode rr rr1 \<noteq> RuneError then Some (EncodeRune (utf16_decode rr rr1), s2)
                else Some (EncodeRune RuneError, s1)
            | None \<Rightarrow> Some (EncodeRune RuneError, s1))
         else Some (EncodeRune rr, s1))"

text \<open>The single-character escapes.\<close>

definition escape_table :: "(char \<times> char) list" where
  "escape_table = [(CHR 0x22, CHR 0x22), (CHR 0x5C, CHR 0x5C), (CHR ''/'', CHR ''/''), (CHR ''b'', CHR 0x08),
     (CHR ''f'', CHR 0x0C), (CHR ''n'', CHR 0x0A), (CHR ''r'', CHR 0x0D), (CHR ''t'', CHR 0x09)]"

text \<open>One element of a string: the bytes it stands for and the rest of the input.\<close>

definition string_item :: "string parser" where
  "string_item s =
    (case s of
       [] \<Rightarrow> None
     | c # t \<Rightarrow>
        if of_char c < (0x20 :: nat) \<or> c = CHR 0x22 then None
        else if c = CHR 0x5C then
          (case t of
             [] \<Rightarrow> None
           | e # t' \<Rightarrow> (case map_of escape_table e of Some x \<Rightarrow> Some ([x], t') | None \<Rightarrow> unescape_u s))
        else if of_char c < (0x80 :: nat) then Some ([c], t)
        else (let (r, n) = DecodeRune (map of_char (take 4 s)) in Some (EncodeRune r, drop n s)))"

lemma getu4_shorter: "getu4 s = Some (r, t) \<Longrightarrow> length t < length s"
  by (cases s rule: getu4.cases) (auto split: if_splits option.splits)

lemma unescape_u_shorter:
  assumes "unescape_u s = Some (x, t)"
  shows "length t < length s"
proof -
  obtain rr s1 where s1: "getu4 s = Some (rr, s1)" using assms by (auto simp: unescape_u_def split: option.splits)
  have "t = s1 \<or> (\<exists>rr1. getu4 s1 = Some (rr1, t))"
    using assms by (auto simp: unescape_u_def s1 split: if_splits option.splits)
  then show ?thesis using getu4_shorter [OF s1] getu4_shorter by fastforce
qed

lemma DecodeRune_progress: "DecodeRune (a # t) = (r, n) \<Longrightarrow> 0 < n"
  by (auto simp: DecodeRune_def split: if_splits list.splits prod.splits)

lemma string_item_shorter:
  assumes "string_item s = Some (x, t)"
  shows "length t < length s"
proof (cases s)
  case (Cons c s')
  have "0 < snd (DecodeRune (map of_char (take 4 s)))"
    using DecodeRune_progress [of "of_char c" "map of_char (take 3 s')"] by (simp add: Cons prod_eq_iff)
  then show ?thesis using assms unescape_u_shorter [of s x t]
    by (auto simp: string_item_def Cons split: list.splits if_splits option.splits prod.splits)
qed (use assms in \<open>simp add: string_item_def\<close>)

function string_rest :: "string parser" where
  "string_rest s =
    (if take 1 s = [CHR 0x22] then Some ([], drop 1 s)
     else (case string_item s of
             None \<Rightarrow> None
           | Some (x, t) \<Rightarrow> (case string_rest t of None \<Rightarrow> None | Some (xs, u) \<Rightarrow> Some (x @ xs, u))))"
  by pat_completeness auto
termination
  by (relation "measure length") (auto simp: string_item_shorter)

declare string_rest.simps [simp del]

text \<open>Numbers: the literal and the rest.\<close>

definition some_digits :: "string parser" where
  "some_digits s = (if takeWhile digit s = [] then None else Some (takeWhile digit s, dropWhile digit s))"

definition number_int :: "string parser" where
  "number_int s = (if take 1 s = ''0'' then Some (''0'', drop 1 s) else some_digits s)"

definition number_frac :: "string parser" where
  "number_frac s = (if take 1 s = ''.'' then map_option (apfst (\<lambda>ds. ''.'' @ ds)) (some_digits (drop 1 s)) else Some ([], s))"

definition number_exp :: "string parser" where
  "number_exp s =
    (if take 1 s = ''e'' \<or> take 1 s = ''E'' then
       (let t = drop 1 s; k = (if take 1 t = ''+'' \<or> take 1 t = ''-'' then 1 else 0)
        in map_option (apfst (\<lambda>ds. take 1 s @ take k t @ ds)) (some_digits (drop k t)))
     else Some ([], s))"

definition number :: "string parser" where
  "number s =
    (let k = (if take 1 s = ''-'' then 1 else 0)
     in case number_int (drop k s) of
          None \<Rightarrow> None
        | Some (i, s1) \<Rightarrow>
            (case number_frac s1 of
               None \<Rightarrow> None
             | Some (f, s2) \<Rightarrow>
                 (case number_exp s2 of None \<Rightarrow> None | Some (e, s3) \<Rightarrow> Some (take k s @ i @ f @ e, s3))))"

text \<open>\<^verbatim>\<open>expect c\<close>: the input after white space and the character \<open>c\<close>.\<close>

definition expect :: "char \<Rightarrow> string \<Rightarrow> string option" where
  "expect c s = (case skip_space s of x # t \<Rightarrow> if x = c then Some t else None | [] \<Rightarrow> None)"

definition literals :: "(string \<times> json) list" where
  "literals = [(''true'', JBool True), (''false'', JBool False), (''null'', JNull)]"

definition scalar :: "json parser" where
  "scalar s =
    (case find (\<lambda>(w, j). prefix w s) literals of
       Some (w, j) \<Rightarrow> Some (j, drop (length w) s)
     | None \<Rightarrow> map_option (apfst JNum) (number s))"

text \<open>The nesting depth is limited; \<open>d\<close> is how much of it is left, \<open>n\<close> the bound of the recursion.\<close>

fun json_value :: "nat \<Rightarrow> nat \<Rightarrow> json parser"
and json_members :: "nat \<Rightarrow> nat \<Rightarrow> (string \<times> json) list parser"
and json_elems :: "nat \<Rightarrow> nat \<Rightarrow> json list parser" where
  "json_value d 0 s = None"
| "json_value d (Suc n) s =
     (case expect CHR 0x22 s of
        Some t \<Rightarrow> map_option (apfst JStr) (string_rest t)
      | None \<Rightarrow>
     (case expect CHR ''{'' s of
        Some t \<Rightarrow>
          (if d = 0 then None
           else (case expect CHR ''}'' t of
                   Some u \<Rightarrow> Some (JObj [], u)
                 | None \<Rightarrow> map_option (apfst JObj) (json_members (d - 1) n t)))
      | None \<Rightarrow>
     (case expect CHR ''['' s of
        Some t \<Rightarrow>
          (if d = 0 then None
           else (case expect CHR '']'' t of
                   Some u \<Rightarrow> Some (JArr [], u)
                 | None \<Rightarrow> map_option (apfst JArr) (json_elems (d - 1) n t)))
      | None \<Rightarrow> scalar (skip_space s))))"
| "json_members d 0 s = None"
| "json_members d (Suc n) s =
     (case expect CHR 0x22 s of
        None \<Rightarrow> None
      | Some t \<Rightarrow>
     (case string_rest t of
        None \<Rightarrow> None
      | Some (k, u) \<Rightarrow>
     (case expect CHR '':'' u of
        None \<Rightarrow> None
      | Some v \<Rightarrow>
     (case json_value d n v of
        None \<Rightarrow> None
      | Some (j, w) \<Rightarrow>
     (case expect CHR ''}'' w of
        Some x \<Rightarrow> Some ([(k, j)], x)
      | None \<Rightarrow>
     (case expect CHR '','' w of
        None \<Rightarrow> None
      | Some x \<Rightarrow> map_option (apfst (\<lambda>ms. (k, j) # ms)) (json_members d n x)))))))"
| "json_elems d 0 s = None"
| "json_elems d (Suc n) s =
     (case json_value d n s of
        None \<Rightarrow> None
      | Some (j, w) \<Rightarrow>
     (case expect CHR '']'' w of
        Some x \<Rightarrow> Some ([j], x)
      | None \<Rightarrow>
     (case expect CHR '','' w of
        None \<Rightarrow> None
      | Some x \<Rightarrow> map_option (apfst (\<lambda>js. j # js)) (json_elems d n x))))"

definition max_depth :: nat where
  "max_depth = 10000"

text \<open>A document: one value and nothing but white space after it.\<close>

definition json_parse :: "string \<Rightarrow> json option" where
  "json_parse s =
    (case json_value max_depth (2 * length s + 2) s of
       Some (j, t) \<Rightarrow> if skip_space t = [] then Some j else None
     | None \<Rightarrow> None)"

section \<open>Integers\<close>

text \<open>\<^verbatim>\<open>strconv.ParseInt(s, 10, 64)\<close>.\<close>

definition digits_value :: "string \<Rightarrow> nat" where
  "digits_value ds = foldl (\<lambda>n c. n * 10 + (of_char c - 48)) 0 ds"

definition ParseInt :: "string \<Rightarrow> int option" where
  "ParseInt s =
    (let ds = (if take 1 s = ''-'' \<or> take 1 s = ''+'' then drop 1 s else s)
     in if ds = [] \<or> \<not> list_all digit ds then None
        else (let n = int (digits_value ds); i = (if take 1 s = ''-'' then - n else n)
              in if min_int64 \<le> i \<and> i \<le> max_int64 then Some i else None))"

section \<open>Values of type interface\<close>

text \<open>A number becomes a \<^verbatim>\<open>float64\<close>: the exact value of its literal is rounded, and a literal
  beyond the largest float is an error.\<close>

definition scale10 :: "nat \<Rightarrow> int \<Rightarrow> rat" where
  "scale10 m e = (if 0 \<le> e then of_nat m * 10 ^ nat e else of_nat m / 10 ^ nat (- e))"

definition number_value :: "string \<Rightarrow> rat" where
  "number_value l =
    (let body = (if take 1 l = ''-'' then drop 1 l else l);
         ip = takeWhile digit body; s1 = dropWhile digit body;
         fp = (if take 1 s1 = ''.'' then takeWhile digit (drop 1 s1) else []);
         s2 = (if take 1 s1 = ''.'' then dropWhile digit (drop 1 s1) else s1);
         s3 = drop 1 s2;
         ex = (if s2 = [] then 0
               else if take 1 s3 = ''-'' then - int (digits_value (drop 1 s3))
               else if take 1 s3 = ''+'' then int (digits_value (drop 1 s3))
               else int (digits_value s3));
         v = scale10 (digits_value (ip @ fp)) (ex - int (length fp))
     in if take 1 l = ''-'' then - v else v)"

definition float_limit :: rat where
  "float_limit = 2 ^ 1024 - 2 ^ 970"

definition ParseFloat :: "(rat \<Rightarrow> rat) \<Rightarrow> string \<Rightarrow> rat option" where
  "ParseFloat rnd l = (if \<bar>number_value l\<bar> < float_limit then Some (rnd (number_value l)) else None)"

datatype iface =
    INil
  | IBool bool
  | IFloat rat
  | IStr string
  | IArr "iface list"
  | IMap "(string \<times> iface) list"

text \<open>A map is an association list without repeated keys; of equal keys in a document the last
  one counts.\<close>

fun to_iface :: "(rat \<Rightarrow> rat) \<Rightarrow> json \<Rightarrow> iface option"
and to_ifaces :: "(rat \<Rightarrow> rat) \<Rightarrow> json list \<Rightarrow> iface list option"
and to_map :: "(rat \<Rightarrow> rat) \<Rightarrow> (string \<times> json) list \<Rightarrow> (string \<times> iface) list \<Rightarrow> (string \<times> iface) list option" where
  "to_iface rnd JNull = Some INil"
| "to_iface rnd (JBool b) = Some (IBool b)"
| "to_iface rnd (JNum l) = map_option IFloat (ParseFloat rnd l)"
| "to_iface rnd (JStr s) = Some (IStr s)"
| "to_iface rnd (JArr js) = map_option IArr (to_ifaces rnd js)"
| "to_iface rnd (JObj ms) = map_option IMap (to_map rnd ms [])"
| "to_ifaces rnd [] = Some []"
| "to_ifaces rnd (j # js) =
     (case to_iface rnd j of
        None \<Rightarrow> None
      | Some v \<Rightarrow> map_option (\<lambda>vs. v # vs) (to_ifaces rnd js))"
| "to_map rnd [] acc = Some acc"
| "to_map rnd ((k, j) # ms) acc =
     (case to_iface rnd j of
        None \<Rightarrow> None
      | Some v \<Rightarrow> to_map rnd ms (AList.update k v acc))"

section \<open>Structs\<close>

text \<open>The field a key belongs to: an exact match, or else the first field whose name is equal up to
  case. Two characters beyond ASCII fold to a letter, the long s and the Kelvin sign.\<close>

fun fold_name :: "string \<Rightarrow> string" where
  "fold_name [] = []"
| "fold_name (c # s) =
     (if c = CHR 0xC5 \<and> take 1 s = [CHR 0xBF] then CHR ''S'' # fold_name (drop 1 s)
      else if c = CHR 0xE2 \<and> take 2 s = [CHR 0x84, CHR 0xAA] then CHR ''K'' # fold_name (drop 2 s)
      else ascii_upper c # fold_name s)"

definition field_of :: "string list \<Rightarrow> string \<Rightarrow> string option" where
  "field_of names k = (if k \<in> set names then Some k else find (\<lambda>n. fold_name n = fold_name k) names)"

text \<open>Storing a value into a field: \<^verbatim>\<open>null\<close> leaves it alone, a value of another kind is an error.\<close>

definition store_string :: "json \<Rightarrow> string \<Rightarrow> string option" where
  "store_string j old = (case j of JStr s \<Rightarrow> Some s | JNull \<Rightarrow> Some old | _ \<Rightarrow> None)"

definition store_int :: "json \<Rightarrow> int \<Rightarrow> int option" where
  "store_int j old = (case j of JNum l \<Rightarrow> ParseInt l | JNull \<Rightarrow> Some old | _ \<Rightarrow> None)"

fun store_members :: "(string \<Rightarrow> json \<Rightarrow> 'a \<Rightarrow> 'a option) \<Rightarrow> (string \<times> json) list \<Rightarrow> 'a \<Rightarrow> 'a option" where
  "store_members f [] x = Some x"
| "store_members f ((k, j) # ms) x = (case f k j x of None \<Rightarrow> None | Some y \<Rightarrow> store_members f ms y)"

definition unmarshal_struct :: "(string \<Rightarrow> json \<Rightarrow> 'a \<Rightarrow> 'a option) \<Rightarrow> 'a \<Rightarrow> json \<Rightarrow> 'a option" where
  "unmarshal_struct f x j = (case j of JObj ms \<Rightarrow> store_members f ms x | JNull \<Rightarrow> Some x | _ \<Rightarrow> None)"

section \<open>Printing\<close>

text \<open>The characters \<^verbatim>\<open>json.Marshal\<close> writes as they are, and its escapes for the others.\<close>

definition html_safe :: "char \<Rightarrow> bool" where
  "html_safe c \<longleftrightarrow> 0x20 \<le> (of_char c :: nat) \<and> (of_char c :: nat) < 0x80 \<and> c \<notin> set [CHR 0x22, CHR 0x5C, CHR ''<'', CHR ''>'', CHR ''&'']"

definition quote_table :: "(char \<times> char) list" where
  "quote_table = [(CHR 0x22, CHR 0x22), (CHR 0x5C, CHR 0x5C), (CHR 0x08, CHR ''b''), (CHR 0x0C, CHR ''f''),
     (CHR 0x0A, CHR ''n''), (CHR 0x0D, CHR ''r''), (CHR 0x09, CHR ''t'')]"

definition u_escape :: "nat \<Rightarrow> string" where
  "u_escape r = [CHR 0x5C, CHR ''u'', hex_digit (r div 4096), hex_digit (r div 256), hex_digit (r div 16), hex_digit r]"

definition quote_ascii :: "char \<Rightarrow> string" where
  "quote_ascii c =
    (if html_safe c then [c]
     else (case map_of quote_table c of Some e \<Rightarrow> [CHR 0x5C, e] | None \<Rightarrow> u_escape (of_char c)))"

function quote_rest :: "string \<Rightarrow> string" where
  "quote_rest [] = []"
| "quote_rest (c # s) =
    (if of_char c < (0x80 :: nat) then quote_ascii c @ quote_rest s
     else (let (r, n) = DecodeRune (map of_char (take 4 (c # s)));
               out = (if r = RuneError \<and> n = 1 then u_escape RuneError
                      else if r = 0x2028 \<or> r = 0x2029 then u_escape r
                      else take n (c # s))
           in out @ quote_rest (drop (n - 1) s)))"
  by pat_completeness auto
termination
  by (relation "measure length") auto

definition json_quote :: "string \<Rightarrow> string" where
  "json_quote s = [CHR 0x22] @ quote_rest s @ [CHR 0x22]"

fun json_print :: "json \<Rightarrow> string" where
  "json_print JNull = ''null''"
| "json_print (JBool b) = (if b then ''true'' else ''false'')"
| "json_print (JNum l) = l"
| "json_print (JStr s) = json_quote s"
| "json_print (JArr js) = ''['' @ join '','' (map json_print js) @ '']''"
| "json_print (JObj ms) = ''{'' @ join '','' (map (\<lambda>(k, j). json_quote k @ '':'' @ json_print j) ms) @ ''}''"

section \<open>The bound of the recursion is enough\<close>

lemma expect_shorter: "expect c s = Some t \<Longrightarrow> length t < length s"
proof -
  assume "expect c s = Some t"
  then have "skip_space s = c # t" by (auto simp: expect_def split: list.splits if_splits)
  then show ?thesis using length_dropWhile_le [of json_space s] by (simp add: skip_space_def)
qed

lemma string_rest_shorter: "string_rest s = Some (x, t) \<Longrightarrow> length t < length s"
proof (induction s arbitrary: x t rule: string_rest.induct)
  case (1 s)
  show ?case
  proof (cases "take 1 s = [CHR 0x22]")
    case True
    then have "t = drop 1 s" "s \<noteq> []" using 1(2) by (auto simp: string_rest.simps [of s])
    then show ?thesis by (cases s) simp_all
  next
    case False
    then obtain y u z where u: "string_item s = Some (y, u)" "string_rest u = Some (z, t)"
      using 1(2) by (auto simp: string_rest.simps [of s] split: option.splits)
    with 1(1) [OF False u(1) refl u(2)] show ?thesis using string_item_shorter [OF u(1)] by simp
  qed
qed

lemma some_digits_shorter: "some_digits s = Some (x, t) \<Longrightarrow> length t < length s"
  using length_dropWhile_le [of digit "tl s"] by (cases s) (auto simp: some_digits_def split: if_splits)

lemma number_shorter: "number s = Some (x, t) \<Longrightarrow> length t < length s"
proof -
  assume "number s = Some (x, t)"
  then obtain k i f e s1 s2 where s1: "number_int (drop k s) = Some (i, s1)"
    and s2: "number_frac s1 = Some (f, s2)" and t: "number_exp s2 = Some (e, t)"
    by (auto simp: number_def Let_def split: option.splits prod.splits if_splits)
  have "length s1 < length (drop k s)"
    using s1 some_digits_shorter [of "drop k s" i s1] by (cases "drop k s") (auto simp: number_int_def split: if_splits)
  moreover have "length s2 \<le> length s1"
    using s2 some_digits_shorter by (fastforce simp: number_frac_def split: if_splits)
  moreover have "length t \<le> length s2"
    using t some_digits_shorter by (fastforce simp: number_exp_def Let_def split: if_splits)
  ultimately show ?thesis by simp
qed

lemma scalar_shorter: "scalar s = Some (j, t) \<Longrightarrow> length t < length s"
proof (cases "find (\<lambda>(w, j). prefix w s) literals")
  case None
  then show "scalar s = Some (j, t) \<Longrightarrow> ?thesis" using number_shorter by (auto simp: scalar_def)
next
  case (Some a)
  then have "a \<in> set literals" and "prefix (fst a) s" by (auto simp: find_Some_iff in_set_conv_nth)
  moreover from this(1) have "fst a \<noteq> []" by (auto simp: literals_def)
  ultimately show "scalar s = Some (j, t) \<Longrightarrow> ?thesis"
    using Some by (auto simp: scalar_def split: prod.splits elim!: prefixE)
qed

lemma json_shorter:
  "(\<forall>d s j t. json_value d n s = Some (j, t) \<longrightarrow> length t < length s) \<and>
   (\<forall>d s ms t. json_members d n s = Some (ms, t) \<longrightarrow> length t < length s) \<and>
   (\<forall>d s js t. json_elems d n s = Some (js, t) \<longrightarrow> length t < length s)"
proof (induction n)
  case (Suc n)
  then have IH: "json_value d n s = Some (j, t) \<Longrightarrow> length t < length s"
    "json_members d n s = Some (ms, t) \<Longrightarrow> length t < length s"
    "json_elems d n s = Some (js, t) \<Longrightarrow> length t < length s" for d s j ms js t by blast+
  have skip: "length (skip_space s) \<le> length s" for s by (simp add: skip_space_def length_dropWhile_le)
  have "length t < length s" if "json_value d (Suc n) s = Some (j, t)" for d s j t
    using that skip [of s]
    by (auto split: option.splits if_splits dest!: expect_shorter string_rest_shorter scalar_shorter IH)
  moreover have "length t < length s" if "json_members d (Suc n) s = Some (ms, t)" for d s ms t
    using that by (auto split: option.splits if_splits dest!: expect_shorter string_rest_shorter IH)
  moreover have "length t < length s" if "json_elems d (Suc n) s = Some (js, t)" for d s js t
    using that by (auto split: option.splits if_splits dest!: expect_shorter IH)
  ultimately show ?case by blast
qed simp

lemma map_option_arg: "x = y \<Longrightarrow> map_option f x = map_option f y"
  by simp

lemmas parser_congs = option.case_cong prod.case_cong map_option_arg

text \<open>Any bound beyond the one of \<^verbatim>\<open>json_parse\<close> gives the same result.\<close>

lemma json_bound:
  "(\<forall>d s m. 2 * length s + 1 \<le> n \<and> n \<le> m \<longrightarrow> json_value d m s = json_value d n s) \<and>
   (\<forall>d s m. 2 * length s + 1 \<le> n \<and> n \<le> m \<longrightarrow> json_members d m s = json_members d n s) \<and>
   (\<forall>d s m. 2 * length s + 2 \<le> n \<and> n \<le> m \<longrightarrow> json_elems d m s = json_elems d n s)"
proof (induction n)
  case (Suc n)
  then have IH: "2 * length s + 1 \<le> n \<Longrightarrow> n \<le> m \<Longrightarrow> json_value d m s = json_value d n s"
    "2 * length s + 1 \<le> n \<Longrightarrow> n \<le> m \<Longrightarrow> json_members d m s = json_members d n s"
    "2 * length s + 2 \<le> n \<Longrightarrow> n \<le> m \<Longrightarrow> json_elems d m s = json_elems d n s" for d s m by blast+
  have "json_value d (Suc m) s = json_value d (Suc n) s" if "2 * length s + 1 \<le> Suc n" "n \<le> m" for d s m
  proof -
    have "json_members d' m v = json_members d' n v" "json_elems d' m v = json_elems d' n v" if "length v < length s" for d' v
      using that \<open>2 * length s + 1 \<le> Suc n\<close> \<open>n \<le> m\<close> by (auto intro!: IH)
    then show ?thesis by (auto split: option.splits dest!: expect_shorter)
  qed
  moreover have "json_members d (Suc m) s = json_members d (Suc n) s" if "2 * length s + 1 \<le> Suc n" "n \<le> m" for d s m
  proof -
    have "json_value d m v = json_value d n v" "json_members d m v = json_members d n v" if "length v < length s" for v
      using that \<open>2 * length s + 1 \<le> Suc n\<close> \<open>n \<le> m\<close> by (auto intro!: IH)
    moreover have "length w < length v" if "json_value d n v = Some (j, w)" for v j w using json_shorter [of n] that by blast
    ultimately show ?thesis unfolding json_members.simps
      by (intro parser_congs refl) (fastforce dest: expect_shorter string_rest_shorter)+
  qed
  moreover have "json_elems d (Suc m) s = json_elems d (Suc n) s" if "2 * length s + 2 \<le> Suc n" "n \<le> m" for d s m
  proof -
    have value_eq: "json_value d m s = json_value d n s" using that by (auto intro!: IH)
    have "json_elems d m x = json_elems d n x" if "json_value d n s = Some (j, w)" and "expect c w = Some x" for j w c x
    proof -
      have "length x < length s" using json_shorter [of n] that expect_shorter by fastforce
      then show ?thesis using \<open>2 * length s + 2 \<le> Suc n\<close> \<open>n \<le> m\<close> by (intro IH) auto
    qed
    then show ?thesis unfolding json_elems.simps value_eq by (intro parser_congs refl) blast+
  qed
  ultimately have main: "\<And>d s m. 2 * length s + 1 \<le> Suc n \<Longrightarrow> n \<le> m \<Longrightarrow> json_value d (Suc m) s = json_value d (Suc n) s"
    "\<And>d s m. 2 * length s + 1 \<le> Suc n \<Longrightarrow> n \<le> m \<Longrightarrow> json_members d (Suc m) s = json_members d (Suc n) s"
    "\<And>d s m. 2 * length s + 2 \<le> Suc n \<Longrightarrow> n \<le> m \<Longrightarrow> json_elems d (Suc m) s = json_elems d (Suc n) s" by blast+
  have "Suc n \<le> m \<Longrightarrow> \<exists>k. m = Suc k \<and> n \<le> k" for m by (cases m) auto
  with main show ?case by (intro conjI allI impI; elim conjE) blast+
qed simp

lemma json_parse_bound:
  "2 * length s + 2 \<le> m \<Longrightarrow> json_value max_depth m s = json_value max_depth (2 * length s + 2) s"
  using json_bound [of "2 * length s + 2"] by simp

section \<open>Reading back what was printed\<close>

definition ascii :: "string \<Rightarrow> bool" where
  "ascii s \<longleftrightarrow> list_all (\<lambda>c. of_char c < (0x80 :: nat)) s"

lemma quote_then_escape: "map_of quote_table c = Some e \<Longrightarrow> map_of escape_table e = Some c"
  by (auto simp: quote_table_def escape_table_def split: if_splits)

lemma hex_values: "map hex_value hex_table = map Some [0..<16]"
  unfolding hex_table_def by code_simp

lemma hex_value_digit [simp]: "hex_value (hex_digit n) = Some (n mod 16)"
proof -
  have "hex_value (hex_table ! (n mod 16)) = map hex_value hex_table ! (n mod 16)" by (simp add: hex_table)
  also have "\<dots> = Some (n mod 16)" unfolding hex_values by simp
  finally show ?thesis by (simp add: hex_digit_def)
qed

lemma unescape_ascii: "n < 128 \<Longrightarrow> unescape_u (u_escape n @ t) = Some ([char_of n], t)"
proof -
  assume n: "n < 128"
  then have "n div 4096 = 0" "n div 256 = 0" "n div 16 < 16" "\<not> surrogate n"
    by (simp_all add: div_less_iff_less_mult surrogate_def in_range_def)
  moreover from this(3) have "n div 16 * 16 + n mod 16 = n" "n div 16 mod 16 = n div 16" by simp_all
  ultimately show ?thesis using n by (simp add: unescape_u_def u_escape_def EncodeRune_def)
qed

lemma string_item_quote:
  assumes "of_char c < (128 :: nat)"
  shows "string_item (quote_ascii c @ t) = Some ([c], t) \<and> take 1 (quote_ascii c @ t) \<noteq> [CHR 0x22]"
proof (cases "html_safe c")
  case True
  then show ?thesis using assms by (auto simp: quote_ascii_def string_item_def html_safe_def)
next
  case False
  show ?thesis
  proof (cases "map_of quote_table c")
    case None
    have "map_of escape_table CHR ''u'' = None" by (simp add: escape_table_def)
    moreover have "unescape_u (u_escape (of_char c) @ t) = Some ([c], t)" using unescape_ascii [OF assms, of t] by simp
    ultimately show ?thesis using False None by (simp add: quote_ascii_def string_item_def u_escape_def)
  next
    case (Some e)
    then show ?thesis using False quote_then_escape [OF Some] by (simp add: quote_ascii_def string_item_def)
  qed
qed

lemma string_rest_quote: "ascii s \<Longrightarrow> string_rest (quote_rest s @ CHR 0x22 # t) = Some (s, t)"
proof (induction s)
  case Nil
  then show ?case by (simp add: string_rest.simps)
next
  case (Cons c s)
  then have c: "of_char c < (128 :: nat)" and s: "string_rest (quote_rest s @ CHR 0x22 # t) = Some (s, t)"
    by (simp_all add: ascii_def)
  let ?rest = "quote_rest s @ CHR 0x22 # t"
  have "quote_rest (c # s) @ CHR 0x22 # t = quote_ascii c @ ?rest" using c by simp
  then show ?case using string_item_quote [OF c, of ?rest] s by (simp add: string_rest.simps [of "quote_ascii c @ ?rest"])
qed

text \<open>Decimal numbers.\<close>

lemma decimal_values: "map (\<lambda>c. of_char c - 48) decimal = [0..<10]" "list_all digit decimal" "decimal ! 0 = CHR ''0''" "length decimal = 10"
  unfolding decimal_def by code_simp+

lemma decimal_digit: "n < 10 \<Longrightarrow> of_char (decimal ! n) - (48 :: nat) = n"
proof -
  assume n: "n < 10"
  have "of_char (decimal ! n) - (48 :: nat) = map (\<lambda>c. of_char c - 48) decimal ! n" using n by (simp add: decimal_values(4))
  also have "\<dots> = n" using n unfolding decimal_values(1) by simp
  finally show ?thesis .
qed

lemma digits_value: "digits_value (digits n) = n"
proof (induction n rule: digits.induct)
  case (1 n)
  then show ?case
    by (cases "n < 10") (simp_all add: digits.simps [of n] digits_value_def decimal_digit)
qed

lemma digits_are_digits: "list_all digit (digits n)"
  using digits_range [of n] decimal_values(2) by (auto simp: list_all_iff)

lemma digits_lead: "digits n \<noteq> [] \<and> (n \<noteq> 0 \<longrightarrow> hd (digits n) \<noteq> CHR ''0'')"
proof (induction n rule: digits.induct)
  case (1 n)
  show ?case
  proof (cases "n < 10")
    case True
    have "decimal ! n = CHR ''0'' \<Longrightarrow> n = 0" using decimal_digit [OF True] by auto
    with True show ?thesis by (auto simp: digits.simps [of n])
  next
    case False
    then have "n div 10 \<noteq> 0" by simp
    with 1 False show ?thesis by (simp add: digits.simps [of n])
  qed
qed

text \<open>The values that the program prints: strings of ASCII characters, integers, and arrays and
  objects of them; how deep they are nested, and how far the parser recurses on them.\<close>

fun json_plain :: "json \<Rightarrow> bool" where
  "json_plain JNull = True"
| "json_plain (JBool b) = True"
| "json_plain (JNum l) = (\<exists>i. l = Itoa i)"
| "json_plain (JStr s) = ascii s"
| "json_plain (JArr js) = list_all json_plain js"
| "json_plain (JObj ms) = list_all (\<lambda>(k, j). ascii k \<and> json_plain j) ms"

fun json_depth :: "json \<Rightarrow> nat" where
  "json_depth (JArr js) = Suc (foldr (\<lambda>j. max (json_depth j)) js 0)"
| "json_depth (JObj ms) = Suc (foldr (\<lambda>(k, j). max (json_depth j)) ms 0)"
| "json_depth _ = 0"

fun json_weight :: "json \<Rightarrow> nat" where
  "json_weight (JArr js) = Suc (foldr (\<lambda>j n. Suc (json_weight j + n)) js 0)"
| "json_weight (JObj ms) = Suc (foldr (\<lambda>(k, j) n. Suc (json_weight j + n)) ms 0)"
| "json_weight _ = 1"

definition value_ends :: "string \<Rightarrow> bool" where
  "value_ends t \<longleftrightarrow> (\<forall>c u. t = c # u \<longrightarrow> c \<in> set [CHR '','', CHR ''}'', CHR '']'', CHR 0x0A])"

definition printed :: "json \<Rightarrow> bool" where
  "printed j \<longleftrightarrow> (\<forall>d k t. json_depth j \<le> d \<longrightarrow> value_ends t \<longrightarrow> json_value d (json_weight j + k) (json_print j @ t) = Some (j, t))"

lemma printedD: "printed j \<Longrightarrow> json_depth j \<le> d \<Longrightarrow> value_ends t \<Longrightarrow> json_value d (json_weight j + k) (json_print j @ t) = Some (j, t)"
  by (simp add: printed_def)

lemma ends_simps:
  assumes "value_ends t"
  shows "takeWhile digit t = []" "dropWhile digit t = t" "take 1 t \<noteq> ''.''" "take 1 t \<noteq> ''e''" "take 1 t \<noteq> ''E''"
  using assms by (cases t; auto simp: value_ends_def digit_def in_range_def)+

lemma some_digits_ends: "list_all digit ds \<Longrightarrow> ds \<noteq> [] \<Longrightarrow> value_ends t \<Longrightarrow> some_digits (ds @ t) = Some (ds, t)"
  using ends_simps [of t] by (simp add: some_digits_def list_all_iff takeWhile_append2 dropWhile_append2)

lemma number_int_ends: "value_ends t \<Longrightarrow> number_int (digits n @ t) = Some (digits n, t)"
proof (cases "n = 0")
  case True
  then show "value_ends t \<Longrightarrow> ?thesis" by (simp add: digits.simps [of 0] decimal_values(3) number_int_def)
next
  case False
  then have "take 1 (digits n @ t) \<noteq> ''0''" using digits_lead [of n] by (cases "digits n") auto
  then show "value_ends t \<Longrightarrow> ?thesis"
    using some_digits_ends [OF digits_are_digits, of n t] digits_lead [of n] by (simp add: number_int_def)
qed

lemma number_ends: "value_ends t \<Longrightarrow> number (Itoa i @ t) = Some (Itoa i, t)"
proof -
  assume t: "value_ends t"
  have "take 1 (digits n @ t) \<noteq> ''-''" for n
    using digits_lead [of n] digits_are_digits [of n] by (cases "digits n") (auto simp: digit_def in_range_def)
  moreover have "number_frac t = Some ([], t)" "number_exp t = Some ([], t)"
    using ends_simps [OF t] by (simp_all add: number_frac_def number_exp_def)
  ultimately show ?thesis using number_int_ends [OF t] by (simp add: number_def Itoa_def)
qed

lemma ParseInt_Itoa: "min_int64 \<le> i \<Longrightarrow> i \<le> max_int64 \<Longrightarrow> ParseInt (Itoa i) = Some i"
proof -
  assume i: "min_int64 \<le> i" "i \<le> max_int64"
  have "take 1 (digits n) \<noteq> ''-''" "take 1 (digits n) \<noteq> ''+''" for n
    using digits_lead [of n] digits_are_digits [of n] by (cases "digits n"; auto simp: digit_def in_range_def)+
  then show ?thesis using i digits_are_digits digits_lead
    by (cases "i < 0") (simp_all add: ParseInt_def Itoa_def digits_value Let_def)
qed

lemma expect_hit: "\<not> json_space c \<Longrightarrow> expect c (c # t) = Some t"
  by (simp add: expect_def skip_space_def)

lemma expect_miss: "s \<noteq> [] \<Longrightarrow> \<not> json_space (hd s) \<Longrightarrow> hd s \<noteq> c \<Longrightarrow> expect c s = None"
  by (cases s) (simp_all add: expect_def skip_space_def)

lemma Itoa_start: "Itoa i \<noteq> [] \<and> (hd (Itoa i) = CHR ''-'' \<or> digit (hd (Itoa i)))"
  using digits_lead [of "nat i"] digits_are_digits [of "nat i"]
  by (cases "digits (nat i)") (auto simp: Itoa_def)

text \<open>What a value is printed as never starts with white space or a closing bracket.\<close>

lemma print_start:
  assumes "json_plain j"
  shows "\<exists>c u. json_print j = c # u \<and> \<not> json_space c \<and> c \<noteq> CHR '']'' \<and> c \<noteq> CHR ''}''"
proof (cases j)
  case (JNum l)
  then obtain i where "l = Itoa i" using assms by auto
  then show ?thesis using JNum Itoa_start [of i] by (cases "Itoa i") (auto simp: json_space_def digit_def in_range_def)
qed (simp_all add: json_quote_def json_space_def)

lemma scalar_start:
  assumes "c \<notin> set [CHR 0x22, CHR ''{'', CHR ''['']" and "\<not> json_space c"
  shows "json_value d (Suc n) (c # u) = scalar (c # u)"
  using assms by (simp add: expect_miss skip_space_def)

lemma printed_scalars: "printed JNull" "printed (JBool b)" "printed (JNum (Itoa i))" "ascii s \<Longrightarrow> printed (JStr s)"
proof -
  show "printed JNull" "printed (JBool b)"
    by (auto simp: printed_def scalar_start json_space_def scalar_def literals_def simp del: json_value.simps)
  show "ascii s \<Longrightarrow> printed (JStr s)"
    using string_rest_quote by (simp add: printed_def json_quote_def expect_hit json_space_def)
  have "json_value d (Suc k) (Itoa i @ t) = Some (JNum (Itoa i), t)" if "value_ends t" for d k t
  proof -
    obtain c u where c: "Itoa i @ t = c # u" "c = CHR ''-'' \<or> digit c" using Itoa_start [of i] by (cases "Itoa i") auto
    then have "c \<notin> set [CHR 0x22, CHR ''{'', CHR ''['', CHR ''t'', CHR ''f'', CHR ''n'']" "\<not> json_space c"
      by (auto simp: digit_def in_range_def json_space_def)
    then have "json_value d (Suc k) (Itoa i @ t) = scalar (Itoa i @ t)" "find (\<lambda>(w, j). prefix w (Itoa i @ t)) literals = None"
      unfolding c(1) by (auto simp: scalar_start literals_def simp del: json_value.simps)
    then show ?thesis using number_ends [OF that] by (simp add: scalar_def del: json_value.simps)
  qed
  then show "printed (JNum (Itoa i))" by (simp add: printed_def del: json_value.simps)
qed

lemma ends_punct [simp]: "value_ends (CHR '','' # t)" "value_ends (CHR ''}'' # t)" "value_ends (CHR '']'' # t)"
  by (simp_all add: value_ends_def)

lemma expect_punct [simp]:
  "expect CHR '','' (CHR '','' # t) = Some t" "expect CHR ''}'' (CHR ''}'' # t) = Some t" "expect CHR '']'' (CHR '']'' # t) = Some t"
  "expect CHR ''}'' (CHR '','' # t) = None" "expect CHR '']'' (CHR '','' # t) = None"
  by (simp_all add: expect_hit expect_miss json_space_def)

lemma elems_printed:
  assumes "js \<noteq> []" and "list_all printed js" and "foldr (\<lambda>j. max (json_depth j)) js 0 \<le> d"
  shows "json_elems d (foldr (\<lambda>j n. Suc (json_weight j + n)) js 0 + k) (join '','' (map json_print js) @ CHR '']'' # t) = Some (js, t)"
  using assms
proof (induction js arbitrary: k rule: induct_list012)
  case (2 j)
  then have "json_value d (json_weight j + k) (json_print j @ CHR '']'' # t) = Some (j, CHR '']'' # t)" by (simp add: printed_def)
  then show ?case by simp
next
  case (3 j j' js)
  let ?n = "foldr (\<lambda>j n. Suc (json_weight j + n)) (j' # js) 0"
  let ?u = "join '','' (map json_print (j' # js)) @ CHR '']'' # t"
  have "json_value d (json_weight j + (?n + k)) (json_print j @ CHR '','' # ?u) = Some (j, CHR '','' # ?u)"
    by (rule printedD) (use 3(4,5) in simp_all)
  moreover have "json_elems d (?n + (json_weight j + k)) ?u = Some (j' # js, t)" using 3(2) 3(4,5) by simp
  moreover have "json_weight j + (?n + k) = ?n + (json_weight j + k)" by simp
  moreover have "foldr (\<lambda>j n. Suc (json_weight j + n)) (j # j' # js) 0 + k = Suc (json_weight j + (?n + k))" by simp
  moreover have "join '','' (map json_print (j # j' # js)) @ CHR '']'' # t = json_print j @ CHR '','' # ?u" by simp
  ultimately show ?case by (simp only: json_elems.simps option.case prod.case expect_punct option.map apfst_conv)
qed simp

abbreviation print_member :: "string \<times> json \<Rightarrow> string" where
  "print_member \<equiv> \<lambda>(k, j). json_quote k @ '':'' @ json_print j"

lemma member_printed:
  assumes "ascii key" and "printed j" and "json_depth j \<le> d" and "value_ends t"
  shows "json_members d (Suc (json_weight j + n)) (print_member (key, j) @ t) =
    (case expect CHR ''}'' t of
       Some x \<Rightarrow> Some ([(key, j)], x)
     | None \<Rightarrow> (case expect CHR '','' t of
                 None \<Rightarrow> None
               | Some x \<Rightarrow> map_option (apfst (\<lambda>ms. (key, j) # ms)) (json_members d (json_weight j + n) x)))"
proof -
  have "string_rest (quote_rest key @ CHR 0x22 # CHR '':'' # json_print j @ t) = Some (key, CHR '':'' # json_print j @ t)"
    using assms(1) by (rule string_rest_quote)
  moreover have "json_value d (json_weight j + n) (json_print j @ t) = Some (j, t)" using assms(2-4) by (simp add: printed_def)
  ultimately show ?thesis
    by (simp add: json_quote_def expect_hit json_space_def del: json_value.simps split: option.split)
qed

lemma members_printed:
  assumes "ms \<noteq> []" and "list_all (\<lambda>(k, j). ascii k \<and> printed j) ms" and "foldr (\<lambda>(k, j). max (json_depth j)) ms 0 \<le> d"
  shows "json_members d (foldr (\<lambda>(k, j) n. Suc (json_weight j + n)) ms 0 + n) (join '','' (map print_member ms) @ CHR ''}'' # t) = Some (ms, t)"
  using assms
proof (induction ms arbitrary: n rule: induct_list012)
  case (2 m)
  obtain k j where m: "m = (k, j)" by force
  have "json_members d (Suc (json_weight j + n)) (print_member (k, j) @ CHR ''}'' # t) = Some ([(k, j)], t)"
    using 2 by (subst member_printed) (simp_all add: m)
  then show ?case by (simp add: m del: json_members.simps)
next
  case (3 m m' ms)
  obtain k j where m: "m = (k, j)" by force
  let ?n = "foldr (\<lambda>(k, j) n. Suc (json_weight j + n)) (m' # ms) 0"
  let ?u = "join '','' (map print_member (m' # ms)) @ CHR ''}'' # t"
  have "json_members d (?n + (json_weight j + n)) ?u = Some (m' # ms, t)" using 3(2) 3(4,5) by (simp add: m)
  moreover have "json_members d (Suc (json_weight j + (?n + n))) (print_member (k, j) @ CHR '','' # ?u) =
      map_option (apfst (\<lambda>ms. (k, j) # ms)) (json_members d (json_weight j + (?n + n)) ?u)"
    using 3(4,5) by (subst member_printed) (simp_all add: m del: json_members.simps)
  moreover have "json_weight j + (?n + n) = ?n + (json_weight j + n)" by simp
  moreover have "foldr (\<lambda>(k, j) n. Suc (json_weight j + n)) (m # m' # ms) 0 + n = Suc (json_weight j + (?n + n))" by (simp add: m)
  moreover have "join '','' (map print_member (m # m' # ms)) @ CHR ''}'' # t = print_member (k, j) @ CHR '','' # ?u" by (simp add: m)
  ultimately show ?case by (simp only: option.map apfst_conv m)
qed simp

lemma bracket_start:
  "expect CHR 0x22 (CHR ''['' # s) = None" "expect CHR ''{'' (CHR ''['' # s) = None" "expect CHR ''['' (CHR ''['' # s) = Some s"
  "expect CHR 0x22 (CHR ''{'' # s) = None" "expect CHR ''{'' (CHR ''{'' # s) = Some s"
  by (simp_all add: expect_hit expect_miss json_space_def)

lemma printed_array:
  assumes "list_all printed js" and "list_all json_plain js"
  shows "printed (JArr js)"
proof (cases js)
  case (Cons j js')
  have "\<exists>c u. join '','' (map json_print js) = c # u \<and> \<not> json_space c \<and> c \<noteq> CHR '']''"
    using print_start [of j] assms(2) by (cases js') (auto simp: Cons)
  then have no: "expect CHR '']'' (join '','' (map json_print js) @ u) = None" for u by (auto intro: expect_miss)
  show ?thesis
    unfolding printed_def
  proof (intro allI impI)
    fix d k t
    assume d: "json_depth (JArr js) \<le> d"
    then have "json_elems (d - 1) (foldr (\<lambda>j n. Suc (json_weight j + n)) js 0 + k) (join '','' (map json_print js) @ CHR '']'' # t) = Some (js, t)"
      using assms(1) Cons by (intro elems_printed) auto
    then show "json_value d (json_weight (JArr js) + k) (json_print (JArr js) @ t) = Some (JArr js, t)"
      using d no [of "CHR '']'' # t"] by (simp add: bracket_start del: json_elems.simps)
  qed
qed (simp add: printed_def bracket_start)

lemma printed_object:
  assumes "list_all (\<lambda>(k, j). ascii k \<and> printed j) ms"
  shows "printed (JObj ms)"
proof (cases ms)
  case (Cons m ms')
  have "\<exists>c u. join '','' (map print_member ms) = CHR 0x22 # u"
    by (cases m; cases ms') (auto simp: Cons json_quote_def)
  then have no: "expect CHR ''}'' (join '','' (map print_member ms) @ u) = None" for u
    by (auto intro!: expect_miss simp: json_space_def)
  show ?thesis
    unfolding printed_def
  proof (intro allI impI)
    fix d k t
    assume d: "json_depth (JObj ms) \<le> d"
    then have "json_members (d - 1) (foldr (\<lambda>(k, j) n. Suc (json_weight j + n)) ms 0 + k) (join '','' (map print_member ms) @ CHR ''}'' # t) = Some (ms, t)"
      using assms(1) Cons by (intro members_printed) auto
    then show "json_value d (json_weight (JObj ms) + k) (json_print (JObj ms) @ t) = Some (JObj ms, t)"
      using d no [of "CHR ''}'' # t"] by (simp add: bracket_start del: json_members.simps)
  qed
qed (simp add: printed_def bracket_start)

lemma plain_printed: "json_plain j \<Longrightarrow> printed j"
proof (induction j)
  case (JArr js)
  then show ?case by (intro printed_array) (auto simp: list_all_iff)
next
  case (JObj ms)
  then show ?case by (intro printed_object) (fastforce simp: list_all_iff)
qed (auto simp: printed_scalars)

lemma json_value_print:
  assumes "json_plain j" and "json_depth j \<le> max_depth" and "value_ends t" and "s = json_print j @ t"
  shows "json_value max_depth (2 * length s + 2) s = Some (j, t)"
proof -
  have "json_value max_depth (json_weight j + (2 * length s + 2)) s = Some (j, t)"
    using printedD [OF plain_printed [OF assms(1)] assms(2,3)] by (simp only: assms(4))
  then show ?thesis using json_parse_bound [of s "json_weight j + (2 * length s + 2)"] by simp
qed

theorem json_parse_print:
  assumes "json_plain j" and "json_depth j \<le> max_depth" and "t = [] \<or> t = newline"
  shows "json_parse (json_print j @ t) = Some j"
proof -
  have "value_ends t" "skip_space t = []" using assms(3) by (auto simp: value_ends_def newline_def skip_space_def json_space_def)
  then show ?thesis using json_value_print [OF assms(1,2) _ refl] by (simp add: json_parse_def del: json_value.simps)
qed

text \<open>Objects of strings and integers.\<close>

fun flat_value :: "json \<Rightarrow> bool" where
  "flat_value (JStr s) = ascii s"
| "flat_value (JNum l) = (\<exists>i. l = Itoa i)"
| "flat_value _ = False"

lemma flat_plain: "flat_value j \<Longrightarrow> json_plain j \<and> json_depth j = 0"
  by (cases j) simp_all

lemma flat_object:
  assumes "list_all (\<lambda>(k, j). ascii k \<and> flat_value j) ms"
  shows "json_plain (JObj ms)" "json_depth (JObj ms) \<le> max_depth"
proof -
  show "json_plain (JObj ms)" using assms flat_plain by (fastforce simp: list_all_iff)
  have "foldr (\<lambda>(k, j). max (json_depth j)) ms 0 = 0" using assms flat_plain by (induction ms) fastforce+
  then show "json_depth (JObj ms) \<le> max_depth" by (simp add: max_depth_def)
qed

lemma json_parse_flat: "list_all (\<lambda>(k, j). ascii k \<and> flat_value j) ms \<Longrightarrow> json_parse (json_print (JObj ms)) = Some (JObj ms)"
  using json_parse_print [OF flat_object, of ms "[]"] by simp

lemma number_value_plain:
  assumes "list_all digit ds" and "take 1 ds \<noteq> ''-''"
  shows "number_value ds = of_nat (digits_value ds)" and "number_value (CHR ''-'' # ds) = - of_nat (digits_value ds)"
proof -
  have td: "takeWhile digit ds = ds" "dropWhile digit ds = []" using assms(1) by (simp_all add: list_all_iff)
  show "number_value ds = of_nat (digits_value ds)" and "number_value (CHR ''-'' # ds) = - of_nat (digits_value ds)"
    unfolding number_value_def Let_def using assms(2) by (simp_all add: td scale10_def)
qed

lemma number_value_Itoa: "number_value (Itoa i) = of_int i"
proof -
  have "take 1 (digits n) \<noteq> ''-''" for n
    using digits_lead [of n] digits_are_digits [of n] by (cases "digits n") (auto simp: digit_def in_range_def)
  from number_value_plain [OF digits_are_digits this]
  have "number_value (digits n) = of_nat n" and "number_value (CHR ''-'' # digits n) = - of_nat n" for n
    by (simp_all add: digits_value)
  then show ?thesis by (simp add: Itoa_def)
qed

lemma float_limit_large: "2 ^ 970 \<le> float_limit"
proof -
  have double: "(2 :: rat) ^ Suc n = 2 ^ n + 2 ^ n" for n by simp
  have "(2 :: rat) ^ Suc 970 \<le> 2 ^ 1024" by (rule power_increasing) simp_all
  then have "(2 :: rat) ^ 970 + 2 ^ 970 \<le> 2 ^ 1024" unfolding double .
  moreover have "x + x \<le> y \<Longrightarrow> x \<le> y - x" for x y :: rat by simp
  ultimately show ?thesis unfolding float_limit_def by blast
qed

lemma ParseFloat_int64: "min_int64 \<le> i \<Longrightarrow> i \<le> max_int64 \<Longrightarrow> ParseFloat rnd (Itoa i) = Some (rnd (of_int i))"
proof -
  assume "min_int64 \<le> i" "i \<le> max_int64"
  then have "\<bar>i\<bar> < 2 ^ 64" by (simp add: min_int64_def max_int64_def abs_less_iff)
  then have "of_int \<bar>i\<bar> < (of_int (2 ^ 64) :: rat)" by (simp only: of_int_less_iff)
  also have "\<dots> \<le> 2 ^ 970" unfolding of_int_power of_int_numeral by (rule power_increasing) simp_all
  finally show ?thesis using float_limit_large by (simp add: ParseFloat_def number_value_Itoa)
qed

end
