(* ===== verification/Jwt.thy ===== *)
theory Jwt
  imports Base64 Json
begin

text \<open>
  \<^verbatim>\<open>internal/auth/jwt.go\<close>: tokens are parsed, their signature is verified, and their claims are
  checked. HMAC-SHA256, SHA-256 and the RSA verification of Go's \<^verbatim>\<open>crypto\<close> packages are functions
  in a record, about which nothing is assumed. An error is the sentinel it wraps; the text around
  it is left out.
\<close>

section \<open>Data\<close>

datatype jwt_error =
    ErrInvalidToken
  | ErrInvalidHeader
  | ErrInvalidPayload
  | ErrInvalidSignature
  | ErrTokenExpired
  | ErrNotValidBefore
  | ErrInvalidIssuer
  | ErrInvalidAudience
  | ErrUnsupportedAlg
  | ErrMissingKey

definition AlgHS256 :: string where
  "AlgHS256 = ''HS256''"

definition AlgRS256 :: string where
  "AlgRS256 = ''RS256''"

record Header =
  h_Algorithm :: string
  h_Type :: string
  h_KeyID :: string

record Claims =
  Subject :: string
  ExpiresAt :: int
  IssuedAt :: int
  Issuer :: string
  Audience :: string
  NotBefore :: int
  JWTID :: string
  Custom :: "(string \<times> iface) list option"

record Token =
  tk_Header :: Header
  tk_Claims :: Claims
  tk_Raw :: string
  tk_Signature :: string

record 'k ValidatorConfig =
  v_Issuer :: string
  v_Audience :: string
  v_ClockSkew :: duration
  v_SecretKey :: string
  v_PublicKey :: "'k option"

record 'k crypto =
  cy_hmac :: "string \<Rightarrow> string \<Rightarrow> string"
  cy_sha256 :: "string \<Rightarrow> string"
  cy_rsa :: "'k \<Rightarrow> string \<Rightarrow> string \<Rightarrow> bool"

section \<open>JSON forms\<close>

text \<open>The struct tags of \<^verbatim>\<open>Header\<close> and \<^verbatim>\<open>Claims\<close>, for both directions.\<close>

definition zero_header :: Header where
  "zero_header = \<lparr>h_Algorithm = [], h_Type = [], h_KeyID = []\<rparr>"

definition zero_claims :: Claims where
  "zero_claims = \<lparr>Subject = [], ExpiresAt = 0, IssuedAt = 0, Issuer = [], Audience = [], NotBefore = 0, JWTID = [], Custom = None\<rparr>"

definition header_field :: "string \<Rightarrow> json \<Rightarrow> Header \<Rightarrow> Header option" where
  "header_field k j h =
    (case field_of [''alg'', ''typ'', ''kid''] k of
       None \<Rightarrow> Some h
     | Some f \<Rightarrow>
         if f = ''alg'' then map_option (\<lambda>v. h\<lparr>h_Algorithm := v\<rparr>) (store_string j (h_Algorithm h))
         else if f = ''typ'' then map_option (\<lambda>v. h\<lparr>h_Type := v\<rparr>) (store_string j (h_Type h))
         else map_option (\<lambda>v. h\<lparr>h_KeyID := v\<rparr>) (store_string j (h_KeyID h)))"

definition claim_names :: "string list" where
  "claim_names = [''sub'', ''exp'', ''iat'', ''iss'', ''aud'', ''nbf'', ''jti'']"

definition claims_field :: "string \<Rightarrow> json \<Rightarrow> Claims \<Rightarrow> Claims option" where
  "claims_field k j c =
    (case field_of claim_names k of
       None \<Rightarrow> Some c
     | Some f \<Rightarrow>
         if f = ''sub'' then map_option (\<lambda>v. c\<lparr>Subject := v\<rparr>) (store_string j (Subject c))
         else if f = ''exp'' then map_option (\<lambda>v. c\<lparr>ExpiresAt := v\<rparr>) (store_int j (ExpiresAt c))
         else if f = ''iat'' then map_option (\<lambda>v. c\<lparr>IssuedAt := v\<rparr>) (store_int j (IssuedAt c))
         else if f = ''iss'' then map_option (\<lambda>v. c\<lparr>Issuer := v\<rparr>) (store_string j (Issuer c))
         else if f = ''aud'' then map_option (\<lambda>v. c\<lparr>Audience := v\<rparr>) (store_string j (Audience c))
         else if f = ''nbf'' then map_option (\<lambda>v. c\<lparr>NotBefore := v\<rparr>) (store_int j (NotBefore c))
         else map_option (\<lambda>v. c\<lparr>JWTID := v\<rparr>) (store_string j (JWTID c)))"

definition string_member :: "string \<Rightarrow> string \<Rightarrow> (string \<times> json) list" where
  "string_member k v = (if v = [] then [] else [(k, JStr v)])"

definition int_member :: "string \<Rightarrow> int \<Rightarrow> (string \<times> json) list" where
  "int_member k v = (if v = 0 then [] else [(k, JNum (Itoa v))])"

definition header_members :: "Header \<Rightarrow> (string \<times> json) list" where
  "header_members h = [(''alg'', JStr (h_Algorithm h)), (''typ'', JStr (h_Type h))] @ string_member ''kid'' (h_KeyID h)"

definition claims_members :: "Claims \<Rightarrow> (string \<times> json) list" where
  "claims_members c =
    string_member ''sub'' (Subject c) @ int_member ''exp'' (ExpiresAt c) @ int_member ''iat'' (IssuedAt c) @
    string_member ''iss'' (Issuer c) @ string_member ''aud'' (Audience c) @ int_member ''nbf'' (NotBefore c) @
    string_member ''jti'' (JWTID c)"

section \<open>Parsing\<close>

text \<open>\<^verbatim>\<open>strings.Split\<close> at a one-byte separator.\<close>

fun Split :: "string \<Rightarrow> char \<Rightarrow> string list" where
  "Split [] c = [[]]"
| "Split (x # s) c = (if x = c then [] # Split s c else (case Split s c of p # ps \<Rightarrow> (x # p) # ps | [] \<Rightarrow> [[x]]))"

definition extractCustomClaims :: "(string \<times> iface) list \<Rightarrow> (string \<times> iface) list option" where
  "extractCustomClaims raw =
    (let custom = filter (\<lambda>(k, v). k \<notin> set claim_names) raw in if custom = [] then None else Some custom)"

definition raw_claims :: "(rat \<Rightarrow> rat) \<Rightarrow> json \<Rightarrow> (string \<times> iface) list option" where
  "raw_claims rnd j = (case j of JObj ms \<Rightarrow> to_map rnd ms [] | JNull \<Rightarrow> Some [] | _ \<Rightarrow> None)"

definition parse_header :: "string \<Rightarrow> Header option" where
  "parse_header part =
    (case base64URLDecode part of
       None \<Rightarrow> None
     | Some b \<Rightarrow> (case json_parse b of None \<Rightarrow> None | Some j \<Rightarrow> unmarshal_struct header_field zero_header j))"

definition parse_payload :: "(rat \<Rightarrow> rat) \<Rightarrow> string \<Rightarrow> Claims option" where
  "parse_payload rnd part =
    (case base64URLDecode part of
       None \<Rightarrow> None
     | Some b \<Rightarrow>
    (case json_parse b of
       None \<Rightarrow> None
     | Some j \<Rightarrow>
    (case raw_claims rnd j of
       None \<Rightarrow> None
     | Some raw \<Rightarrow>
    (case unmarshal_struct claims_field zero_claims j of
       None \<Rightarrow> None
     | Some claims \<Rightarrow> Some (claims\<lparr>Custom := extractCustomClaims raw\<rparr>)))))"

definition Parse :: "(rat \<Rightarrow> rat) \<Rightarrow> string \<Rightarrow> jwt_error + Token" where
  "Parse rnd tokenString =
    (let parts = Split tokenString CHR ''.''
     in if length parts \<noteq> 3 then Inl ErrInvalidToken
        else
          (case parse_header (parts ! 0) of
             None \<Rightarrow> Inl ErrInvalidHeader
           | Some header \<Rightarrow>
          (case parse_payload rnd (parts ! 1) of
             None \<Rightarrow> Inl ErrInvalidPayload
           | Some claims \<Rightarrow>
          (case base64URLDecode (parts ! 2) of
             None \<Rightarrow> Inl ErrInvalidSignature
           | Some signature \<Rightarrow>
               Inr \<lparr>tk_Header = header, tk_Claims = claims, tk_Raw = tokenString, tk_Signature = signature\<rparr>))))"

section \<open>Validation\<close>

definition verifyHS256 :: "'k crypto \<Rightarrow> 'k ValidatorConfig \<Rightarrow> string \<Rightarrow> string \<Rightarrow> jwt_error option" where
  "verifyHS256 cy v signedPortion signature =
    (if length (v_SecretKey v) = 0 then Some ErrMissingKey
     else (let expected = cy_hmac cy (v_SecretKey v) signedPortion
           in if signature \<noteq> expected then Some ErrInvalidSignature else None))"

definition verifyRS256 :: "'k crypto \<Rightarrow> 'k ValidatorConfig \<Rightarrow> string \<Rightarrow> string \<Rightarrow> jwt_error option" where
  "verifyRS256 cy v signedPortion signature =
    (case v_PublicKey v of
       None \<Rightarrow> Some ErrMissingKey
     | Some pk \<Rightarrow>
         (let hash = cy_sha256 cy signedPortion
          in if \<not> cy_rsa cy pk hash signature then Some ErrInvalidSignature else None))"

definition verifySignature :: "'k crypto \<Rightarrow> 'k ValidatorConfig \<Rightarrow> Token \<Rightarrow> jwt_error option" where
  "verifySignature cy v token =
    (let parts = Split (tk_Raw token) CHR ''.'';
         signedPortion = parts ! 0 @ ''.'' @ parts ! 1
     in if h_Algorithm (tk_Header token) = AlgHS256 then verifyHS256 cy v signedPortion (tk_Signature token)
        else if h_Algorithm (tk_Header token) = AlgRS256 then verifyRS256 cy v signedPortion (tk_Signature token)
        else Some ErrUnsupportedAlg)"

text \<open>\<^verbatim>\<open>time.Unix(sec, 0)\<close> counts from year 1 in 64 bits and wraps; \<^verbatim>\<open>Time.Add\<close> saturates.\<close>

definition wrap64 :: "int \<Rightarrow> int" where
  "wrap64 x = (x + 2 ^ 63) mod 2 ^ 64 - 2 ^ 63"

definition unixToInternal :: int where
  "unixToInternal = 62135596800"

definition time_Unix :: "int \<Rightarrow> go_time" where
  "time_Unix sec = wrap64 (sec + unixToInternal) * Second"

definition time_Add :: "go_time \<Rightarrow> duration \<Rightarrow> go_time" where
  "time_Add t d =
    (let s = (t + d) div Second
     in (if s > max_int64 then max_int64 else if s < min_int64 then min_int64 + 1 else s) * Second + (t + d) mod Second)"

definition checkExpiration :: "go_time \<Rightarrow> 'k ValidatorConfig \<Rightarrow> Token \<Rightarrow> jwt_error option" where
  "checkExpiration now v token =
    (if ExpiresAt (tk_Claims token) = 0 then None
     else (let expTime = time_Unix (ExpiresAt (tk_Claims token))
           in if now > time_Add expTime (v_ClockSkew v) then Some ErrTokenExpired else None))"

definition checkNotBefore :: "go_time \<Rightarrow> 'k ValidatorConfig \<Rightarrow> Token \<Rightarrow> jwt_error option" where
  "checkNotBefore now v token =
    (if NotBefore (tk_Claims token) = 0 then None
     else (let nbfTime = time_Unix (NotBefore (tk_Claims token))
           in if now < time_Add nbfTime (wrap64 (- v_ClockSkew v)) then Some ErrNotValidBefore else None))"

definition checkIssuer :: "'k ValidatorConfig \<Rightarrow> Token \<Rightarrow> jwt_error option" where
  "checkIssuer v token =
    (if v_Issuer v = [] then None
     else if Issuer (tk_Claims token) \<noteq> v_Issuer v then Some ErrInvalidIssuer else None)"

definition checkAudience :: "'k ValidatorConfig \<Rightarrow> Token \<Rightarrow> jwt_error option" where
  "checkAudience v token =
    (if v_Audience v = [] then None
     else if Audience (tk_Claims token) \<noteq> v_Audience v then Some ErrInvalidAudience else None)"

text \<open>What a call reads from outside: the rounding of floats and the clock, once for each check.\<close>

record validate_env =
  ve_round :: "rat \<Rightarrow> rat"
  ve_exp_now :: go_time
  ve_nbf_now :: go_time

definition jwt_Validate :: "'k crypto \<Rightarrow> validate_env \<Rightarrow> 'k ValidatorConfig \<Rightarrow> string \<Rightarrow> jwt_error + Token" where
  "jwt_Validate cy env v tokenString =
    (case Parse (ve_round env) tokenString of
       Inl err \<Rightarrow> Inl err
     | Inr token \<Rightarrow>
    (case verifySignature cy v token of
       Some err \<Rightarrow> Inl err
     | None \<Rightarrow>
    (case checkExpiration (ve_exp_now env) v token of
       Some err \<Rightarrow> Inl err
     | None \<Rightarrow>
    (case checkNotBefore (ve_nbf_now env) v token of
       Some err \<Rightarrow> Inl err
     | None \<Rightarrow>
    (case checkIssuer v token of
       Some err \<Rightarrow> Inl err
     | None \<Rightarrow>
    (case checkAudience v token of
       Some err \<Rightarrow> Inl err
     | None \<Rightarrow> Inr token))))))"

section \<open>Signing\<close>

definition SignHS256 :: "'k crypto \<Rightarrow> Claims \<Rightarrow> string \<Rightarrow> string" where
  "SignHS256 cy claims secretKey =
    (let header = \<lparr>h_Algorithm = AlgHS256, h_Type = ''JWT'', h_KeyID = []\<rparr>;
         headerJSON = json_print (JObj (header_members header));
         claimsJSON = json_print (JObj (claims_members claims));
         signedPortion = base64URLEncode headerJSON @ ''.'' @ base64URLEncode claimsJSON;
         signature = cy_hmac cy secretKey signedPortion
     in signedPortion @ ''.'' @ base64URLEncode signature)"

section \<open>What a valid token is\<close>

lemma Split_append: "c \<notin> set a \<Longrightarrow> Split (a @ c # s) c = a # Split s c"
  by (induction a) auto

lemma Split_plain: "c \<notin> set a \<Longrightarrow> Split a c = [a]"
  by (induction a) auto

lemma Split_parts: "Split s c \<noteq> [] \<and> (\<forall>p \<in> set (Split s c). c \<notin> set p) \<and> join [c] (Split s c) = s"
proof (induction s)
  case (Cons x s)
  then show ?case by (cases "Split s c"; cases "tl (Split s c)") auto
qed simp

lemma Split_three: "length (Split s CHR ''.'') = 3 \<longleftrightarrow>
    (\<exists>a b c. s = a @ ''.'' @ b @ ''.'' @ c \<and> CHR ''.'' \<notin> set (a @ b @ c) \<and> Split s CHR ''.'' = [a, b, c])"
proof
  assume "length (Split s CHR ''.'') = 3"
  then obtain a b c where abc: "Split s CHR ''.'' = [a, b, c]"
    by (auto simp: numeral_3_eq_3 length_Suc_conv)
  with Split_parts [of s "CHR ''.''"] show "\<exists>a b c. s = a @ ''.'' @ b @ ''.'' @ c \<and> CHR ''.'' \<notin> set (a @ b @ c) \<and> Split s CHR ''.'' = [a, b, c]"
    by auto
qed auto

definition authentic :: "'k crypto \<Rightarrow> 'k ValidatorConfig \<Rightarrow> string \<Rightarrow> string \<Rightarrow> string \<Rightarrow> bool" where
  "authentic cy v alg msg signature \<longleftrightarrow>
    alg = AlgHS256 \<and> v_SecretKey v \<noteq> [] \<and> signature = cy_hmac cy (v_SecretKey v) msg \<or>
    alg = AlgRS256 \<and> (\<exists>pk. v_PublicKey v = Some pk \<and> cy_rsa cy pk (cy_sha256 cy msg) signature)"

definition in_force :: "validate_env \<Rightarrow> 'k ValidatorConfig \<Rightarrow> Claims \<Rightarrow> bool" where
  "in_force env v c \<longleftrightarrow>
    (ExpiresAt c = 0 \<or> ve_exp_now env \<le> time_Add (time_Unix (ExpiresAt c)) (v_ClockSkew v)) \<and>
    (NotBefore c = 0 \<or> time_Add (time_Unix (NotBefore c)) (wrap64 (- v_ClockSkew v)) \<le> ve_nbf_now env) \<and>
    (v_Issuer v = [] \<or> Issuer c = v_Issuer v) \<and> (v_Audience v = [] \<or> Audience c = v_Audience v)"

lemma algorithms_differ: "AlgHS256 \<noteq> AlgRS256"
  by (simp add: AlgHS256_def AlgRS256_def)

lemma Parse_Inr: "Parse rnd s = Inr t \<longleftrightarrow>
    (\<exists>h p g. s = h @ ''.'' @ p @ ''.'' @ g \<and> CHR ''.'' \<notin> set (h @ p @ g) \<and> Split s CHR ''.'' = [h, p, g] \<and>
      parse_header h = Some (tk_Header t) \<and> parse_payload rnd p = Some (tk_Claims t) \<and>
      base64URLDecode g = Some (tk_Signature t) \<and> tk_Raw t = s)"
proof (cases "length (Split s CHR ''.'') = 3")
  case True
  then obtain h p g where s: "s = h @ ''.'' @ p @ ''.'' @ g" "CHR ''.'' \<notin> set (h @ p @ g)" "Split s CHR ''.'' = [h, p, g]"
    using Split_three [of s] by blast
  have "Parse rnd s = Inr t \<longleftrightarrow> parse_header h = Some (tk_Header t) \<and> parse_payload rnd p = Some (tk_Claims t) \<and>
      base64URLDecode g = Some (tk_Signature t) \<and> tk_Raw t = s"
    using s(3) by (cases t) (auto simp: Parse_def Let_def numeral_2_eq_2 split: option.splits)
  with s show ?thesis by auto
next
  case False
  then have "\<nexists>h p g. Split s CHR ''.'' = [h, p, g]" by auto
  with False show ?thesis by (auto simp: Parse_def)
qed

lemma verify_authentic:
  assumes "Split (tk_Raw t) CHR ''.'' = [h, p, g]"
  shows "verifySignature cy v t = None \<longleftrightarrow> authentic cy v (h_Algorithm (tk_Header t)) (h @ ''.'' @ p) (tk_Signature t)"
  using assms algorithms_differ
  by (auto simp: verifySignature_def verifyHS256_def verifyRS256_def authentic_def Let_def split: option.splits)

lemma checks_in_force:
  "in_force env v (tk_Claims t) \<longleftrightarrow>
    checkExpiration (ve_exp_now env) v t = None \<and> checkNotBefore (ve_nbf_now env) v t = None \<and>
    checkIssuer v t = None \<and> checkAudience v t = None"
  by (auto simp: in_force_def checkExpiration_def checkNotBefore_def checkIssuer_def checkAudience_def Let_def)

lemma jwt_Validate_Inr: "jwt_Validate cy env v s = Inr t \<longleftrightarrow>
    Parse (ve_round env) s = Inr t \<and> verifySignature cy v t = None \<and> in_force env v (tk_Claims t)"
  by (auto simp: jwt_Validate_def checks_in_force split: sum.splits option.splits)

text \<open>C4: exactly which tokens are accepted: three parts without dots in them, a header and a payload
  that decode to what is returned, and a signature that verifies over the first two parts, with the
  secret key when the header says HS256, with the public key when it says RS256, and never
  otherwise; in particular no key that was not configured is ever used. The token is in force:
  not past its expiry and not before its start, up to the tolerated skew, and issued by and for the
  configured parties.\<close>

theorem Validate_exact:
  "jwt_Validate cy env v s = Inr t \<longleftrightarrow>
    (\<exists>h p g. s = h @ ''.'' @ p @ ''.'' @ g \<and> CHR ''.'' \<notin> set (h @ p @ g) \<and> tk_Raw t = s \<and>
      parse_header h = Some (tk_Header t) \<and> parse_payload (ve_round env) p = Some (tk_Claims t) \<and>
      base64URLDecode g = Some (tk_Signature t) \<and>
      authentic cy v (h_Algorithm (tk_Header t)) (h @ ''.'' @ p) (tk_Signature t) \<and> in_force env v (tk_Claims t))"
proof -
  have "Split (h @ ''.'' @ p @ ''.'' @ g) CHR ''.'' = [h, p, g]" if "CHR ''.'' \<notin> set (h @ p @ g)" for h p g
    using that by (simp add: Split_append Split_plain)
  then have "Parse (ve_round env) s = Inr t \<longleftrightarrow>
      (\<exists>h p g. s = h @ ''.'' @ p @ ''.'' @ g \<and> CHR ''.'' \<notin> set (h @ p @ g) \<and> Split (tk_Raw t) CHR ''.'' = [h, p, g] \<and> tk_Raw t = s \<and>
        parse_header h = Some (tk_Header t) \<and> parse_payload (ve_round env) p = Some (tk_Claims t) \<and>
        base64URLDecode g = Some (tk_Signature t))"
    unfolding Parse_Inr by metis
  moreover have "Split (tk_Raw t) CHR ''.'' = [h, p, g]" if "CHR ''.'' \<notin> set (h @ p @ g)" "tk_Raw t = h @ ''.'' @ p @ ''.'' @ g" for h p g
    using that by (simp add: Split_append Split_plain)
  ultimately show ?thesis unfolding jwt_Validate_Inr using verify_authentic [of t _ _ _ cy v] by metis
qed

section \<open>Signing and validating\<close>

definition fits_int64 :: "int \<Rightarrow> bool" where
  "fits_int64 i \<longleftrightarrow> min_int64 \<le> i \<and> i \<le> max_int64"

definition plain_claims :: "Claims \<Rightarrow> bool" where
  "plain_claims c \<longleftrightarrow> list_all ascii [Subject c, Issuer c, Audience c, JWTID c] \<and>
    list_all fits_int64 [ExpiresAt c, IssuedAt c, NotBefore c]"

lemma store_members_append:
  "store_members f (xs @ ys) x = (case store_members f xs x of None \<Rightarrow> None | Some y \<Rightarrow> store_members f ys y)"
  by (induction xs arbitrary: x) (auto split: option.splits)

lemma field_of_exact: "k \<in> set names \<Longrightarrow> field_of names k = Some k"
  by (simp add: field_of_def)

lemma store_header: "unmarshal_struct header_field zero_header (JObj (header_members h)) = Some h"
  by (cases h) (simp add: unmarshal_struct_def header_members_def string_member_def header_field_def field_of_exact
      store_string_def zero_header_def)

lemma store_claims:
  assumes "plain_claims c"
  shows "unmarshal_struct claims_field zero_claims (JObj (claims_members c)) = Some (c\<lparr>Custom := None\<rparr>)"
proof -
  have str: "store_members claims_field (string_member k v) x = Some (if v = [] then x else the (claims_field k (JStr v) x))"
    if "k \<in> {''sub'', ''iss'', ''aud'', ''jti''}" for k v x
    using that by (auto simp: string_member_def claims_field_def field_of_exact claim_names_def store_string_def)
  have int: "store_members claims_field (int_member k v) x = Some (if v = 0 then x else the (claims_field k (JNum (Itoa v)) x))"
    if "k \<in> {''exp'', ''iat'', ''nbf''}" and "fits_int64 v" for k v x
    using that ParseInt_Itoa [of v]
    by (auto simp: int_member_def claims_field_def field_of_exact claim_names_def store_int_def fits_int64_def)
  have parse: "ParseInt (Itoa (ExpiresAt c)) = Some (ExpiresAt c)" "ParseInt (Itoa (IssuedAt c)) = Some (IssuedAt c)"
    "ParseInt (Itoa (NotBefore c)) = Some (NotBefore c)"
    using assms by (simp_all add: plain_claims_def fits_int64_def ParseInt_Itoa)
  show ?thesis using assms parse
    by (cases c) (simp add: unmarshal_struct_def claims_members_def store_members_append str int plain_claims_def
        claims_field_def field_of_exact claim_names_def store_string_def store_int_def zero_claims_def)
qed

lemma to_map_claims:
  assumes "list_all (\<lambda>(k, j). k \<in> set claim_names \<and> to_iface rnd j \<noteq> None) ms" and "fst ` set acc \<subseteq> set claim_names"
  shows "\<exists>raw. to_map rnd ms acc = Some raw \<and> fst ` set raw \<subseteq> set claim_names"
  using assms
proof (induction ms arbitrary: acc)
  case (Cons m ms)
  obtain k j where m: "m = (k, j)" by force
  with Cons.prems(1) obtain v where v: "to_iface rnd j = Some v" "k \<in> set claim_names" by auto
  have "fst ` set (AList.update k v acc) \<subseteq> set claim_names"
    using v(2) Cons.prems(2) update_keys [of k v acc] by (metis (no_types) image_set set_append Un_subset_iff set_simps empty_subsetI insert_subset)
  from Cons.IH [OF _ this] Cons.prems(1) show ?case by (simp add: m v(1))
qed simp

lemma claims_members_ok:
  assumes "plain_claims c"
  shows "list_all (\<lambda>(k, j). ascii k \<and> flat_value j) (claims_members c)"
    and "list_all (\<lambda>(k, j). k \<in> set claim_names \<and> to_iface rnd j \<noteq> None) (claims_members c)"
  using assms ParseFloat_int64
  by (auto simp: claims_members_def string_member_def int_member_def plain_claims_def fits_int64_def claim_names_def ascii_def)

lemma payload_round_trip:
  assumes "plain_claims c"
  shows "parse_payload rnd (base64URLEncode (json_print (JObj (claims_members c)))) = Some (c\<lparr>Custom := None\<rparr>)"
proof -
  obtain raw where raw: "to_map rnd (claims_members c) [] = Some raw" "fst ` set raw \<subseteq> set claim_names"
    using to_map_claims [OF claims_members_ok(2) [OF assms], of "[]" rnd] by auto
  then have "extractCustomClaims raw = None"
    by (auto simp: extractCustomClaims_def filter_empty_conv)
  then show ?thesis using raw(1) store_claims [OF assms] json_parse_flat [OF claims_members_ok(1) [OF assms]]
    by (simp add: parse_payload_def base64URL_inverse raw_claims_def del: json_print.simps)
qed

definition signed_header :: Header where
  "signed_header = \<lparr>h_Algorithm = AlgHS256, h_Type = ''JWT'', h_KeyID = []\<rparr>"

lemma header_round_trip:
  "parse_header (base64URLEncode (json_print (JObj (header_members signed_header)))) = Some signed_header"
proof -
  have "list_all (\<lambda>(k, j). ascii k \<and> flat_value j) (header_members signed_header)"
    by (simp add: header_members_def signed_header_def string_member_def AlgHS256_def ascii_def)
  then show ?thesis by (simp add: parse_header_def base64URL_inverse json_parse_flat store_header del: json_print.simps)
qed

lemma Parse_signed:
  assumes "plain_claims c"
  shows "\<exists>h p. CHR ''.'' \<notin> set (h @ p) \<and>
    Split (SignHS256 cy c key) CHR ''.'' = [h, p, base64URLEncode (cy_hmac cy key (h @ ''.'' @ p))] \<and>
    Parse rnd (SignHS256 cy c key) = Inr \<lparr>tk_Header = signed_header, tk_Claims = c\<lparr>Custom := None\<rparr>,
      tk_Raw = SignHS256 cy c key, tk_Signature = cy_hmac cy key (h @ ''.'' @ p)\<rparr>"
proof -
  define h where "h = base64URLEncode (json_print (JObj (header_members signed_header)))"
  define p where "p = base64URLEncode (json_print (JObj (claims_members c)))"
  let ?g = "base64URLEncode (cy_hmac cy key (h @ ''.'' @ p))"
  have s: "SignHS256 cy c key = h @ ''.'' @ p @ ''.'' @ ?g"
    by (simp add: SignHS256_def h_def p_def signed_header_def Let_def)
  have dots: "CHR ''.'' \<notin> set h" "CHR ''.'' \<notin> set p" "CHR ''.'' \<notin> set ?g"
    by (simp_all add: h_def p_def base64URLEncode_no_dot)
  then have split: "Split (SignHS256 cy c key) CHR ''.'' = [h, p, ?g]" unfolding s by (simp add: Split_append Split_plain)
  have "parse_header h = Some signed_header" "parse_payload rnd p = Some (c\<lparr>Custom := None\<rparr>)"
    unfolding h_def p_def by (rule header_round_trip) (rule payload_round_trip [OF assms])
  with split dots show ?thesis
    by (intro exI [of _ h] exI [of _ p]) (simp add: Parse_def base64URL_inverse numeral_2_eq_2)
qed

lemma in_force_Custom [simp]: "in_force env v (c\<lparr>Custom := x\<rparr>) = in_force env v c"
  by (simp add: in_force_def)

lemma signed_accepted:
  assumes "plain_claims c" and "v_SecretKey v \<noteq> []"
  shows "\<exists>t. (\<forall>u. jwt_Validate cy env v (SignHS256 cy c (v_SecretKey v)) = Inr u \<longleftrightarrow> u = t \<and> in_force env v c) \<and>
    tk_Claims t = c\<lparr>Custom := None\<rparr> \<and> tk_Header t = signed_header \<and> tk_Raw t = SignHS256 cy c (v_SecretKey v)"
proof -
  let ?s = "SignHS256 cy c (v_SecretKey v)"
  obtain h p where hp: "Split ?s CHR ''.'' = [h, p, base64URLEncode (cy_hmac cy (v_SecretKey v) (h @ ''.'' @ p))]"
    "Parse (ve_round env) ?s = Inr \<lparr>tk_Header = signed_header, tk_Claims = c\<lparr>Custom := None\<rparr>,
      tk_Raw = ?s, tk_Signature = cy_hmac cy (v_SecretKey v) (h @ ''.'' @ p)\<rparr>"
    using Parse_signed [OF assms(1)] by blast
  let ?t = "\<lparr>tk_Header = signed_header, tk_Claims = c\<lparr>Custom := None\<rparr>, tk_Raw = ?s,
    tk_Signature = cy_hmac cy (v_SecretKey v) (h @ ''.'' @ p)\<rparr>"
  have "verifySignature cy v ?t = None"
    using hp(1) assms(2) by (simp add: verify_authentic authentic_def signed_header_def)
  then have "jwt_Validate cy env v ?s = Inr u \<longleftrightarrow> u = ?t \<and> in_force env v c" for u
    unfolding jwt_Validate_Inr hp(2) by auto
  then show ?thesis by (intro exI [of _ ?t]) simp
qed

text \<open>C19: a token that was signed with the validator's secret, for claims whose strings are ASCII
  and whose numbers fit an int64, is accepted exactly as long as its claims are in force, whatever bytes
  the hash consists of. The standard claims then come back as they were signed. The custom claims do
  not: \<^verbatim>\<open>SignHS256\<close> never writes them, so the validated token has none.\<close>

theorem signed_token_validates:
  assumes "plain_claims c" and "v_SecretKey v \<noteq> []"
  shows "(\<exists>t. jwt_Validate cy env v (SignHS256 cy c (v_SecretKey v)) = Inr t) = in_force env v c \<and>
    (\<forall>t. jwt_Validate cy env v (SignHS256 cy c (v_SecretKey v)) = Inr t \<longrightarrow>
      tk_Claims t = c\<lparr>Custom := None\<rparr> \<and> tk_Header t = signed_header \<and> tk_Raw t = SignHS256 cy c (v_SecretKey v))"
proof -
  obtain t where t: "\<forall>u. jwt_Validate cy env v (SignHS256 cy c (v_SecretKey v)) = Inr u \<longleftrightarrow> u = t \<and> in_force env v c"
    "tk_Claims t = c\<lparr>Custom := None\<rparr>" "tk_Header t = signed_header" "tk_Raw t = SignHS256 cy c (v_SecretKey v)"
    using signed_accepted [OF assms, of cy env] by auto
  then show ?thesis by (simp only: t(1)) auto
qed

definition sample_crypto :: "unit crypto" where
  "sample_crypto = \<lparr>cy_hmac = (\<lambda>k m. k @ take 4 m), cy_sha256 = (\<lambda>m. take 4 m), cy_rsa = (\<lambda>_ h s. h = s)\<rparr>"

definition sample_validator :: "unit ValidatorConfig" where
  "sample_validator = \<lparr>v_Issuer = ''iss'', v_Audience = [], v_ClockSkew = 0, v_SecretKey = ''key'', v_PublicKey = None\<rparr>"

definition sample_claims :: Claims where
  "sample_claims = \<lparr>Subject = ''user'', ExpiresAt = 2000000000, IssuedAt = 0, Issuer = ''iss'', Audience = [], NotBefore = 0,
     JWTID = [], Custom = Some [(''role'', IStr ''admin'')]\<rparr>"

definition sample_validate_env :: validate_env where
  "sample_validate_env = \<lparr>ve_round = (\<lambda>x. x), ve_exp_now = (1700000000 + unixToInternal) * Second, ve_nbf_now = 0\<rparr>"

lemma sample_plain: "plain_claims sample_claims"
  by (simp add: plain_claims_def sample_claims_def fits_int64_def min_int64_def max_int64_def ascii_def)

lemma sample_in_force: "in_force sample_validate_env sample_validator sample_claims"
  by (simp add: in_force_def sample_validate_env_def sample_validator_def sample_claims_def time_Add_def time_Unix_def
      wrap64_def unixToInternal_def Second_def max_int64_def min_int64_def)

theorem signed_token_validates_witness:
  "\<exists>t. jwt_Validate sample_crypto sample_validate_env sample_validator (SignHS256 sample_crypto sample_claims ''key'') = Inr t \<and>
    Subject (tk_Claims t) = ''user'' \<and> Custom (tk_Claims t) = None"
proof -
  have "v_SecretKey sample_validator = ''key''" by (simp add: sample_validator_def)
  then show ?thesis
    using signed_token_validates [OF sample_plain, of sample_validator sample_crypto sample_validate_env] sample_in_force
    by (auto simp: sample_claims_def)
qed

section \<open>Boundaries\<close>

text \<open>An expiry near the largest number, meant for a token that never expires, wraps to a date before
  year 1: such a token is always expired.\<close>

theorem far_expiry_wraps:
  assumes "max_int64 - unixToInternal < e" and "e \<le> max_int64" and "0 \<le> v_ClockSkew v" and "v_ClockSkew v \<le> max_int64" and "0 \<le> now"
    and "ExpiresAt (tk_Claims t) = e"
  shows "checkExpiration now v t = Some ErrTokenExpired"
proof -
  have "wrap64 (e + unixToInternal) = e + unixToInternal - 2 ^ 64"
  proof -
    have "(e + unixToInternal + 2 ^ 63) mod 2 ^ 64 = (e + unixToInternal + 2 ^ 63 - 2 ^ 64) mod 2 ^ 64"
      by (rule minus_mod_self2 [symmetric])
    also have "\<dots> = e + unixToInternal + 2 ^ 63 - 2 ^ 64"
      using assms(1,2) by (intro mod_pos_pos_trivial) (simp_all add: max_int64_def unixToInternal_def)
    finally show ?thesis by (simp add: wrap64_def)
  qed
  then have u: "time_Unix e = (e + unixToInternal - 2 ^ 64) * Second" by (simp add: time_Unix_def)
  then have neg: "time_Unix e + v_ClockSkew v < 0"
    using assms(2,4) by (simp add: Second_def max_int64_def unixToInternal_def)
  have "- (2 ^ 63) * Second \<le> time_Unix e + v_ClockSkew v"
    using assms(1,3) by (simp add: u Second_def max_int64_def unixToInternal_def)
  then have "- (2 ^ 63) \<le> (time_Unix e + v_ClockSkew v) div Second" by (simp add: Second_def)
  moreover have "(time_Unix e + v_ClockSkew v) div Second < 0" using neg by (simp add: Second_def)
  ultimately have "time_Add (time_Unix e) (v_ClockSkew v) = time_Unix e + v_ClockSkew v"
    by (simp add: time_Add_def Let_def min_int64_def max_int64_def)
  moreover have "e \<noteq> 0" using assms(1) by (auto simp: max_int64_def unixToInternal_def)
  ultimately show ?thesis using neg assms(5,6) by (simp add: checkExpiration_def)
qed

text \<open>Claims are matched up to case, while the custom claims are those whose name is not exactly that
  of a standard claim: \<^verbatim>\<open>EXP\<close> sets the expiry and is listed among the custom claims too.\<close>

theorem claim_name_case:
  "claims_field ''EXP'' (JNum ''7'') zero_claims = Some (zero_claims\<lparr>ExpiresAt := 7\<rparr>) \<and>
    extractCustomClaims [(''EXP'', v)] = Some [(''EXP'', v)]"
proof -
  have "field_of claim_names ''EXP'' = Some ''exp''" "ParseInt ''7'' = Some 7" by code_simp+
  then show ?thesis by (simp add: claims_field_def store_int_def extractCustomClaims_def claim_names_def)
qed

end
