(* ===== verification/Observability.thy ===== *)
theory Observability
  imports Complex_Main Http
begin

text \<open>
  \<^verbatim>\<open>internal/observability/observability.go\<close>: request IDs, traces, loggers and what of them
  travels in a request's context. A logger is its configuration and the attributes it adds; what
  it writes is a list of entries. The random bytes and the clock are arguments.
\<close>

section \<open>Loggers\<close>

datatype log_level = LevelDebug | LevelInfo | LevelWarn | LevelError

record LogConfig =
  lg_Level :: string
  lg_Format :: string
  lg_AddSource :: bool

definition DefaultLogConfig :: LogConfig where
  "DefaultLogConfig = \<lparr>lg_Level = ''info'', lg_Format = ''json'', lg_AddSource = False\<rparr>"

datatype log_handler = TextHandler | JSONHandler

record logger =
  l_level :: log_level
  l_handler :: log_handler
  l_AddSource :: bool
  l_attrs :: "(string \<times> string) list"

definition NewLogger :: "LogConfig \<Rightarrow> logger" where
  "NewLogger cfg =
    \<lparr>l_level = (if lg_Level cfg = ''debug'' then LevelDebug
                else if lg_Level cfg = ''warn'' then LevelWarn
                else if lg_Level cfg = ''error'' then LevelError
                else LevelInfo),
     l_handler = (if lg_Format cfg = ''text'' then TextHandler else JSONHandler),
     l_AddSource = lg_AddSource cfg, l_attrs = []\<rparr>"

text \<open>A value of a log entry.\<close>

datatype log_value = VStr string | VInt int | VFloat rat | VErr string

record log_entry =
  le_level :: log_level
  le_msg :: string
  le_attrs :: "(string \<times> string) list"
  le_args :: "(string \<times> log_value) list"

fun level_int :: "log_level \<Rightarrow> int" where
  "level_int LevelDebug = - 4"
| "level_int LevelInfo = 0"
| "level_int LevelWarn = 4"
| "level_int LevelError = 8"

text \<open>One call of \<^verbatim>\<open>Info\<close> or \<^verbatim>\<open>Error\<close>: an entry, unless the level is filtered.\<close>

definition emit :: "logger \<Rightarrow> log_level \<Rightarrow> string \<Rightarrow> (string \<times> log_value) list \<Rightarrow> log_entry list" where
  "emit l lev msg args =
    (if level_int (l_level l) \<le> level_int lev
     then [\<lparr>le_level = lev, le_msg = msg, le_attrs = l_attrs l, le_args = args\<rparr>] else [])"

text \<open>The levels are ordered by their numbers.\<close>

lemma level_int_inj: "level_int a = level_int b \<longleftrightarrow> a = b"
  by (cases a; cases b) simp_all

instantiation log_level :: linorder
begin

definition less_eq_log_level :: "log_level \<Rightarrow> log_level \<Rightarrow> bool" where
  "less_eq_log_level a b \<longleftrightarrow> level_int a \<le> level_int b"

definition less_log_level :: "log_level \<Rightarrow> log_level \<Rightarrow> bool" where
  "less_log_level a b \<longleftrightarrow> level_int a < level_int b"

instance
  by standard (auto simp: less_eq_log_level_def less_log_level_def level_int_inj)

end

lemma emit_le: "emit l lev msg args = (if l_level l \<le> lev then [\<lparr>le_level = lev, le_msg = msg, le_attrs = l_attrs l, le_args = args\<rparr>] else [])"
  by (simp add: emit_def less_eq_log_level_def)

text \<open>A stricter level only silences: what it lets through, a laxer one does too, unchanged.\<close>

lemma emit_stricter:
  "l_level l \<le> lev' \<Longrightarrow> emit (l\<lparr>l_level := lev'\<rparr>) lev msg args = (if lev' \<le> lev then emit l lev msg args else [])"
  by (auto simp: emit_le)

text \<open>\<^verbatim>\<open>float64(d.Microseconds())/1000\<close>\<close>

definition duration_ms :: "(rat \<Rightarrow> rat) \<Rightarrow> duration \<Rightarrow> rat" where
  "duration_ms rnd d = rnd (rnd (of_int (go_div d 1000)) / 1000)"

section \<open>Request IDs and traces\<close>

text \<open>\<open>bs\<close> are the eight bytes that \<^verbatim>\<open>rand.Read\<close> delivers.\<close>

definition RequestID_of :: "nat list \<Rightarrow> string" where
  "RequestID_of bs = hex_EncodeToString bs"

record TraceEvent =
  te_Name :: string
  te_Time :: go_time

record Trace =
  t_ID :: string
  t_Name :: string
  t_StartTime :: go_time
  t_EndTime :: go_time
  t_Events :: "TraceEvent list"
  t_Attrs :: "string \<rightharpoonup> string"

definition NewTrace :: "nat list \<Rightarrow> go_time \<Rightarrow> string \<Rightarrow> Trace" where
  "NewTrace bs now name = \<lparr>t_ID = RequestID_of bs, t_Name = name, t_StartTime = now, t_EndTime = 0,
     t_Events = [], t_Attrs = Map.empty\<rparr>"

definition AddEvent :: "go_time \<Rightarrow> string \<Rightarrow> Trace \<Rightarrow> Trace" where
  "AddEvent now name t = t\<lparr>t_Events := t_Events t @ [\<lparr>te_Name = name, te_Time = now\<rparr>]\<rparr>"

definition SetAttr :: "string \<Rightarrow> string \<Rightarrow> Trace \<Rightarrow> Trace" where
  "SetAttr key val t = t\<lparr>t_Attrs := (t_Attrs t)(key \<mapsto> val)\<rparr>"

definition t_End :: "go_time \<Rightarrow> Trace \<Rightarrow> Trace" where
  "t_End now t = t\<lparr>t_EndTime := now\<rparr>"

definition t_Duration :: "go_time \<Rightarrow> Trace \<Rightarrow> duration" where
  "t_Duration now t = (if t_EndTime t = 0 then time_Sub now (t_StartTime t) else time_Sub (t_EndTime t) (t_StartTime t))"

text \<open>\<open>keys\<close> is the order in which the map of attributes is visited.\<close>

definition LoggerWithTrace :: "string list \<Rightarrow> logger \<Rightarrow> Trace option \<Rightarrow> logger" where
  "LoggerWithTrace keys l trace =
    (case trace of
       None \<Rightarrow> l
     | Some t \<Rightarrow> l\<lparr>l_attrs := l_attrs l @ [(''request_id'', t_ID t), (''trace'', t_Name t)] @
           map (\<lambda>k. (k, the (t_Attrs t k))) keys\<rparr>)"

section \<open>The context\<close>

record obs_ctx = http_ctx +
  ctx_requestID :: "string option"
  ctx_trace :: "Trace option"
  ctx_logger :: "logger option"

definition WithRequestID :: "'x obs_ctx_scheme \<Rightarrow> string \<Rightarrow> 'x obs_ctx_scheme" where
  "WithRequestID ctx requestID = ctx\<lparr>ctx_requestID := Some requestID\<rparr>"

definition RequestIDFromContext :: "'x obs_ctx_scheme \<Rightarrow> string" where
  "RequestIDFromContext ctx = (case ctx_requestID ctx of Some v \<Rightarrow> v | None \<Rightarrow> [])"

definition WithTrace :: "'x obs_ctx_scheme \<Rightarrow> Trace \<Rightarrow> 'x obs_ctx_scheme" where
  "WithTrace ctx trace = (WithRequestID ctx (t_ID trace))\<lparr>ctx_trace := Some trace\<rparr>"

definition TraceFromContext :: "'x obs_ctx_scheme \<Rightarrow> Trace option" where
  "TraceFromContext ctx = ctx_trace ctx"

definition WithLogger :: "'x obs_ctx_scheme \<Rightarrow> logger \<Rightarrow> 'x obs_ctx_scheme" where
  "WithLogger ctx l = ctx\<lparr>ctx_logger := Some l\<rparr>"

definition LoggerFromContext :: "logger \<Rightarrow> 'x obs_ctx_scheme \<Rightarrow> logger" where
  "LoggerFromContext slog_Default ctx = (case ctx_logger ctx of Some l \<Rightarrow> l | None \<Rightarrow> slog_Default)"

section \<open>Entries\<close>

definition LogRequest :: "(rat \<Rightarrow> rat) \<Rightarrow> string list \<Rightarrow> logger \<Rightarrow> Trace option \<Rightarrow> string \<Rightarrow> string \<Rightarrow> int \<Rightarrow> duration \<Rightarrow> log_entry list" where
  "LogRequest rnd keys l trace meth path status dur =
    emit (LoggerWithTrace keys l trace) LevelInfo ''http.request''
      [(''method'', VStr meth), (''path'', VStr path), (''status'', VInt status), (''duration_ms'', VFloat (duration_ms rnd dur))]"

definition LogTCPConnection :: "(rat \<Rightarrow> rat) \<Rightarrow> string list \<Rightarrow> logger \<Rightarrow> Trace option \<Rightarrow> string \<Rightarrow> string \<Rightarrow> int \<Rightarrow> int \<Rightarrow> duration \<Rightarrow> log_entry list" where
  "LogTCPConnection rnd keys l trace event backend bytesSent bytesRecv dur =
    emit (LoggerWithTrace keys l trace) LevelInfo ''tcp.connection''
      [(''event'', VStr event), (''backend'', VStr backend), (''bytes_sent'', VInt bytesSent), (''bytes_recv'', VInt bytesRecv),
       (''duration_ms'', VFloat (duration_ms rnd dur))]"

definition LogError :: "string list \<Rightarrow> logger \<Rightarrow> Trace option \<Rightarrow> string \<Rightarrow> string \<Rightarrow> log_entry list" where
  "LogError keys l trace msg err = emit (LoggerWithTrace keys l trace) LevelError msg [(''error'', VErr err)]"

section \<open>Timers\<close>

record Timer =
  tm_start :: go_time

definition NewTimer :: "go_time \<Rightarrow> Timer" where
  "NewTimer now = \<lparr>tm_start = now\<rparr>"

definition Elapsed :: "go_time \<Rightarrow> Timer \<Rightarrow> duration" where
  "Elapsed now t = time_Sub now (tm_start t)"

definition ElapsedMs :: "(rat \<Rightarrow> rat) \<Rightarrow> go_time \<Rightarrow> Timer \<Rightarrow> rat" where
  "ElapsedMs rnd now t = duration_ms rnd (Elapsed now t)"

section \<open>Facts\<close>

text \<open>A request ID is sixteen hexadecimal digits and loses nothing of the 64 random bits: two
  requests share an ID exactly when they drew the same eight bytes.\<close>

theorem RequestID_unique:
  assumes "length bs = 8" and "length bs' = 8" and "\<forall>b \<in> set bs. b < 256" and "\<forall>b \<in> set bs'. b < 256"
  shows "length (RequestID_of bs) = 16 \<and> (RequestID_of bs = RequestID_of bs' \<longleftrightarrow> bs = bs')"
  using assms hex_inj [of bs bs'] by (auto simp: RequestID_of_def)

theorem RequestID_unique_witness:
  "RequestID_of [0, 1, 2, 3, 4, 5, 6, 255] \<noteq> RequestID_of [0, 1, 2, 3, 4, 5, 6, 254]"
  using RequestID_unique [of "[0, 1, 2, 3, 4, 5, 6, 255]" "[0, 1, 2, 3, 4, 5, 6, 254]"] by simp

text \<open>Once a trace has ended its duration no longer depends on when it is asked for.\<close>

lemma t_Duration_SetAttr [simp]: "t_Duration now (SetAttr k v t) = t_Duration now t"
  by (simp add: t_Duration_def SetAttr_def)

lemma t_Duration_optional_attr [simp]:
  "t_Duration now (case r of Some x \<Rightarrow> SetAttr k (f x) t | None \<Rightarrow> t) = t_Duration now t"
  by (cases r) simp_all

lemma ended_duration: "now \<noteq> 0 \<Longrightarrow> t_Duration later (t_End now t) = time_Sub now (t_StartTime t)"
  by (simp add: t_Duration_def t_End_def)

end
