(* ===== verification/Middleware.thy ===== *)
theory Middleware
  imports HTTPProxy Observability Prometheus Router
begin

text \<open>
  The middleware of \<^verbatim>\<open>internal/middleware\<close>. A middleware is a function from handlers to
  handlers; a handler works on the writer, the request and the world, and may leave by a panic.
  The world here adds to that of the proxy what the middleware writes to: the log and the
  counters of \<^verbatim>\<open>RateLimitWithMetrics\<close>. Clock readings and random bytes are arguments.
\<close>

record mw_world = http_world +
  mw_log :: "log_entry list"
  mw_stats :: RateLimiterWithStats

type_synonym ('w, 'x) middleware = "('w, 'x) handler \<Rightarrow> ('w, 'x) handler"

section \<open>Chains\<close>

text \<open>\<^verbatim>\<open>chain.go\<close>: the loop applies the middlewares from the last to the first.\<close>

definition Chain :: "('w, 'x) handler \<Rightarrow> ('w, 'x) middleware list \<Rightarrow> ('w, 'x) handler" where
  "Chain h middlewares = fold (\<lambda>m h. m h) (rev middlewares) h"

definition ChainFunc :: "('w, 'x) handler \<Rightarrow> ('w, 'x) middleware list \<Rightarrow> ('w, 'x) handler" where
  "ChainFunc h middlewares = Chain h middlewares"

section \<open>Wrapped writers\<close>

definition wrapResponseWriter :: responseWriter where
  "wrapResponseWriter = \<lparr>rw_status = 200, rw_wroteHeader = False, rw_bytes = 0\<rparr>"

definition push_wrap :: "writer \<Rightarrow> writer" where
  "push_wrap w = w\<lparr>w_wraps := wrapResponseWriter # w_wraps w\<rparr>"

text \<open>\<^verbatim>\<open>next.ServeHTTP(wrapped, r)\<close>: the wrapper after the call, and the writer below it. When the
  call panics the wrapper is abandoned where it is.\<close>

definition serve_wrapped :: "('w, 'x) handler \<Rightarrow> ('w, 'x) conf \<Rightarrow> responseWriter option \<times> ('w, 'x) conf" where
  "serve_wrapped next c =
    (let (panics, c1) = next (c\<lparr>cf_w := push_wrap (cf_w c)\<rparr>)
     in if panics then (None, c1)
        else (Some (hd (w_wraps (cf_w c1))), c1\<lparr>cf_w := (cf_w c1)\<lparr>w_wraps := tl (w_wraps (cf_w c1))\<rparr>\<rparr>))"

definition add_log :: "log_entry list \<Rightarrow> ('z mw_world_scheme, 'x) conf \<Rightarrow> ('z mw_world_scheme, 'x) conf" where
  "add_log es c = c\<lparr>cf_world := (cf_world c)\<lparr>mw_log := mw_log (cf_world c) @ es\<rparr>\<rparr>"

definition on_gw :: "(gateway \<Rightarrow> gateway) \<Rightarrow> ('z http_world_scheme, 'x) conf \<Rightarrow> ('z http_world_scheme, 'x) conf" where
  "on_gw f c = c\<lparr>cf_world := (cf_world c)\<lparr>hw_gw := f (hw_gw (cf_world c))\<rparr>\<rparr>"

section \<open>Recovery\<close>

text \<open>The writer a deferred function holds is the one its middleware was called with: wrappers put
  on top of it below in the chain are not part of it.\<close>

definition unwrap_to :: "nat \<Rightarrow> writer \<Rightarrow> writer" where
  "unwrap_to n w = w\<lparr>w_wraps := drop (length (w_wraps w) - n) (w_wraps w)\<rparr>"

definition Recovery :: "logger \<Rightarrow> ('z mw_world_scheme, 'x) middleware" where
  "Recovery l next c =
    (let (panics, c1) = next c
     in if panics
        then (let w = unwrap_to (length (w_wraps (cf_w c))) (cf_w c1);
                  entry = emit l LevelError ''panic recovered'' [(''method'', VStr (r_Method (cf_r c1))), (''path'', VStr (r_Path (cf_r c1)))]
              in (False, (add_log entry c1)\<lparr>cf_w := http_Error ''Internal Server Error'' 500 w\<rparr>))
        else (False, c1))"

section \<open>Rate limits\<close>

definition RateLimit :: "(rat \<Rightarrow> rat) \<Rightarrow> go_time \<Rightarrow> ('z http_world_scheme, 'x) middleware" where
  "RateLimit rnd now next c =
    (let (ok, tb) = tb_Allow rnd now (gw_limiter (hw_gw (cf_world c)));
         c1 = on_gw (\<lambda>g. g\<lparr>gw_limiter := tb\<rparr>) c
     in if \<not> ok
        then (let w = cf_w c1; w1 = w\<lparr>w_Header := hdr_Set ''Retry-After'' ''1'' (w_Header w)\<rparr>
              in (False, c1\<lparr>cf_w := http_Error ''Too Many Requests'' 429 w1\<rparr>))
        else next c1)"

definition RateLimitWithMetrics :: "(rat \<Rightarrow> rat) \<Rightarrow> go_time \<Rightarrow> ('z mw_world_scheme, 'x) middleware" where
  "RateLimitWithMetrics rnd now next c =
    (let (ok, tb) = tb_Allow rnd now (gw_limiter (hw_gw (cf_world c)));
         c1 = on_gw (\<lambda>g. g\<lparr>gw_limiter := tb\<rparr>) c; W = cf_world c1
     in if \<not> ok
        then (False, c1\<lparr>cf_world := W\<lparr>mw_stats := RecordRejected (mw_stats W)\<rparr>,
                        cf_w := http_Error ''rate limit exceeded'' 429 (cf_w c1)\<rparr>)
        else next (c1\<lparr>cf_world := W\<lparr>mw_stats := RecordAllowed (mw_stats W)\<rparr>\<rparr>))"

section \<open>Headers\<close>

text \<open>\<^verbatim>\<open>net.SplitHostPort\<close>, with \<open>None\<close> for its errors.\<close>

definition SplitHostPort :: "string \<Rightarrow> (string \<times> string) option" where
  "SplitHostPort s =
    (case LastIndex_byte s CHR '':'' of
       None \<Rightarrow> None
     | Some i \<Rightarrow>
         if hd s = CHR ''[''
         then (case Index_byte s CHR '']'' of
                 None \<Rightarrow> None
               | Some e \<Rightarrow>
                   if Suc e = i \<and> CHR ''['' \<notin> set (drop 1 s) \<and> CHR '']'' \<notin> set (drop (Suc e) s)
                   then Some (drop 1 (take e s), drop (Suc i) s) else None)
         else if CHR '':'' \<in> set (take i s) \<or> CHR ''['' \<in> set s \<or> CHR '']'' \<in> set s then None
         else Some (take i s, drop (Suc i) s))"

definition extractClientIP :: "'x request \<Rightarrow> string" where
  "extractClientIP r = (case SplitHostPort (r_RemoteAddr r) of None \<Rightarrow> r_RemoteAddr r | Some (ip, port) \<Rightarrow> ip)"

definition set_default :: "string \<Rightarrow> string \<Rightarrow> 'x request \<Rightarrow> 'x request" where
  "set_default k v r = (if hdr_Get (r_Header r) k = [] then r\<lparr>r_Header := hdr_Set k v (r_Header r)\<rparr> else r)"

definition Headers :: "('w, 'x) middleware" where
  "Headers next c =
    (let r = cf_r c;
         prior = hdr_Get (r_Header r) ''X-Forwarded-For'';
         clientIP = (if prior \<noteq> [] then prior @ '', '' @ extractClientIP r else extractClientIP r);
         r1 = r\<lparr>r_Header := hdr_Set ''X-Forwarded-For'' clientIP (r_Header r)\<rparr>;
         r2 = set_default ''X-Real-IP'' (extractClientIP r1) r1;
         r3 = set_default ''X-Forwarded-Host'' (r_Host r2) r2;
         r4 = set_default ''X-Forwarded-Proto'' (if r_TLS r3 then ''https'' else ''http'') r3
     in next (c\<lparr>cf_r := r4\<rparr>))"

definition RequestID :: "string \<Rightarrow> ('w, 'x) middleware" where
  "RequestID generated next c =
    (let r = cf_r c; w = cf_w c;
         old = hdr_Get (r_Header r) ''X-Request-ID'';
         (rid, r1) = (if old = [] then (generated, r\<lparr>r_Header := hdr_Set ''X-Request-ID'' generated (r_Header r)\<rparr>) else (old, r));
         w1 = w\<lparr>w_Header := hdr_Set ''X-Request-ID'' rid (w_Header w)\<rparr>
     in next (c\<lparr>cf_r := r1, cf_w := w1\<rparr>))"

definition StripPrefix :: "string \<Rightarrow> ('w, 'x) middleware" where
  "StripPrefix pre next c =
    (let r = cf_r c;
         p = TrimPrefix (r_Path r) pre;
         r1 = (if HasPrefix (r_Path r) pre then r\<lparr>r_Path := (if p = [] then ''/'' else p)\<rparr> else r)
     in next (c\<lparr>cf_r := r1\<rparr>))"

section \<open>Metrics\<close>

definition Metrics_mw :: "go_time \<Rightarrow> go_time \<Rightarrow> ('z http_world_scheme, 'x) middleware" where
  "Metrics_mw start now next c =
    (let c1 = on_gw (gw_record True RecordConnection) c
     in case serve_wrapped next c1 of
          (None, c2) \<Rightarrow> (True, c2)
        | (Some wrapped, c2) \<Rightarrow>
            (let dur = time_Sub now start;
                 success = (200 \<le> rw_status wrapped \<and> rw_status wrapped < 400);
                 path = r_Path (cf_r c2);
                 backend = (if length path > 50 then take 50 path else path)
             in (False, on_gw (\<lambda>g. gw_record True (RecordConnectionClosed dur)
                   (gw_record True (RecordRequest backend success dur (r_ContentLength (cf_r c2)) (rw_bytes wrapped)) g)) c2)))"

section \<open>Logging\<close>

definition clientIP :: "'x request \<Rightarrow> string" where
  "clientIP r =
    (let xff = hdr_Get (r_Header r) ''X-Forwarded-For'';
         xri = hdr_Get (r_Header r) ''X-Real-IP''
     in if xff \<noteq> [] then (case Index_byte xff CHR '','' of Some i \<Rightarrow> take i xff | None \<Rightarrow> xff)
        else if xri \<noteq> [] then xri
        else r_RemoteAddr r)"

definition route_name :: "'x http_ctx_scheme \<Rightarrow> string" where
  "route_name ctx = (case RouteFromContext ctx of Some route \<Rightarrow> Name route | None \<Rightarrow> [])"

definition request_args :: "(rat \<Rightarrow> rat) \<Rightarrow> duration \<Rightarrow> responseWriter \<Rightarrow> 'x request \<Rightarrow> (string \<times> log_value) list" where
  "request_args rnd dur wrapped r =
    [(''method'', VStr (r_Method r)), (''path'', VStr (r_Path r)), (''query'', VStr (r_RawQuery r)),
     (''status'', VInt (rw_status wrapped)), (''duration_ms'', VFloat (duration_ms rnd dur)), (''bytes'', VInt (rw_bytes wrapped)),
     (''route'', VStr (route_name (r_ctx r))), (''client_ip'', VStr (clientIP r)),
     (''user_agent'', VStr (hdr_Get (r_Header r) ''User-Agent''))]"

definition Logging :: "(rat \<Rightarrow> rat) \<Rightarrow> go_time \<Rightarrow> go_time \<Rightarrow> logger \<Rightarrow> ('z mw_world_scheme, 'x) middleware" where
  "Logging rnd start now l next c =
    (case serve_wrapped next c of
       (None, c1) \<Rightarrow> (True, c1)
     | (Some wrapped, c1) \<Rightarrow>
         (False, add_log (emit l LevelInfo ''http request'' (request_args rnd (time_Sub now start) wrapped (cf_r c1))) c1))"

definition LoggingWithTrace :: "(rat \<Rightarrow> rat) \<Rightarrow> string list \<Rightarrow> go_time \<Rightarrow> go_time \<Rightarrow> logger \<Rightarrow>
    ('z mw_world_scheme, 'y obs_ctx_ext) middleware" where
  "LoggingWithTrace rnd keys start now l next c =
    (case serve_wrapped next c of
       (None, c1) \<Rightarrow> (True, c1)
     | (Some wrapped, c1) \<Rightarrow>
         (let l1 = LoggerWithTrace keys l (TraceFromContext (r_ctx (cf_r c1)))
          in (False, add_log (emit l1 LevelInfo ''http.request'' (request_args rnd (time_Sub now start) wrapped (cf_r c1))) c1)))"

section \<open>Tracing\<close>

text \<open>What a call of \<^verbatim>\<open>Tracing\<close> draws: random bytes, the clock at the start and at the end, and the
  order in which the attributes are visited.\<close>

record trace_env =
  tv_bytes :: "nat list"
  tv_start :: go_time
  tv_end :: go_time
  tv_keys :: "string list"

definition Tracing :: "(rat \<Rightarrow> rat) \<Rightarrow> trace_env \<Rightarrow> logger \<Rightarrow> ('z mw_world_scheme, 'y obs_ctx_ext) middleware" where
  "Tracing rnd tv l next c =
    (let r = cf_r c; w = cf_w c;
         trace = NewTrace (tv_bytes tv) (tv_start tv) ''http.request'';
         requestID = hdr_Get (r_Header r) ''X-Request-ID'';
         (trace1, r1) = (if requestID \<noteq> [] then (trace\<lparr>t_ID := requestID\<rparr>, r)
                         else (trace, r\<lparr>r_Header := hdr_Set ''X-Request-ID'' (t_ID trace) (r_Header r)\<rparr>));
         w1 = w\<lparr>w_Header := hdr_Set ''X-Request-ID'' (t_ID trace1) (w_Header w)\<rparr>;
         trace2 = SetAttr ''remote_addr'' (r_RemoteAddr r1) (SetAttr ''path'' (r_Path r1) (SetAttr ''method'' (r_Method r1) trace1));
         ctx = WithTrace (r_ctx r1) trace2;
         enriched = LoggerWithTrace (tv_keys tv) l (Some trace2);
         ctx1 = WithLogger ctx enriched
     in case serve_wrapped (serve_with_context ctx1 next) (c\<lparr>cf_r := r1, cf_w := w1\<rparr>) of
          (None, c1) \<Rightarrow> (True, c1)
        | (Some wrapped, c1) \<Rightarrow>
            (let trace3 = t_End (tv_end tv) trace2;
                 trace4 = (case RouteFromContext ctx1 of Some route \<Rightarrow> SetAttr ''route'' (Name route) trace3 | None \<Rightarrow> trace3)
             in (False, add_log (emit enriched LevelInfo ''request.complete''
                   [(''status'', VInt (rw_status wrapped)), (''bytes'', VInt (rw_bytes wrapped)),
                    (''duration_ms'', VFloat (duration_ms rnd (t_Duration (tv_end tv) trace4)))]) c1)))"

definition TracingWithRequestID :: "nat list \<Rightarrow> ('w, 'y obs_ctx_ext) middleware" where
  "TracingWithRequestID bs next c =
    (let r = cf_r c; w = cf_w c;
         old = hdr_Get (r_Header r) ''X-Request-ID'';
         (rid, r1) = (if old = [] then (RequestID_of bs, r\<lparr>r_Header := hdr_Set ''X-Request-ID'' (RequestID_of bs) (r_Header r)\<rparr>) else (old, r));
         w1 = w\<lparr>w_Header := hdr_Set ''X-Request-ID'' rid (w_Header w)\<rparr>
     in serve_with_context (WithRequestID (r_ctx r1) rid) next (c\<lparr>cf_r := r1, cf_w := w1\<rparr>))"

section \<open>CORS\<close>







section \<open>Order\<close>

lemma Chain_Nil [simp]: "Chain h [] = h"
  by (simp add: Chain_def)

lemma Chain_Cons [simp]: "Chain h (m # ms) = m (Chain h ms)"
  by (simp add: Chain_def)

section \<open>Panics\<close>

lemma unwrap_to_sel [simp]:
  "w_status (unwrap_to n w) = w_status w" "w_body (unwrap_to n w) = w_body w" "w_wraps (unwrap_to 0 w) = []"
  by (simp_all add: unwrap_to_def)

lemma add_log_sel [simp]:
  "cf_w (add_log es c) = cf_w c" "cf_r (add_log es c) = cf_r c" "hw_gw (cf_world (add_log es c)) = hw_gw (cf_world c)"
  "hw_proxy (cf_world (add_log es c)) = hw_proxy (cf_world c)" "mw_log (cf_world (add_log es c)) = mw_log (cf_world c) @ es"
  by (simp_all add: add_log_def)

text \<open>No panic gets past \<^verbatim>\<open>Recovery\<close>, whatever the handler below it does. As the outermost
  middleware it answers 500 when nothing had been sent; a status that had already been sent
  stays; and a handler that returns is not touched.\<close>

theorem Recovery_answers:
  assumes "w_wraps (cf_w c) = []" and "next c = (panics, c1)" and "Recovery l next c = (p, c')"
  shows "\<not> p \<and> (\<not> panics \<longrightarrow> c' = c1) \<and>
    (panics \<longrightarrow>
      (case w_status (cf_w c1) of
         None \<Rightarrow> w_status (cf_w c') = Some 500 \<and> w_body (cf_w c') = w_body (cf_w c1) @ ''Internal Server Error'' @ newline
       | Some s \<Rightarrow> w_status (cf_w c') = Some s))"
proof (cases panics)
  case True
  let ?w = "unwrap_to 0 (cf_w c1)"
  have c': "cf_w c' = http_Error ''Internal Server Error'' 500 ?w" and "\<not> p"
    using assms True by (auto simp: Recovery_def Let_def)
  moreover have "w_status (http_Error ''Internal Server Error'' 500 ?w) = Some 500 \<and>
      w_body (http_Error ''Internal Server Error'' 500 ?w) = w_body (cf_w c1) @ ''Internal Server Error'' @ newline"
    if "w_status (cf_w c1) = None"
  proof -
    have "fresh_writer ?w" using that by (simp add: fresh_writer_def)
    then show ?thesis using http_Error_fresh [of ?w 500] by (simp add: bodyAllowedForStatus_def)
  qed
  ultimately show ?thesis using True http_Error_sticky [of ?w] by (auto split: option.splits)
qed (use assms in \<open>auto simp: Recovery_def\<close>)

definition empty_log_world :: "http_world \<Rightarrow> mw_world" where
  "empty_log_world W = http_world.extend W (mw_world.fields [] NewRateLimiterWithStats)"

definition sample_mw_conf :: "(mw_world, unit) conf" where
  "sample_mw_conf = \<lparr>cf_w = new_writer, cf_r = sample_http_request, cf_world = empty_log_world (cf_world sample_conf)\<rparr>"

theorem Recovery_answers_witness:
  "w_status (cf_w (snd (Recovery (NewLogger DefaultLogConfig) (\<lambda>c. (True, c)) sample_mw_conf))) = Some 500"
proof -
  obtain p c' where run: "Recovery (NewLogger DefaultLogConfig) (\<lambda>c. (True, c)) sample_mw_conf = (p, c')" by force
  have "w_wraps (cf_w sample_mw_conf) = []" "w_status (cf_w sample_mw_conf) = None" by (simp_all add: sample_mw_conf_def new_writer_def)
  then show ?thesis using Recovery_answers [OF _ refl run] run by simp
qed

section \<open>The client's address\<close>

text \<open>\<^verbatim>\<open>net.JoinHostPort\<close>, the form in which the server reports the peer of a connection.\<close>

definition JoinHostPort :: "string \<Rightarrow> string \<Rightarrow> string" where
  "JoinHostPort host port = (if CHR '':'' \<in> set host then ''['' @ host @ '']:'' @ port else host @ '':'' @ port)"

lemma Index_byte_skip: "c \<notin> set s \<Longrightarrow> Index_byte (s @ c # t) c = Some (length s)"
  by (induction s) auto

lemma SplitHostPort_Join:
  assumes "set host \<inter> {CHR ''['', CHR '']''} = {}" and "set port \<inter> {CHR '':'', CHR ''['', CHR '']''} = {}"
  shows "SplitHostPort (JoinHostPort host port) = Some (host, port)"
proof (cases "CHR '':'' \<in> set host")
  case True
  have "LastIndex_byte ((''['' @ host @ '']'') @ CHR '':'' # port) CHR '':'' = Some (length (''['' @ host @ '']''))"
    using assms by (intro LastIndex_byte_snoc) auto
  moreover have "Index_byte ((''['' @ host) @ CHR '']'' # '':'' @ port) CHR '']'' = Some (length (''['' @ host))"
    using assms by (intro Index_byte_skip) auto
  ultimately show ?thesis using True assms by (simp add: SplitHostPort_def JoinHostPort_def)
next
  case False
  have "LastIndex_byte (host @ CHR '':'' # port) CHR '':'' = Some (length host)"
    using assms by (intro LastIndex_byte_snoc) auto
  then show ?thesis using False assms by (cases host) (auto simp: SplitHostPort_def JoinHostPort_def)
qed

lemma Get_Set_other: "canonical_key k \<noteq> canonical_key k' \<Longrightarrow> hdr_Get (hdr_Set k v h) k' = hdr_Get h k'"
  by (simp add: hdr_Get_Set)

lemma set_default_sel [simp]:
  "r_RemoteAddr (set_default k v r) = r_RemoteAddr r" "r_Host (set_default k v r) = r_Host r" "r_TLS (set_default k v r) = r_TLS r"
  by (simp_all add: set_default_def)

lemma set_default_Get:
  "hdr_Get (r_Header (set_default k v r)) k' =
    (if canonical_key k' = canonical_key k \<and> hdr_Get (r_Header r) k = [] then v else hdr_Get (r_Header r) k')"
  by (simp add: set_default_def hdr_Get_Set)

lemma set_default_frame: "r' = r\<lparr>r_Header := r_Header r'\<rparr> \<Longrightarrow> set_default k v r' = r\<lparr>r_Header := r_Header (set_default k v r')\<rparr>"
  by (cases r; cases r') (simp add: set_default_def)

definition forwarding_keys :: "string list" where
  "forwarding_keys = [''X-Forwarded-For'', ''X-Real-IP'', ''X-Forwarded-Host'', ''X-Forwarded-Proto'']"

lemma forwarding_keys_canonical: "map canonical_key forwarding_keys = [''X-Forwarded-For'', ''X-Real-Ip'', ''X-Forwarded-Host'', ''X-Forwarded-Proto'']"
  unfolding forwarding_keys_def by code_simp

lemma forwarding_key_simps [simp]:
  "canonical_key ''X-Forwarded-For'' = ''X-Forwarded-For''" "canonical_key ''X-Real-IP'' = ''X-Real-Ip''"
  "canonical_key ''X-Forwarded-Host'' = ''X-Forwarded-Host''" "canonical_key ''X-Forwarded-Proto'' = ''X-Forwarded-Proto''"
  using forwarding_keys_canonical by (simp_all add: forwarding_keys_def)

text \<open>The request that \<^verbatim>\<open>Headers\<close> hands on.\<close>

lemma Headers_eq:
  "\<exists>h. Headers next c = next (c\<lparr>cf_r := (cf_r c)\<lparr>r_Header := h\<rparr>\<rparr>) \<and>
    (\<forall>k. hdr_Get h k =
      (let old = hdr_Get (r_Header (cf_r c)); ip = extractClientIP (cf_r c)
       in if canonical_key k = ''X-Forwarded-For'' then (if old k = [] then ip else old k @ '', '' @ ip)
          else if canonical_key k = ''X-Real-Ip'' \<and> old k = [] then ip
          else if canonical_key k = ''X-Forwarded-Host'' \<and> old k = [] then r_Host (cf_r c)
          else if canonical_key k = ''X-Forwarded-Proto'' \<and> old k = [] then (if r_TLS (cf_r c) then ''https'' else ''http'')
          else old k))"
proof -
  let ?r = "cf_r c"
  let ?old = "hdr_Get (r_Header ?r)"
  let ?ip = "if ?old ''X-Forwarded-For'' \<noteq> [] then ?old ''X-Forwarded-For'' @ '', '' @ extractClientIP ?r else extractClientIP ?r"
  let ?r1 = "?r\<lparr>r_Header := hdr_Set ''X-Forwarded-For'' ?ip (r_Header ?r)\<rparr>"
  let ?r2 = "set_default ''X-Real-IP'' (extractClientIP ?r1) ?r1"
  let ?r3 = "set_default ''X-Forwarded-Host'' (r_Host ?r2) ?r2"
  let ?r4 = "set_default ''X-Forwarded-Proto'' (if r_TLS ?r3 then ''https'' else ''http'') ?r3"
  have key: "canonical_key k = canonical_key k' \<Longrightarrow> hdr_Get g k = hdr_Get g k'" for g k k' by (simp add: hdr_Get_def)
  have ip: "extractClientIP (?r\<lparr>r_Header := g\<rparr>) = extractClientIP ?r" for g by (simp add: extractClientIP_def split: option.split)
  have "Headers next c = next (c\<lparr>cf_r := ?r4\<rparr>)" by (simp add: Headers_def Let_def)
  moreover have "?r4 = ?r\<lparr>r_Header := r_Header ?r4\<rparr>"
    by (intro set_default_frame) simp
  moreover have "hdr_Get (r_Header ?r4) k =
      (if canonical_key k = ''X-Forwarded-For'' then (if ?old k = [] then extractClientIP ?r else ?old k @ '', '' @ extractClientIP ?r)
       else if canonical_key k = ''X-Real-Ip'' \<and> ?old k = [] then extractClientIP ?r
       else if canonical_key k = ''X-Forwarded-Host'' \<and> ?old k = [] then r_Host ?r
       else if canonical_key k = ''X-Forwarded-Proto'' \<and> ?old k = [] then (if r_TLS ?r then ''https'' else ''http'')
       else ?old k)" for k
    using key [of k "''X-Forwarded-For''" "r_Header ?r"] key [of k "''X-Real-IP''" "r_Header ?r"]
      key [of k "''X-Forwarded-Host''" "r_Header ?r"] key [of k "''X-Forwarded-Proto''" "r_Header ?r"]
    by (auto simp: set_default_Get hdr_Get_Set ip)
  ultimately show ?thesis by (intro exI [of _ "r_Header ?r4"]) (simp add: Let_def)
qed

text \<open>The backend can tell who called: for a peer that the server reports as
  \<^verbatim>\<open>host:port\<close> or \<^verbatim>\<open>[host]:port\<close>, the handler below \<^verbatim>\<open>Headers\<close> sees the bare host, IPv6
  included, as the last element of \<^verbatim>\<open>X-Forwarded-For\<close>, behind whatever the client had sent; the
  three other headers are filled in only where the client sent none, and no other header, and
  nothing else of the request, changes.\<close>

theorem Headers_identify_client:
  assumes "r_RemoteAddr (cf_r c) = JoinHostPort host port"
    and "set host \<inter> {CHR ''['', CHR '']''} = {}" and "set port \<inter> {CHR '':'', CHR ''['', CHR '']''} = {}"
  shows "\<exists>h. Headers next c = next (c\<lparr>cf_r := (cf_r c)\<lparr>r_Header := h\<rparr>\<rparr>) \<and>
    (\<forall>k. hdr_Get h k =
      (let old = hdr_Get (r_Header (cf_r c))
       in if canonical_key k = ''X-Forwarded-For'' then (if old k = [] then host else old k @ '', '' @ host)
          else if canonical_key k = ''X-Real-Ip'' \<and> old k = [] then host
          else if canonical_key k = ''X-Forwarded-Host'' \<and> old k = [] then r_Host (cf_r c)
          else if canonical_key k = ''X-Forwarded-Proto'' \<and> old k = [] then (if r_TLS (cf_r c) then ''https'' else ''http'')
          else old k))"
proof -
  have "extractClientIP (cf_r c) = host"
    using SplitHostPort_Join [OF assms(2,3)] by (simp add: extractClientIP_def assms(1))
  with Headers_eq [of "next" c] show ?thesis by simp
qed

theorem Headers_identify_client_witness:
  "\<exists>h. Headers (\<lambda>c. (False, c)) sample_mw_conf = (False, sample_mw_conf\<lparr>cf_r := sample_http_request\<lparr>r_Header := h\<rparr>\<rparr>) \<and>
    hdr_Get h ''X-Forwarded-For'' = ''c''"
proof -
  have "r_RemoteAddr (cf_r sample_mw_conf) = JoinHostPort ''c'' ''1''"
    by (simp add: sample_mw_conf_def sample_http_request_def JoinHostPort_def)
  from Headers_identify_client [OF this, of "\<lambda>c. (False, c)"] obtain h where
    "Headers (\<lambda>c. (False, c)) sample_mw_conf = (False, sample_mw_conf\<lparr>cf_r := (cf_r sample_mw_conf)\<lparr>r_Header := h\<rparr>\<rparr>)"
    "hdr_Get h ''X-Forwarded-For'' = (let old = hdr_Get (r_Header (cf_r sample_mw_conf)) in
      if old ''X-Forwarded-For'' = [] then ''c'' else old ''X-Forwarded-For'' @ '', '' @ ''c'')" by auto
  then show ?thesis by (intro exI [of _ h]) (simp add: sample_mw_conf_def sample_http_request_def hdr_Get_def)
qed

section \<open>Log lines\<close>

text \<open>The route is put into the context of the request that the router hands down; the logging
  middleware, above the router, reads the context of its own request. Its \<^verbatim>\<open>route\<close> field is
  always empty.\<close>

theorem Logging_route_blank:
  assumes "ctx_route (r_ctx (cf_r c)) = None" and "Logging rnd start now l (router_ServeHTTP rt) c = (False, c')"
  shows "\<exists>w c1. c' = add_log (emit l LevelInfo ''http request'' (request_args rnd (time_Sub now start) w (cf_r c1))) c1 \<and>
    route_name (r_ctx (cf_r c1)) = []"
proof -
  obtain w c1 where c1: "serve_wrapped (router_ServeHTTP rt) c = (Some w, c1)"
    and c': "c' = add_log (emit l LevelInfo ''http request'' (request_args rnd (time_Sub now start) w (cf_r c1))) c1"
    using assms(2) by (auto simp: Logging_def split: prod.splits option.splits)
  have "r_ctx (cf_r c1) = r_ctx (cf_r c)"
    using c1 by (auto simp: serve_wrapped_def router_ServeHTTP_def serve_with_context_def Let_def split: option.splits prod.splits if_splits)
  with c' assms(1) show ?thesis by (intro exI [of _ w] exI [of _ c1]) (simp add: route_name_def RouteFromContext_def)
qed

section \<open>Cross-origin requests\<close>


lemma cors_key_simps [simp]:
  "canonical_key ''Access-Control-Allow-Origin'' = ''Access-Control-Allow-Origin''"
  "canonical_key ''Access-Control-Allow-Credentials'' = ''Access-Control-Allow-Credentials''"
  "canonical_key ''Access-Control-Expose-Headers'' = ''Access-Control-Expose-Headers''"
  "canonical_key ''Access-Control-Allow-Methods'' = ''Access-Control-Allow-Methods''"
  "canonical_key ''Access-Control-Allow-Headers'' = ''Access-Control-Allow-Headers''"
  "canonical_key ''Access-Control-Max-Age'' = ''Access-Control-Max-Age''"
  "canonical_key ''Vary'' = ''Vary''" "canonical_key ''Origin'' = ''Origin''"
  by code_simp+






end
