(* ===== verification/AuthMiddleware.thy ===== *)
theory AuthMiddleware
  imports Jwt Middleware
begin

text \<open>
  \<^verbatim>\<open>internal/middleware/auth.go\<close>: the middleware that admits requests by their token. The claims travel
  in the context of the request that is handed on. A validator is always present.
\<close>

section \<open>The middleware\<close>

record auth_ctx = obs_ctx +
  ctx_claims :: "Claims option"

definition ClaimsFromContext :: "'y auth_ctx_scheme \<Rightarrow> Claims option" where
  "ClaimsFromContext ctx = ctx_claims ctx"

record ('k, 'w, 'x) AuthConfig =
  ac_Validator :: "'k ValidatorConfig"
  ac_TokenExtractor :: "('x request \<Rightarrow> string) option"
  ac_ErrorHandler :: "(jwt_error \<Rightarrow> ('w, 'x) handler) option"
  ac_SkipAuth :: "('x request \<Rightarrow> bool) option"

text \<open>\<^verbatim>\<open>strings.SplitN(s, sep, 2)\<close> for a one-byte separator.\<close>

definition SplitN2 :: "string \<Rightarrow> char \<Rightarrow> string list" where
  "SplitN2 s c = (case Index_byte s c of None \<Rightarrow> [s] | Some i \<Rightarrow> [take i s, drop (Suc i) s])"

definition defaultTokenExtractor :: "'x request \<Rightarrow> string" where
  "defaultTokenExtractor r =
    (let authHeader = hdr_Get (r_Header r) ''Authorization''
     in if authHeader = [] then []
        else (let parts = SplitN2 authHeader CHR '' ''
              in if length parts \<noteq> 2 \<or> \<not> EqualFold (parts ! 0) ''Bearer'' then [] else parts ! 1))"

definition bearer_challenge :: string where
  "bearer_challenge = ''Bearer realm='' @ [CHR 0x22] @ ''api'' @ [CHR 0x22]"

definition defaultAuthErrorHandler :: "jwt_error \<Rightarrow> ('w, 'x) handler" where
  "defaultAuthErrorHandler err c =
    (let w = cf_w c;
         w1 = w\<lparr>w_Header := hdr_Set ''WWW-Authenticate'' bearer_challenge (w_Header w)\<rparr>
     in (False, c\<lparr>cf_w := http_Error ''Unauthorized'' 401 w1\<rparr>))"

definition serve_with_claims :: "Claims \<Rightarrow> ('w, 'y auth_ctx_ext obs_ctx_ext) middleware" where
  "serve_with_claims claims next c = serve_with_context ((r_ctx (cf_r c))\<lparr>ctx_claims := Some claims\<rparr>) next c"

definition Auth :: "'k crypto \<Rightarrow> validate_env \<Rightarrow> ('k, 'w, 'y auth_ctx_ext obs_ctx_ext) AuthConfig \<Rightarrow>
    ('w, 'y auth_ctx_ext obs_ctx_ext) middleware" where
  "Auth cy env config next c =
    (let extract = (case ac_TokenExtractor config of None \<Rightarrow> defaultTokenExtractor | Some f \<Rightarrow> f);
         fail = (case ac_ErrorHandler config of None \<Rightarrow> defaultAuthErrorHandler | Some f \<Rightarrow> f);
         r = cf_r c
     in if (case ac_SkipAuth config of None \<Rightarrow> False | Some skip \<Rightarrow> skip r) then next c
        else
          (let tokenString = extract r
           in if tokenString = [] then fail ErrInvalidToken c
              else (case jwt_Validate cy env (ac_Validator config) tokenString of
                      Inl err \<Rightarrow> fail err c
                    | Inr token \<Rightarrow> serve_with_claims (tk_Claims token) next c)))"

definition RequireAuth :: "'k crypto \<Rightarrow> validate_env \<Rightarrow> 'k ValidatorConfig \<Rightarrow> ('w, 'y auth_ctx_ext obs_ctx_ext) middleware" where
  "RequireAuth cy env v =
    Auth cy env \<lparr>ac_Validator = v, ac_TokenExtractor = None, ac_ErrorHandler = None, ac_SkipAuth = None\<rparr>"

definition OptionalAuth :: "'k crypto \<Rightarrow> validate_env \<Rightarrow> 'k ValidatorConfig \<Rightarrow> ('w, 'y auth_ctx_ext obs_ctx_ext) middleware" where
  "OptionalAuth cy env v next c =
    (let tokenString = defaultTokenExtractor (cf_r c)
     in if tokenString \<noteq> []
        then (case jwt_Validate cy env v tokenString of
                Inr token \<Rightarrow> serve_with_claims (tk_Claims token) next c
              | Inl err \<Rightarrow> next c)
        else next c)"

section \<open>The token in the request\<close>

lemma EqualFold_Bearer_no_space: "EqualFold s ''Bearer'' \<Longrightarrow> CHR '' '' \<notin> set s"
proof
  assume eq: "EqualFold s ''Bearer''" and "CHR '' '' \<in> set s"
  then have "ascii_lower CHR '' '' \<in> set (map ascii_lower ''Bearer'')" unfolding EqualFold_def by (metis image_eqI list.set_map)
  moreover have "ascii_lower CHR '' '' \<notin> set (map ascii_lower ''Bearer'')" by code_simp
  ultimately show False by blast
qed

lemma SplitN2_two: "length (SplitN2 s c) = 2 \<longleftrightarrow> (\<exists>a b. s = a @ c # b \<and> c \<notin> set a \<and> SplitN2 s c = [a, b])"
proof (cases "c \<in> set s")
  case True
  then obtain a b where ab: "s = a @ c # b" "c \<notin> set a" by (meson split_list_first)
  then have "SplitN2 s c = [a, b]" by (simp add: SplitN2_def Index_byte_skip)
  with ab show ?thesis by auto
next
  case False
  then have "Index_byte s c = None" by (simp add: Index_byte_None)
  then show ?thesis using False by (auto simp: SplitN2_def)
qed

lemma defaultTokenExtractor_iff:
  assumes "tok \<noteq> []"
  shows "defaultTokenExtractor r = tok \<longleftrightarrow>
    (\<exists>scheme. hdr_Get (r_Header r) ''Authorization'' = scheme @ CHR '' '' # tok \<and> EqualFold scheme ''Bearer'')"
proof
  assume "defaultTokenExtractor r = tok"
  then have two: "length (SplitN2 (hdr_Get (r_Header r) ''Authorization'') CHR '' '') = 2"
    and parts: "EqualFold (SplitN2 (hdr_Get (r_Header r) ''Authorization'') CHR '' '' ! 0) ''Bearer''"
      "tok = SplitN2 (hdr_Get (r_Header r) ''Authorization'') CHR '' '' ! 1"
    using assms by (auto simp: defaultTokenExtractor_def Let_def split: if_splits)
  from two obtain a b where ab: "hdr_Get (r_Header r) ''Authorization'' = a @ CHR '' '' # b"
    "SplitN2 (hdr_Get (r_Header r) ''Authorization'') CHR '' '' = [a, b]" unfolding SplitN2_two by blast
  have "EqualFold a ''Bearer''" "tok = b" using parts unfolding ab(2) by simp_all
  with ab(1) show "\<exists>scheme. hdr_Get (r_Header r) ''Authorization'' = scheme @ CHR '' '' # tok \<and> EqualFold scheme ''Bearer''" by blast
next
  assume "\<exists>scheme. hdr_Get (r_Header r) ''Authorization'' = scheme @ CHR '' '' # tok \<and> EqualFold scheme ''Bearer''"
  then obtain a where a: "hdr_Get (r_Header r) ''Authorization'' = a @ CHR '' '' # tok" "EqualFold a ''Bearer''" by blast
  then have "SplitN2 (a @ CHR '' '' # tok) CHR '' '' = [a, tok]"
    using EqualFold_Bearer_no_space by (simp add: SplitN2_def Index_byte_skip)
  then show "defaultTokenExtractor r = tok" using a by (simp add: defaultTokenExtractor_def)
qed

section \<open>Who gets through\<close>

definition presents :: "'x request \<Rightarrow> string \<Rightarrow> bool" where
  "presents r tok \<longleftrightarrow>
    (\<exists>scheme. hdr_Get (r_Header r) ''Authorization'' = scheme @ CHR '' '' # tok \<and> EqualFold scheme ''Bearer'')"

definition admits :: "'k crypto \<Rightarrow> validate_env \<Rightarrow> 'k ValidatorConfig \<Rightarrow> 'x request \<Rightarrow> Token \<Rightarrow> bool" where
  "admits cy env v r t \<longleftrightarrow> presents r (tk_Raw t) \<and> jwt_Validate cy env v (tk_Raw t) = Inr t"

lemma valid_not_empty: "jwt_Validate cy env v s = Inr t \<Longrightarrow> s \<noteq> [] \<and> tk_Raw t = s"
  by (auto simp: jwt_Validate_Inr Parse_Inr)

lemma admits_iff:
  "admits cy env v r t \<longleftrightarrow> defaultTokenExtractor r \<noteq> [] \<and> jwt_Validate cy env v (defaultTokenExtractor r) = Inr t"
proof
  assume t: "admits cy env v r t"
  then have "tk_Raw t \<noteq> []" using valid_not_empty [of cy env v "tk_Raw t" t] by (simp add: admits_def)
  then have "defaultTokenExtractor r = tk_Raw t" using t defaultTokenExtractor_iff by (auto simp: admits_def presents_def)
  then show "defaultTokenExtractor r \<noteq> [] \<and> jwt_Validate cy env v (defaultTokenExtractor r) = Inr t"
    using t \<open>tk_Raw t \<noteq> []\<close> by (simp add: admits_def)
next
  assume t: "defaultTokenExtractor r \<noteq> [] \<and> jwt_Validate cy env v (defaultTokenExtractor r) = Inr t"
  then have "tk_Raw t = defaultTokenExtractor r" using valid_not_empty by blast
  with t show "admits cy env v r t" using defaultTokenExtractor_iff [of "tk_Raw t" r] by (simp add: admits_def presents_def)
qed

lemma RequireAuth_cases:
  "RequireAuth cy env v next c =
    (if defaultTokenExtractor (cf_r c) = [] then defaultAuthErrorHandler ErrInvalidToken c
     else (case jwt_Validate cy env v (defaultTokenExtractor (cf_r c)) of
             Inl err \<Rightarrow> defaultAuthErrorHandler ErrInvalidToken c
           | Inr t \<Rightarrow> serve_with_claims (tk_Claims t) next c))"
  by (simp add: RequireAuth_def Auth_def defaultAuthErrorHandler_def Let_def split: sum.split)

lemma auth_key_simps: "canonical_key ''WWW-Authenticate'' = ''Www-Authenticate''"
  "canonical_key ''Content-Length'' = ''Content-Length''" "canonical_key ''Content-Type'' = ''Content-Type''"
  "canonical_key ''X-Content-Type-Options'' = ''X-Content-Type-Options''"
  by code_simp+

lemma denied:
  assumes "fresh_writer (cf_w c)"
  shows "\<exists>w. defaultAuthErrorHandler err c = (False, c\<lparr>cf_w := w\<rparr>) \<and> w_status w = Some 401 \<and>
    w_body w = w_body (cf_w c) @ ''Unauthorized'' @ newline \<and> hdr_Get (w_sent w) ''WWW-Authenticate'' = bearer_challenge"
proof -
  let ?w = "(cf_w c)\<lparr>w_Header := hdr_Set ''WWW-Authenticate'' bearer_challenge (w_Header (cf_w c))\<rparr>"
  have "fresh_writer ?w" using assms by (simp add: fresh_writer_def)
  from http_Error_fresh [OF this, of 401 "''Unauthorized''"]
  have "w_status (http_Error ''Unauthorized'' 401 ?w) = Some 401 \<and>
      w_body (http_Error ''Unauthorized'' 401 ?w) = w_body (cf_w c) @ ''Unauthorized'' @ newline \<and>
      w_sent (http_Error ''Unauthorized'' 401 ?w) = error_header (w_Header ?w)"
    by (simp add: bodyAllowedForStatus_def)
  moreover have "hdr_Get (error_header (w_Header ?w)) ''WWW-Authenticate'' = bearer_challenge"
    by (simp add: error_header_def hdr_Get_def hdr_Set_def hdr_Del_def auth_key_simps)
  ultimately show ?thesis
    by (intro exI [of _ "http_Error ''Unauthorized'' 401 ?w"]) (simp add: defaultAuthErrorHandler_def Let_def)
qed

text \<open>C12: nobody passes without a token. When the request presents, as a bearer token, one that the
  validator accepts, the handler runs with exactly the claims of that token in its context. When it
  presents none, whatever the reason, the handler below does not run, nothing else changes, and the
  client gets the same 401 with the challenge: the reply does not tell why.\<close>

theorem RequireAuth_gate:
  assumes "fresh_writer (cf_w c)"
  shows "(\<exists>t. admits cy env v (cf_r c) t \<and>
      (\<forall>next. RequireAuth cy env v next c = serve_with_claims (tk_Claims t) next c)) \<or>
    ((\<forall>t. \<not> admits cy env v (cf_r c) t) \<and>
      (\<exists>w. (\<forall>next. RequireAuth cy env v next c = (False, c\<lparr>cf_w := w\<rparr>)) \<and>
        defaultAuthErrorHandler ErrInvalidToken c = (False, c\<lparr>cf_w := w\<rparr>) \<and>
        w_status w = Some 401 \<and> w_body w = w_body (cf_w c) @ ''Unauthorized'' @ newline \<and>
        hdr_Get (w_sent w) ''WWW-Authenticate'' = bearer_challenge))"
proof (cases "\<exists>t. admits cy env v (cf_r c) t")
  case True
  then obtain t where t: "admits cy env v (cf_r c) t" by blast
  then have "RequireAuth cy env v next c = serve_with_claims (tk_Claims t) next c" for "next"
    unfolding RequireAuth_cases by (simp add: admits_iff)
  with t show ?thesis by blast
next
  case False
  then have "RequireAuth cy env v next c = defaultAuthErrorHandler ErrInvalidToken c" for "next"
    unfolding RequireAuth_cases by (auto simp: admits_iff split: sum.split)
  with False denied [OF assms, of ErrInvalidToken] show ?thesis by auto
qed

text \<open>The same for the optional variant: the handler always runs, and claims are in its context only
  when the request presents a token that the validator accepts.\<close>

theorem OptionalAuth_passes:
  "(\<exists>t. admits cy env v (cf_r c) t \<and> OptionalAuth cy env v next c = serve_with_claims (tk_Claims t) next c) \<or>
    (\<forall>t. \<not> admits cy env v (cf_r c) t) \<and> OptionalAuth cy env v next c = next c"
  by (cases "jwt_Validate cy env v (defaultTokenExtractor (cf_r c))") (auto simp: OptionalAuth_def admits_iff Let_def)

text \<open>From signing to the handler: a request with a token signed with the secret of the gateway
  reaches the handler with the claims that were signed, while they are in force.\<close>

theorem signed_request_admitted:
  assumes "plain_claims claims" and "v_SecretKey v \<noteq> []" and "in_force env v claims"
    and "presents (cf_r c) (SignHS256 cy claims (v_SecretKey v))"
  shows "RequireAuth cy env v next c = serve_with_claims (claims\<lparr>Custom := None\<rparr>) next c"
proof -
  obtain t where t: "jwt_Validate cy env v (SignHS256 cy claims (v_SecretKey v)) = Inr t" "tk_Claims t = claims\<lparr>Custom := None\<rparr>"
    "tk_Raw t = SignHS256 cy claims (v_SecretKey v)"
    using signed_accepted [OF assms(1,2), of cy env] assms(3) by blast
  then have "admits cy env v (cf_r c) t" using assms(4) by (simp add: admits_def)
  then show ?thesis unfolding RequireAuth_cases using t(2) by (simp add: admits_iff)
qed

definition sample_auth_ctx :: auth_ctx where
  "sample_auth_ctx = \<lparr>ctx_route = None, ctx_requestID = None, ctx_trace = None, ctx_logger = None, ctx_claims = None\<rparr>"

definition sample_auth_request :: "string \<Rightarrow> (unit auth_ctx_ext obs_ctx_ext) request" where
  "sample_auth_request value = \<lparr>r_Method = ''GET'', r_Host = ''h'', r_Path = ''/'', r_RawPath = [], r_RawQuery = [], r_RequestURI = ''/'',
     r_Header = (\<lambda>k. if k = ''Authorization'' then [value] else []), r_RemoteAddr = ''c:1'', r_TLS = False,
     r_ContentLength = 0, r_Close = False, r_ctx = sample_auth_ctx\<rparr>"

definition sample_auth_conf :: "string \<Rightarrow> (nat, unit auth_ctx_ext obs_ctx_ext) conf" where
  "sample_auth_conf value = \<lparr>cf_w = new_writer, cf_r = sample_auth_request value, cf_world = 0\<rparr>"

lemma sample_auth_fresh: "fresh_writer (cf_w (sample_auth_conf value))"
  by (simp add: sample_auth_conf_def fresh_writer_def new_writer_def)

theorem RequireAuth_gate_witness:
  "\<exists>w. RequireAuth sample_crypto sample_validate_env sample_validator (\<lambda>c. (True, c)) (sample_auth_conf ''Basic abc'') =
      (False, (sample_auth_conf ''Basic abc'')\<lparr>cf_w := w\<rparr>) \<and> w_status w = Some 401"
proof -
  have "canonical_key ''Authorization'' = ''Authorization''" "\<not> EqualFold ''Basic'' ''Bearer''" by code_simp+
  then have "defaultTokenExtractor (cf_r (sample_auth_conf ''Basic abc'')) = []"
    by (simp add: defaultTokenExtractor_def sample_auth_conf_def sample_auth_request_def hdr_Get_def SplitN2_def)
  then have "\<not> admits sample_crypto sample_validate_env sample_validator (cf_r (sample_auth_conf ''Basic abc'')) t" for t
    by (simp add: admits_iff)
  with RequireAuth_gate [OF sample_auth_fresh, of sample_crypto sample_validate_env sample_validator "''Basic abc''"]
  show ?thesis by blast
qed

end
