(* ===== verification/EchoServer.thy ===== *)
theory EchoServer
  imports Jwt RegistryHandler TCPProxy
begin

text \<open>
  The echo servers of \<^verbatim>\<open>scripts/echo-tcp\<close> and \<^verbatim>\<open>scripts/echo-http\<close>, as clients of the registry:
  the tags of the command line, the loop that registers, the heartbeats, and what they echo. The two
  programs have their own copies of these functions, which are equal; one definition stands for both. The
  answers of the registry are arguments, one for each attempt, with whether the context was done in the \<^verbatim>\<open>select\<close> that
  follows it.
\<close>

section \<open>Tags\<close>

text \<open>The characters \<^verbatim>\<open>strings.TrimSpace\<close> removes, as they are encoded: \<^verbatim>\<open>unicode.IsSpace\<close>.\<close>

definition space_runes :: "nat list" where
  "space_runes = [0x09, 0x0A, 0x0B, 0x0C, 0x0D, 0x20, 0x85, 0xA0, 0x1680, 0x2000, 0x2001, 0x2002, 0x2003, 0x2004, 0x2005, 0x2006,
     0x2007, 0x2008, 0x2009, 0x200A, 0x2028, 0x2029, 0x202F, 0x205F, 0x3000]"

definition leading_space :: "string \<Rightarrow> string option" where
  "leading_space s = find (\<lambda>w. HasPrefix s w) (map EncodeRune space_runes)"

definition trailing_space :: "string \<Rightarrow> string option" where
  "trailing_space s = find (\<lambda>w. HasSuffix s w) (map EncodeRune space_runes)"

lemma EncodeRune_nonempty: "EncodeRune n \<noteq> []"
  by (simp add: EncodeRune_def)

lemma space_found:
  "leading_space s = Some w \<Longrightarrow> HasPrefix s w \<and> w \<noteq> []" "trailing_space s = Some w \<Longrightarrow> HasSuffix s w \<and> w \<noteq> []"
  by (auto simp: leading_space_def trailing_space_def find_Some_iff EncodeRune_nonempty)

function trim_left :: "string \<Rightarrow> string" where
  "trim_left s = (case leading_space s of None \<Rightarrow> s | Some w \<Rightarrow> trim_left (drop (length w) s))"
  by pat_completeness auto
termination
  by (relation "measure length") (auto dest!: space_found(1) simp: HasPrefix_def prefix_def)

function trim_right :: "string \<Rightarrow> string" where
  "trim_right s = (case trailing_space s of None \<Rightarrow> s | Some w \<Rightarrow> trim_right (take (length s - length w) s))"
  by pat_completeness auto
termination
  by (relation "measure length") (auto dest!: space_found(2) simp: HasSuffix_def suffix_def)

declare trim_left.simps [simp del] trim_right.simps [simp del]

definition TrimSpace :: "string \<Rightarrow> string" where
  "TrimSpace s = trim_right (trim_left s)"

definition parseTags :: "string \<Rightarrow> string list" where
  "parseTags csv = (if csv = [] then [] else filter (\<lambda>p. p \<noteq> []) (map TrimSpace (Split csv CHR '','')))"

section \<open>Registering\<close>

definition register_path :: string where
  "register_path = ''/v1/services''"

definition register_url :: "string \<Rightarrow> string" where
  "register_url baseURL = TrimSuffix baseURL ''/'' @ register_path"

text \<open>The payload: \<^verbatim>\<open>json.Marshal\<close> writes the keys of a map in order, and a nil slice as \<^verbatim>\<open>null\<close>. Of an
  empty command line argument the tags are nil; \<open>ttl\<close> is what \<^verbatim>\<open>ttl.String()\<close> gives.\<close>

definition register_payload :: "string \<Rightarrow> string \<Rightarrow> string \<Rightarrow> int \<Rightarrow> string \<Rightarrow> json" where
  "register_payload name address tagsCSV weight ttl =
    JObj [(''address'', JStr address), (''name'', JStr name),
      (''tags'', if tagsCSV = [] then JNull else JArr (map JStr (parseTags tagsCSV))),
      (''ttl'', JStr ttl), (''weight'', JNum (Itoa weight))]"

text \<open>The ID in an answer: the decoder reads one value and stores what it can; an error is ignored.\<close>

definition store_id :: "string \<times> json \<Rightarrow> string \<Rightarrow> string" where
  "store_id m old = (case m of (k, JStr s) \<Rightarrow> if field_of [''id''] k = Some ''id'' then s else old | _ \<Rightarrow> old)"

definition decode_id :: "string \<Rightarrow> string" where
  "decode_id body =
    (case json_value max_depth (2 * length body + 2) body of
       Some (JObj ms, rest) \<Rightarrow> fold store_id ms []
     | _ \<Rightarrow> [])"

record attempt =
  at_resp :: "string + int \<times> string"
  at_done :: bool

definition attempt_id :: "attempt \<Rightarrow> string" where
  "attempt_id a =
    (case at_resp a of
       Inl err \<Rightarrow> []
     | Inr (StatusCode, body) \<Rightarrow> if StatusCode \<ge> 200 \<and> StatusCode < 300 then decode_id body else [])"

text \<open>The loop: \<open>None\<close> when the attempts end before it does.\<close>

fun register :: "attempt list \<Rightarrow> string option" where
  "register [] = None"
| "register (a # as) =
     (if attempt_id a \<noteq> [] then Some (attempt_id a) else if at_done a then Some [] else register as)"

section \<open>Heartbeats\<close>

definition heartbeat_interval :: "duration \<Rightarrow> duration" where
  "heartbeat_interval ttl = (let interval = go_div ttl 2 in if interval \<le> 0 then 10 * Second else interval)"

definition heartbeat_url :: "string \<Rightarrow> string \<Rightarrow> string" where
  "heartbeat_url baseURL sid = TrimSuffix baseURL ''/'' @ ''/v1/services/'' @ sid @ ''/heartbeat''"

datatype tick = Tick "string + int" | Done

text \<open>The log of the loop: what every tick came to, until the context is done. Whatever the answers are, the next tick
  sends the same request again.\<close>

datatype beat = BeatFailed | BeatOk | BeatRejected int

definition beat_of :: "string + int \<Rightarrow> beat" where
  "beat_of resp =
    (case resp of
       Inl err \<Rightarrow> BeatFailed
     | Inr StatusCode \<Rightarrow> if StatusCode \<ge> 200 \<and> StatusCode < 300 then BeatOk else BeatRejected StatusCode)"

fun heartbeat_loop :: "tick list \<Rightarrow> beat list" where
  "heartbeat_loop [] = []"
| "heartbeat_loop (Done # ts) = []"
| "heartbeat_loop (Tick resp # ts) = beat_of resp # heartbeat_loop ts"

definition heartbeat :: "string \<Rightarrow> tick list \<Rightarrow> beat list" where
  "heartbeat sid ts = (if sid = [] then [] else heartbeat_loop ts)"

text \<open>What \<^verbatim>\<open>main\<close> does about the registry: the ID and the heartbeats.\<close>

definition announce :: "bool \<Rightarrow> attempt list \<Rightarrow> tick list \<Rightarrow> (string \<times> beat list) option" where
  "announce noRegistry as ts =
    (if noRegistry then Some ([], []) else map_option (\<lambda>sid. (sid, if sid \<noteq> [] then heartbeat sid ts else [])) (register as))"

section \<open>Echoing\<close>

text \<open>\<^verbatim>\<open>handleConn\<close>: the bytes echoed, and whether it warns.\<close>

definition handleConn :: "(string \<times> net_error option) list \<Rightarrow> (nat \<times> net_error option) list \<Rightarrow> (string \<times> bool) option" where
  "handleConn reads writes =
    (case CopyBuffer reads writes [] of
       None \<Rightarrow> None
     | Some (out, err) \<Rightarrow> Some (out, err \<noteq> None \<and> err \<noteq> Some ErrEOF))"

text \<open>The handlers of the HTTP echo: \<^verbatim>\<open>/health\<close>, and everything else. A header is given by the list of its
  keys in order; \<open>now\<close> is the formatted time.\<close>

definition echo_body :: "string list \<Rightarrow> header \<Rightarrow> string \<Rightarrow> string \<Rightarrow> string \<Rightarrow> string \<Rightarrow> json" where
  "echo_body keys hdr method path body now =
    JObj [(''body'', JStr body), (''headers'', JObj (map (\<lambda>k. (k, JArr (map JStr (hdr k)))) keys)), (''method'', JStr method),
      (''path'', JStr path), (''time'', JStr now)]"

definition echo_reply :: "string list \<Rightarrow> header \<Rightarrow> string \<Rightarrow> string \<Rightarrow> string \<Rightarrow> string \<Rightarrow> int \<times> string \<times> string" where
  "echo_reply keys hdr method path body now =
    (if path = ''/health'' then (200, [], ''OK'')
     else (200, ''application/json'', json_print (echo_body keys hdr method path body now) @ newline))"

section \<open>The tags\<close>

lemma Split_join: "xs \<noteq> [] \<Longrightarrow> \<forall>x \<in> set xs. c \<notin> set x \<Longrightarrow> Split (join [c] xs) c = xs"
  by (induction xs rule: induct_list012) (simp_all add: Split_plain Split_append)

lemma no_space_fixed: "leading_space s = None \<Longrightarrow> trailing_space s = None \<Longrightarrow> TrimSpace s = s"
  by (simp add: TrimSpace_def trim_left.simps [of s] trim_right.simps [of s])

lemma trim_right_prefix: "prefix (trim_right s) s"
proof (induction s rule: trim_right.induct)
  case (1 s)
  then show ?case
  proof (cases "trailing_space s")
    case (Some w)
    with 1 have "prefix (trim_right s) (take (length s - length w) s)" by (simp add: trim_right.simps [of s])
    then show ?thesis using take_is_prefix prefix_order.trans by blast
  qed (simp add: trim_right.simps [of s])
qed

lemma trim_ends: "leading_space (trim_left s) = None" "trailing_space (trim_right s) = None"
proof -
  show "leading_space (trim_left s) = None"
  proof (induction s rule: trim_left.induct)
    case (1 s)
    then show ?case by (cases "leading_space s") (simp_all add: trim_left.simps [of s])
  qed
  show "trailing_space (trim_right s) = None"
  proof (induction s rule: trim_right.induct)
    case (1 s)
    then show ?case by (cases "trailing_space s") (simp_all add: trim_right.simps [of s])
  qed
qed

lemma leading_prefix: "prefix u s \<Longrightarrow> leading_space s = None \<Longrightarrow> leading_space u = None"
  by (auto simp: leading_space_def find_None_iff HasPrefix_def dest: prefix_order.trans)

lemma TrimSpace_trimmed: "leading_space (TrimSpace s) = None \<and> trailing_space (TrimSpace s) = None"
  using leading_prefix [OF trim_right_prefix trim_ends(1)] trim_ends(2) by (simp add: TrimSpace_def)

text \<open>The tags of the command line: every list of tags that are not empty, hold no comma and have no white space around them can be given, and no other
  list comes out: no tag is empty or carries surrounding white space.\<close>

theorem parseTags_roundtrip:
  "(list_all (\<lambda>p. p \<noteq> [] \<and> CHR '','' \<notin> set p \<and> leading_space p = None \<and> trailing_space p = None) tags \<longrightarrow>
      parseTags (join '','' tags) = tags) \<and>
   list_all (\<lambda>p. p \<noteq> [] \<and> leading_space p = None \<and> trailing_space p = None) (parseTags csv)"
proof
  show "list_all (\<lambda>p. p \<noteq> [] \<and> CHR '','' \<notin> set p \<and> leading_space p = None \<and> trailing_space p = None) tags \<longrightarrow>
      parseTags (join '','' tags) = tags"
  proof
    assume ok: "list_all (\<lambda>p. p \<noteq> [] \<and> CHR '','' \<notin> set p \<and> leading_space p = None \<and> trailing_space p = None) tags"
    show "parseTags (join '','' tags) = tags"
    proof (cases "tags = []")
      case False
      then have "join '','' tags \<noteq> []" using ok by (cases tags rule: remdups_adj.cases) auto
      moreover have "map TrimSpace tags = tags" using ok by (auto simp: list_all_iff no_space_fixed intro: map_idI)
      moreover have "filter (\<lambda>p. p \<noteq> []) tags = tags" using ok by (auto simp: list_all_iff filter_id_conv)
      ultimately show ?thesis using Split_join [OF False, of "CHR '',''"] ok by (simp add: parseTags_def list_all_iff)
    qed (simp add: parseTags_def)
  qed
  show "list_all (\<lambda>p. p \<noteq> [] \<and> leading_space p = None \<and> trailing_space p = None) (parseTags csv)"
    by (auto simp: parseTags_def list_all_iff TrimSpace_trimmed)
qed

section \<open>Registering with the registry\<close>

lemma register_skip: "list_all (\<lambda>a. attempt_id a = [] \<and> \<not> at_done a) as \<Longrightarrow> register (as @ bs) = register bs"
  by (induction as) simp_all

text \<open>The loop returns the ID of the first answer that has one, or nothing once the context is done.\<close>

theorem register_exact:
  "register as = map_option attempt_id (find (\<lambda>a. attempt_id a \<noteq> [] \<or> at_done a) as)"
  by (induction as) auto

text \<open>What the registry writes for a registration: \<^verbatim>\<open>RegisterResponse\<close>, encoded.\<close>

definition register_reply :: "string \<Rightarrow> string" where
  "register_reply sid = json_print (JObj [(''id'', JStr sid)]) @ newline"

lemma decode_register_reply: "ascii sid \<Longrightarrow> decode_id (register_reply sid) = sid"
proof -
  assume "ascii sid"
  then have "json_plain (JObj [(''id'', JStr sid)])" "json_depth (JObj [(''id'', JStr sid)]) \<le> max_depth"
    by (simp_all add: ascii_def max_depth_def)
  moreover have "value_ends newline" by (simp add: value_ends_def newline_def)
  ultimately have "json_value max_depth (2 * length (register_reply sid) + 2) (register_reply sid) = Some (JObj [(''id'', JStr sid)], newline)"
    by (rule json_value_print) (rule register_reply_def)
  then show ?thesis by (simp add: decode_id_def store_id_def field_of_def del: json_value.simps)
qed

lemma hex_ascii: "ascii (hex_EncodeToString bs)"
proof -
  have "of_char c < (0x80 :: nat)" if "c \<in> set hex_table" for c
    using that by (auto simp: hex_table_def)
  moreover have "hex_digit n \<in> set hex_table" for n
    using nth_mem [of "n mod 16" hex_table] by (simp add: hex_digit_def hex_table(2))
  ultimately show ?thesis by (induction bs) (simp_all add: ascii_def hex_EncodeToString_def)
qed

text \<open>An echo server that registers holds the ID under which the registry keeps it: when the registry accepts the registration,
  the ID that the server decodes from the answer, whatever attempts failed before, is the key of an entry with the name, the address and the time
  to live of the request, and the path to which the server then sends its heartbeats renews exactly this entry.\<close>

theorem registered_id_works:
  assumes "reg_inv r" and "length (env_random env) = 4" and "env_decode env = Inr req" and "rq_ID req = []"
    and "reg_ServeHTTP env ''POST'' register_path r = ((p, \<lparr>rp_status = 201, rp_ContentType = t, rp_Allow = a, rp_body = RegisterResponse sid\<rparr>), r')"
    and "list_all (\<lambda>a. attempt_id a = [] \<and> \<not> at_done a) failed" and "at_resp att = Inr (201, register_reply sid)"
  shows "register (failed @ att # rest) = Some sid \<and>
    (\<exists>svc. services r' sid = Some svc \<and> sv_Name svc = rq_Name req \<and> sv_Address svc = rq_Address req \<and> sv_LastHeartbeat svc = env_now env \<and>
       reg_ServeHTTP env2 ''PUT'' (''/v1/services/'' @ sid @ ''/heartbeat'') r' =
         ((False, \<lparr>rp_status = 204, rp_ContentType = [], rp_Allow = [], rp_body = NoBody\<rparr>),
          r'\<lparr>services := (services r')(sid \<mapsto> svc\<lparr>sv_LastHeartbeat := env_now env2\<rparr>)\<rparr>))"
proof -
  define mk where "mk ttl = \<lparr>sv_ID = rq_ID req, sv_Name = rq_Name req, sv_Address = rq_Address req, sv_Tags = rq_Tags req,
      sv_Metadata = rq_Metadata req, sv_Weight = rq_Weight req, sv_TTL = ttl, sv_RegisteredAt = 0, sv_LastHeartbeat = 0\<rparr>" for ttl
  obtain ttl where reg: "reg_Register (env_now env) (env_random env) (mk ttl) r = ((p, Inr sid), r')"
    using assms(5) unfolding register_path_def ServeHTTP_post handleRegister_def assms(3) mk_def
    by (auto simp: writeError_def writeJSON_def Let_def split: if_splits sum.splits prod.splits)
  let ?s = "reg_entry (env_now env) (env_random env) (mk ttl) r"
  note entry = reg_Register_Inr [OF assms(1) reg]
  have sid: "sid = generateID (env_random env)" by (simp add: entry(1) reg_entry_def mk_def Let_def assms(4))
  then have ne: "sid \<noteq> []" using generateID_nonempty [OF assms(2)] by simp
  have "attempt_id att = sid"
    using sid hex_ascii by (simp add: attempt_id_def assms(7) decode_register_reply generateID_def)
  then have "register (failed @ att # rest) = Some sid" using ne by (simp add: register_skip [OF assms(6)])
  moreover have "services r' sid = Some ?s" by (simp add: entry(2))
  moreover have "sv_Name ?s = rq_Name req" "sv_Address ?s = rq_Address req" "sv_LastHeartbeat ?s = env_now env"
    by (simp_all add: reg_entry_def mk_def Let_def)
  ultimately show ?thesis using ServeHTTP_heartbeat [OF ne, of env2 r']
    by (intro conjI exI [of _ ?s]) (simp_all add: handleHeartbeat_def reg_Heartbeat_def Let_def)
qed

section \<open>Heartbeats keep the service alive\<close>

text \<open>What an operation of the registry does with the entry of one service: a heartbeat at a time, a clean-up that reads the
  clock for it, or nothing.\<close>

definition beat_time :: "string \<Rightarrow> reg_op \<Rightarrow> go_time option" where
  "beat_time sid e = (case e of OpHeartbeat now s \<Rightarrow> if s = sid then Some now else None | _ \<Rightarrow> None)"

definition look_time :: "string \<Rightarrow> reg_op \<Rightarrow> go_time option" where
  "look_time sid e = (case e of OpCleanup now clock order \<Rightarrow> Some (clock sid) | _ \<Rightarrow> beat_time sid e)"

fun spares :: "string \<Rightarrow> reg_op \<Rightarrow> bool" where
  "spares sid (OpRegister now rnd svc) \<longleftrightarrow> (if sv_ID svc = [] then generateID rnd else sv_ID svc) \<noteq> sid"
| "spares sid (OpDeregister now s) \<longleftrightarrow> s \<noteq> sid"
| "spares sid _ \<longleftrightarrow> True"

definition alive :: "Registry \<Rightarrow> string \<Rightarrow> duration \<Rightarrow> go_time \<Rightarrow> bool" where
  "alive r sid ttl t \<longleftrightarrow> (\<exists>svc. services r sid = Some svc \<and> sv_TTL svc = ttl \<and> sv_LastHeartbeat svc = t)"

lemma notify_services: "services (snd (reg_notify e r)) = services r"
  by (simp add: reg_notify_def)

lemma alive_step:
  assumes "reg_inv r" and "reg_legal r e" and "spares sid e" and "alive r sid ttl t" and "0 < ttl" "ttl < max_int64"
    and "\<And>u. beat_time sid e = None \<Longrightarrow> look_time sid e = Some u \<Longrightarrow> u \<le> t + ttl"
  shows "alive (reg_step r e) sid ttl (case beat_time sid e of Some u \<Rightarrow> u | None \<Rightarrow> t)"
proof (cases e)
  case (OpRegister now rnd svc)
  then have "services (snd (reg_Register now rnd svc r)) sid = services r sid"
    using assms(3) by (auto simp: reg_Register_def case_prod_unfold Let_def notify_services split: option.splits)
  then show ?thesis using assms(4) by (simp add: OpRegister alive_def beat_time_def)
next
  case (OpDeregister now s)
  then show ?thesis using assms(3,4)
    by (auto simp: alive_def beat_time_def reg_Deregister_def case_prod_unfold Let_def notify_services split: option.splits)
next
  case (OpHeartbeat now s)
  then show ?thesis using assms(4) by (auto simp: alive_def beat_time_def reg_Heartbeat_def split: option.splits)
next
  case (OpCleanup now clock order)
  then have "clock sid \<le> t + ttl" using assms(7) by (simp add: beat_time_def look_time_def)
  then have "\<not> time_Sub (clock sid) t > ttl" using assms(5,6) by (simp add: time_Sub_gt_iff min_int64_def)
  moreover have "iteration_order order r" using assms(2) OpCleanup by simp
  ultimately show ?thesis using assms(4,5)
    by (auto simp: OpCleanup alive_def beat_time_def IsExpired_def Let_def cleanupExpired_services [OF assms(1)])
qed (use assms(4) in \<open>auto simp: alive_def beat_time_def reg_Subscribe_def reg_Unsubscribe_def chan_close_def reg_Stop_def
    chan_recv_def Let_def split: list.splits\<close>)

definition beats :: "string \<Rightarrow> reg_op list \<Rightarrow> go_time list" where
  "beats sid es = List.map_filter (beat_time sid) es"

definition looks :: "string \<Rightarrow> reg_op list \<Rightarrow> go_time list" where
  "looks sid es = List.map_filter (look_time sid) es"

lemma beats_simps [simp]:
  "beats sid [] = []" "beats sid (e # es) = (case beat_time sid e of None \<Rightarrow> beats sid es | Some u \<Rightarrow> u # beats sid es)"
  "beats sid (xs @ ys) = beats sid xs @ beats sid ys"
  by (auto simp: beats_def List.map_filter_def split: option.splits)

lemma looks_simps [simp]:
  "looks sid [] = []" "looks sid (e # es) = (case look_time sid e of None \<Rightarrow> looks sid es | Some u \<Rightarrow> u # looks sid es)"
  "looks sid (xs @ ys) = looks sid xs @ looks sid ys"
  by (auto simp: looks_def List.map_filter_def split: option.splits)

lemma beat_is_look: "beat_time sid e = Some u \<Longrightarrow> look_time sid e = Some u"
  by (cases e) (simp_all add: look_time_def beat_time_def)

lemma beats_looks: "set (beats sid es) \<subseteq> set (looks sid es)"
  by (induction es) (auto dest: beat_is_look split: option.splits)

lemma sorted_beats: "sorted (t # looks sid es) \<Longrightarrow> sorted (t # beats sid es)"
proof (induction es arbitrary: t)
  case (Cons e es)
  show ?case
  proof (cases "look_time sid e")
    case None
    then have "beat_time sid e = None" using beat_is_look by (cases "beat_time sid e") auto
    then show ?thesis using Cons.IH [of t] Cons.prems None by simp
  next
    case (Some u)
    then have srt: "sorted (u # looks sid es)" "t \<le> u" "sorted (t # looks sid es)" using Cons.prems by auto
    show ?thesis using Cons.IH [OF srt(1)] Cons.IH [OF srt(3)] srt(2) Some beat_is_look [of sid e]
      by (cases "beat_time sid e") auto
  qed
qed simp

lemma alive_run:
  assumes "reg_inv r" and "legal_run reg_step reg_legal r es" and "list_all (spares sid) es" and "alive r sid ttl t0"
    and "0 < ttl" "ttl < max_int64"
    and "\<And>xs e ys u. es = xs @ e # ys \<Longrightarrow> beat_time sid e = None \<Longrightarrow> look_time sid e = Some u \<Longrightarrow> u \<le> last (t0 # beats sid xs) + ttl"
  shows "alive (foldl reg_step r es) sid ttl (last (t0 # beats sid es))"
  using assms
proof (induction es arbitrary: r t0)
  case (Cons e es)
  let ?t = "case beat_time sid e of Some u \<Rightarrow> u | None \<Rightarrow> t0"
  have last: "last (t0 # beats sid (e # xs)) = last (?t # beats sid xs)" for xs by (simp split: option.split)
  have "alive (reg_step r e) sid ttl ?t"
    using Cons.prems(1-6) Cons.prems(7) [of "[]" e es] by (intro alive_step) auto
  moreover have "reg_inv (reg_step r e)" using Cons.prems(1,2) reg_step_inv by simp
  moreover have "u \<le> last (?t # beats sid xs) + ttl"
    if "es = xs @ e' # ys" "beat_time sid e' = None" "look_time sid e' = Some u" for xs e' ys u
    using Cons.prems(7) [of "e # xs" e' ys u] that unfolding last by simp
  ultimately have "alive (foldl reg_step (reg_step r e) es) sid ttl (last (?t # beats sid es))"
    using Cons.prems(2,3,5,6) by (intro Cons.IH) simp_all
  then show ?case unfolding last by simp
qed simp

lemma sorted_last_ge: "sorted xs \<Longrightarrow> x \<in> set xs \<Longrightarrow> x \<le> last xs"
  by (induction xs) (auto simp: order.trans)

text \<open>A clean-up at time \<open>u\<close> comes at most the time to live after the last heartbeat before it.\<close>

lemma beat_in_time:
  fixes t0 u i lag ttl :: int
  assumes "0 < i" and "i + lag \<le> ttl" and "\<And>k. 1 \<le> k \<Longrightarrow> t0 + k * i + lag < u \<Longrightarrow> \<exists>h \<in> B. t0 + k * i \<le> h \<and> h \<le> t0 + k * i + lag"
  shows "u \<le> t0 + ttl \<or> (\<exists>h \<in> B. h < u \<and> u \<le> h + ttl)"
proof (cases "u \<le> t0 + i + lag")
  case False
  define k where "k = (u - t0 - lag - 1) div i"
  have "u - t0 - lag - 1 = k * i + (u - t0 - lag - 1) mod i" by (simp add: k_def)
  moreover have "0 \<le> (u - t0 - lag - 1) mod i" "(u - t0 - lag - 1) mod i < i" using assms(1) by simp_all
  ultimately have k: "k * i \<le> u - t0 - lag - 1" "u - t0 - lag - 1 < k * i + i" by linarith+
  have "\<not> k \<le> 0" using k(2) False mult_nonpos_nonneg [of k i] assms(1) by auto
  then obtain h where "h \<in> B" "t0 + k * i \<le> h" "h \<le> t0 + k * i + lag" using assms(3) [of k] k(1) by auto
  then show ?thesis using assms(2) k by (intro disjI2 bexI [of _ h]) linarith+
qed (use assms(2) in simp)

text \<open>C18: a registered service that sends its heartbeats is never expired. The server beats every half of its time to live; as long as each
  beat reaches the registry within a lag that leaves the other half, and no client registers or deregisters the same ID again, the entry and its
  time to live stay, whatever clients register, remove and renew under other IDs and whenever the clean-up runs in between.\<close>

theorem heartbeats_keep_alive:
  assumes "reg_inv r" and "legal_run reg_step reg_legal r es" and "list_all (spares sid) es"
    and "services r sid = Some svc" and "2 \<le> sv_TTL svc" "sv_TTL svc < max_int64"
    and "t0 = sv_LastHeartbeat svc" and "i = heartbeat_interval (sv_TTL svc)" and "i + lag \<le> sv_TTL svc"
    and "sorted (t0 # looks sid es)"
    and "\<forall>k \<ge> 1. (\<exists>u \<in> set (looks sid es). t0 + k * i + lag < u) \<longrightarrow>
      (\<exists>h \<in> set (beats sid es). t0 + k * i \<le> h \<and> h \<le> t0 + k * i + lag)"
  shows "\<exists>svc'. services (foldl reg_step r es) sid = Some svc' \<and> sv_TTL svc' = sv_TTL svc"
proof -
  let ?ttl = "sv_TTL svc"
  have i: "0 < i" using assms(5,8) by (auto simp: heartbeat_interval_def go_div_nonneg Let_def)
  have "u \<le> last (t0 # beats sid xs) + ?ttl"
    if es: "es = xs @ e # ys" and e: "beat_time sid e = None" "look_time sid e = Some u" for xs e ys u
  proof -
    have beats: "beats sid es = beats sid xs @ beats sid ys" using es e by simp
    have srt: "sorted (t0 # looks sid xs @ u # looks sid ys)" using assms(10) es e by simp
    have "sorted (t0 # beats sid xs)"
      using srt by (intro sorted_beats) (simp add: sorted_append)
    note last = sorted_last_ge [OF this]
    have "u \<in> set (looks sid es)" using es e by simp
    then have "\<exists>h \<in> set (beats sid es). t0 + k * i \<le> h \<and> h \<le> t0 + k * i + lag" if "1 \<le> k" "t0 + k * i + lag < u" for k
      using assms(11) that by blast
    then consider "u \<le> t0 + ?ttl" | h where "h \<in> set (beats sid es)" "h < u" "u \<le> h + ?ttl"
      using beat_in_time [OF i assms(9), of t0 u "set (beats sid es)"] by blast
    then show ?thesis
    proof cases
      case 1
      then show ?thesis using last [of t0] by simp
    next
      case (2 h)
      have "h \<notin> set (beats sid ys)" using 2(2) srt beats_looks [of sid ys] by (fastforce simp: sorted_append)
      then show ?thesis using 2 last [of h] by (auto simp: beats)
    qed
  qed
  then have "alive (foldl reg_step r es) sid ?ttl (last (t0 # beats sid es))"
    using assms by (intro alive_run) (auto simp: alive_def)
  then show ?thesis by (auto simp: alive_def)
qed

text \<open>The condition on the ID is needed. The registry has no owner of an ID: a client that registers an ID in use replaces its entry, and with a short
  time to live the entry goes at the next clean-up, whatever heartbeats the first owner goes on sending afterwards.\<close>

theorem same_id_takes_over:
  assumes "reg_inv r" and "services r sid = Some svc" and "sv_ID svc' = sid" and "0 < sv_TTL svc'" and "sv_TTL svc' < max_int64"
    and "r1 = reg_step r (OpRegister now rnd svc')" and "length rnd = 4" and "iteration_order order r1" and "now + sv_TTL svc' < clock sid"
  shows "services (reg_step r1 (OpCleanup t clock order)) sid = None"
proof -
  let ?svc = "reg_entry now rnd svc' r"
  have "sid \<noteq> []" using assms(1,2) by (auto simp: reg_inv_def)
  then have sid: "sv_ID ?svc = sid" using assms(3) by simp
  have "\<not> reg_full r (sv_ID ?svc)" unfolding sid using assms(2) by (simp add: reg_full_def)
  note reg = reg_Register_ok [OF this]
  have "services r1 = (services r)(sid \<mapsto> ?svc)"
    unfolding assms(6) reg_step.simps reg case_prod_unfold Let_def sid by (simp add: notify_services)
  then have found: "services r1 sid = Some ?svc" by simp
  have inv: "reg_inv r1" unfolding assms(6) using reg_Register_inv [OF assms(1,7)] by simp
  have "sv_TTL ?svc = sv_TTL svc'" by (simp add: reg_entry_def Let_def)
  then have "IsExpired (clock sid) d ?svc" for d
    using assms(4,5,9) by (simp add: IsExpired_def Let_def time_Sub_gt_iff min_int64_def)
  then show ?thesis using cleanupExpired_services [OF inv assms(8), of t clock sid] found by simp
qed

text \<open>A service with a time to live of four seconds, a late heartbeat and clean-ups around it.\<close>

definition beating :: Registry where
  "beating = (reg_New reg_DefaultConfig)\<lparr>services := [''e1'' \<mapsto> sample_service\<lparr>sv_ID := ''e1'', sv_Weight := 1, sv_TTL := 4 * Second\<rparr>]\<rparr>"

theorem heartbeats_keep_alive_witness:
  "services (foldl reg_step beating [OpHeartbeat (3 * Second) ''e1'', OpCleanup (6 * Second) (\<lambda>_. 6 * Second) [''e1'']]) ''e1'' \<noteq> None"
proof -
  let ?svc = "sample_service\<lparr>sv_ID := ''e1'', sv_Weight := 1, sv_TTL := 4 * Second\<rparr>"
  let ?es = "[OpHeartbeat (3 * Second) ''e1'', OpCleanup (6 * Second) (\<lambda>_. 6 * Second) [''e1'']]"
  have inv: "reg_inv beating" by (simp add: beating_def reg_inv_def reg_New_def reg_Count_def reg_DefaultConfig_def sample_service_def)
  have legal: "legal_run reg_step reg_legal beating ?es"
    by (auto simp: beating_def iteration_order_def reg_Heartbeat_def)
  have times: "looks ''e1'' ?es = [3 * Second, 6 * Second]" "beats ''e1'' ?es = [3 * Second]"
    by (simp_all add: look_time_def beat_time_def)
  have i: "2 * Second = heartbeat_interval (sv_TTL ?svc)" by (simp add: heartbeat_interval_def go_div_nonneg Second_def)
  have "t * (2 * Second) + 2 * Second < 6 * Second \<longleftrightarrow> t < 2" for t :: int by (simp add: Second_def)
  then have sched: "\<forall>k \<ge> 1. (\<exists>u \<in> set (looks ''e1'' ?es). 0 + k * (2 * Second) + 2 * Second < u) \<longrightarrow>
      (\<exists>h \<in> set (beats ''e1'' ?es). 0 + k * (2 * Second) \<le> h \<and> h \<le> 0 + k * (2 * Second) + 2 * Second)"
    unfolding times by (auto simp: Second_def)
  have "\<exists>svc'. services (foldl reg_step beating ?es) ''e1'' = Some svc' \<and> sv_TTL svc' = sv_TTL ?svc"
    by (rule heartbeats_keep_alive [OF inv legal _ _ _ _ _ i _ _ sched])
      (simp_all add: look_time_def beat_time_def beating_def sample_service_def Second_def max_int64_def)
  then show ?thesis by auto
qed

theorem registered_id_works_witness:
  "register [\<lparr>at_resp = Inl ''connection refused'', at_done = False\<rparr>, \<lparr>at_resp = Inr (201, register_reply ''00020304''), at_done = False\<rparr>] =
    Some ''00020304''"
proof -
  let ?env = "sample_env\<lparr>env_decode := Inr \<lparr>rq_ID = [], rq_Name = ''api'', rq_Address = ''10.0.0.5:80'', rq_Tags = [],
      rq_Metadata = Map.empty, rq_Weight = 0, rq_TTL = []\<rparr>\<rparr>"
  let ?r = "reg_New reg_DefaultConfig"
  have full: "\<not> reg_full ?r sid" for sid by (simp add: reg_full_def reg_New_def reg_DefaultConfig_def)
  have sid: "generateID [0, 2, 3, 4] = ''00020304''" unfolding generateID_def hex_EncodeToString_def hex_digit_def hex_table_def by code_simp
  obtain p r' where "reg_ServeHTTP ?env ''POST'' register_path ?r =
      ((p, \<lparr>rp_status = 201, rp_ContentType = ''application/json'', rp_Allow = [], rp_body = RegisterResponse ''00020304''\<rparr>), r')"
    by (simp add: register_path_def ServeHTTP_post handleRegister_def sample_env_def reg_Register_ok [OF full] case_prod_unfold Let_def
        writeJSON_def reg_entry_def sid)
  from registered_id_works [OF reg_New_inv _ _ _ this, where failed = "[\<lparr>at_resp = Inl ''connection refused'', at_done = False\<rparr>]"
      and att = "\<lparr>at_resp = Inr (201, register_reply ''00020304''), at_done = False\<rparr>" and rest = "[]"]
  show ?thesis by (simp add: sample_env_def attempt_id_def)
qed

theorem parseTags_roundtrip_witness: "parseTags ''tcp,echo'' = [''tcp'', ''echo'']"
proof -
  have "list_all (\<lambda>p. p \<noteq> [] \<and> CHR '','' \<notin> set p \<and> leading_space p = None \<and> trailing_space p = None) [''tcp'', ''echo'']"
    by (simp add: leading_space_def trailing_space_def space_runes_def EncodeRune_def HasPrefix_def HasSuffix_def suffix_to_prefix char_of_def)
  then show ?thesis using parseTags_roundtrip [of "[''tcp'', ''echo'']" "[]"] by simp
qed

text \<open>The payload of a registration reads back as it was built.\<close>

theorem payload_parses:
  assumes "ascii name" "ascii address" "ascii ttl" and "list_all ascii (parseTags tagsCSV)"
  shows "json_parse (json_print (register_payload name address tagsCSV weight ttl)) = Some (register_payload name address tagsCSV weight ttl)"
proof -
  let ?p = "register_payload name address tagsCSV weight ttl"
  have "json_plain (JArr (map JStr (parseTags tagsCSV)))" using assms(4) by (auto simp: list_all_iff)
  moreover have "foldr (\<lambda>j. max (json_depth j)) (map JStr xs) 0 = 0" for xs by (induction xs) simp_all
  ultimately have "json_plain ?p" "json_depth ?p \<le> max_depth"
    using assms(1-3) by (auto simp: register_payload_def ascii_def max_depth_def)
  from json_parse_print [OF this, of "[]"] show ?thesis by simp
qed

text \<open>A heartbeat that the registry rejects, because the entry is gone, changes nothing: the server goes on beating and never
  registers again.\<close>

theorem rejected_beats_go_on:
  "heartbeat_loop (map (Tick \<circ> Inr) codes) = map (\<lambda>c. if 200 \<le> c \<and> c < 300 then BeatOk else BeatRejected c) codes"
  by (induction codes) (simp_all add: beat_of_def)

text \<open>What is echoed is a prefix of what was read, and all of it when no error occurs before the end.\<close>

theorem handleConn_echo:
  "handleConn reads writes = Some (out, warned) \<Longrightarrow> prefix out (concat (chunks reads))"
  using CopyBuffer_prefix [of reads writes "[]"] by (auto simp: handleConn_def split: option.splits)

end
