(* ===== verification/LoadTools.thy ===== *)
theory LoadTools
  imports Complex_Main Go_Prelude
begin

text \<open>
  The load generators of \<^verbatim>\<open>scripts/load-http\<close> and \<^verbatim>\<open>scripts/load-tcp\<close>: the pool of workers behind a
  buffered channel, the counters, the keep-alive connections of the TCP workers, and the summary. The two programs share the
  shape of the dispatcher. A step is one step of the dispatcher or of one worker, in any order; what a request comes to is
  an argument of the step. The counters are \<^verbatim>\<open>uint64\<close>.
\<close>

section \<open>The summary\<close>

definition max_int :: "int \<Rightarrow> int \<Rightarrow> int" where
  "max_int a b = (if a > b then a else b)"

definition ticker_interval :: "int \<Rightarrow> duration" where
  "ticker_interval rate = go_div Second (max_int 1 rate)"

text \<open>\<open>x\<close> is the product of the fraction and the number of latencies in floating point.\<close>

definition percentile_index :: "rat \<Rightarrow> nat \<Rightarrow> int" where
  "percentile_index x n =
    (let idx = \<lceil>x\<rceil> - 1; idx = (if idx < 0 then 0 else idx)
     in if idx \<ge> int n then int n - 1 else idx)"

definition percentile :: "(rat \<Rightarrow> rat) \<Rightarrow> duration list \<Rightarrow> rat \<Rightarrow> duration" where
  "percentile rnd latencies p =
    (if latencies = [] then 0
     else sort latencies ! nat (percentile_index (rnd (p * rnd (of_nat (length latencies)))) (length latencies)))"

record summary =
  sum_total :: "64 word"
  sum_success :: "64 word"
  sum_failure :: "64 word"
  sum_avg :: duration
  sum_p95 :: duration
  sum_p99 :: duration

text \<open>Sums of durations wrap like any \<^verbatim>\<open>int64\<close>; \<open>p95\<close> and \<open>p99\<close> are the constants as floating point numbers.\<close>

definition total_latency :: "duration list \<Rightarrow> duration" where
  "total_latency latencies = sint (foldl (\<lambda>acc l. acc + word_of_int l) (0 :: 64 word) latencies)"

definition printSummary :: "(rat \<Rightarrow> rat) \<Rightarrow> rat \<Rightarrow> rat \<Rightarrow> 64 word \<Rightarrow> 64 word \<Rightarrow> duration list \<Rightarrow> summary" where
  "printSummary rnd p95 p99 success failure latencies =
    \<lparr>sum_total = success + failure, sum_success = success, sum_failure = failure,
     sum_avg = (if length latencies > 0 then go_div (total_latency latencies) (int (length latencies)) else 0),
     sum_p95 = percentile rnd latencies p95, sum_p99 = percentile rnd latencies p99\<rparr>"

section \<open>The workers\<close>

text \<open>What a request came to: an error, or a status.\<close>

datatype outcome = NoResponse | Status int

definition http_success :: "outcome \<Rightarrow> bool" where
  "http_success x = (case x of NoResponse \<Rightarrow> False | Status c \<Rightarrow> c \<ge> 200 \<and> c < 300)"

text \<open>The state: the items in the channel, whether it is closed, the workers that wait, work and have returned, and
  the counters. \<open>ld_sent\<close> counts the items that the dispatcher has put into the channel.\<close>

record load =
  ld_cap :: nat
  ld_queue :: nat
  ld_closed :: bool
  ld_idle :: nat
  ld_busy :: nat
  ld_left :: nat
  ld_success :: "64 word"
  ld_failure :: "64 word"
  ld_latencies :: "duration list"
  ld_sent :: nat

definition start_load :: "nat \<Rightarrow> load" where
  "start_load concurrency =
    \<lparr>ld_cap = concurrency, ld_queue = 0, ld_closed = False, ld_idle = concurrency, ld_busy = 0, ld_left = 0,
     ld_success = 0, ld_failure = 0, ld_latencies = [], ld_sent = 0\<rparr>"

text \<open>A tick: an item, if the channel has room. With no workers there is no room.\<close>

definition offer :: "load \<Rightarrow> load" where
  "offer s = (if ld_queue s < ld_cap s then s\<lparr>ld_queue := ld_queue s + 1, ld_sent := ld_sent s + 1\<rparr> else s)"

definition finish :: "outcome \<Rightarrow> duration \<Rightarrow> load \<Rightarrow> load" where
  "finish x latency s =
    (let s1 = (if http_success x then s\<lparr>ld_success := ld_success s + 1\<rparr> else s\<lparr>ld_failure := ld_failure s + 1\<rparr>)
     in s1\<lparr>ld_latencies := ld_latencies s @ [latency], ld_busy := ld_busy s - 1, ld_idle := ld_idle s + 1\<rparr>)"

inductive load_step :: "load \<Rightarrow> load \<Rightarrow> bool" where
  tick: "\<not> ld_closed s \<Longrightarrow> load_step s (offer s)"
| close_work: "\<not> ld_closed s \<Longrightarrow> load_step s (s\<lparr>ld_closed := True\<rparr>)"
| take_item: "0 < ld_idle s \<Longrightarrow> 0 < ld_queue s \<Longrightarrow>
    load_step s (s\<lparr>ld_queue := ld_queue s - 1, ld_idle := ld_idle s - 1, ld_busy := ld_busy s + 1\<rparr>)"
| request_done: "0 < ld_busy s \<Longrightarrow> load_step s (finish x latency s)"
| return: "ld_closed s \<Longrightarrow> ld_queue s = 0 \<Longrightarrow> 0 < ld_idle s \<Longrightarrow> load_step s (s\<lparr>ld_idle := ld_idle s - 1, ld_left := ld_left s + 1\<rparr>)"

text \<open>\<^verbatim>\<open>wg.Wait()\<close> returns when all the workers have.\<close>

definition all_left :: "load \<Rightarrow> bool" where
  "all_left s \<longleftrightarrow> ld_closed s \<and> ld_idle s = 0 \<and> ld_busy s = 0"

section \<open>A TCP worker\<close>

definition crlf :: string where
  "crlf = [CHR 0x0D, CHR 0x0A]"

definition buildHTTPRequest :: "string \<Rightarrow> bool \<Rightarrow> string" where
  "buildHTTPRequest path keepalive =
    (let connHeader = (if keepalive then ''keep-alive'' else ''close'')
     in ''GET '' @ path @ '' HTTP/1.1'' @ crlf @ ''Host: localhost'' @ crlf @ ''Connection: '' @ connHeader @ crlf @
        ''User-Agent: load-tcp/1.0'' @ crlf @ crlf)"

text \<open>What one item meets: whether a dial succeeds, whether the request can be written, the status and the sizes
  of the reads of the body, or no response.\<close>

record exchange =
  ex_dial :: bool
  ex_write :: bool
  ex_response :: "(int \<times> nat list) option"

record tcp_worker =
  tw_conn :: bool
  tw_opened :: nat
  tw_closed :: nat
  tw_success :: "64 word"
  tw_failure :: "64 word"
  tw_bytes :: "64 word"

definition new_worker :: tcp_worker where
  "new_worker = \<lparr>tw_conn = False, tw_opened = 0, tw_closed = 0, tw_success = 0, tw_failure = 0, tw_bytes = 0\<rparr>"

definition tw_fail :: "tcp_worker \<Rightarrow> tcp_worker" where
  "tw_fail w = w\<lparr>tw_failure := tw_failure w + 1\<rparr>"

definition tw_close :: "tcp_worker \<Rightarrow> tcp_worker" where
  "tw_close w = w\<lparr>tw_closed := tw_closed w + 1, tw_conn := False\<rparr>"

definition tcp_item :: "bool \<Rightarrow> exchange \<Rightarrow> tcp_worker \<Rightarrow> tcp_worker" where
  "tcp_item keepalive x w =
    (if \<not> tw_conn w \<and> \<not> ex_dial x then tw_fail w
     else
       (let w1 = (if tw_conn w then w else w\<lparr>tw_conn := True, tw_opened := tw_opened w + 1\<rparr>)
        in if \<not> ex_write x then tw_close (tw_fail w1)
           else (case ex_response x of
                   None \<Rightarrow> tw_close (tw_fail w1)
                 | Some (StatusCode, reads) \<Rightarrow>
                     (let w2 = w1\<lparr>tw_bytes := foldl (\<lambda>acc n. acc + of_nat n) (tw_bytes w1) reads\<rparr>;
                          w3 = (if StatusCode \<ge> 200 \<and> StatusCode < 400 then w2\<lparr>tw_success := tw_success w2 + 1\<rparr> else tw_fail w2)
                      in if \<not> keepalive then tw_close w3 else w3))))"

definition tcp_worker_run :: "bool \<Rightarrow> exchange list \<Rightarrow> tcp_worker" where
  "tcp_worker_run keepalive xs =
    (let w = fold (tcp_item keepalive) xs new_worker in if tw_conn w then tw_close w else w)"

text \<open>The results, as rationals before they are formatted; \<^verbatim>\<open>int(total)\<close> is the signed reading.\<close>

record results =
  res_total :: "64 word"
  res_rate :: rat
  res_successRate :: rat
  res_throughput :: rat

definition printResults :: "(rat \<Rightarrow> rat) \<Rightarrow> 64 word \<Rightarrow> 64 word \<Rightarrow> 64 word \<Rightarrow> rat \<Rightarrow> results" where
  "printResults rnd success failure totalBytes elapsed =
    (let total = success + failure
     in \<lparr>res_total = total,
         res_rate = rnd (rnd (of_int (uint total)) / elapsed),
         res_successRate = rnd (rnd (rnd (of_int (uint success)) / rnd (of_int (max_int 1 (sint total)))) * 100),
         res_throughput = rnd (rnd (rnd (rnd (of_int (uint totalBytes)) / elapsed) / 1024) / 1024)\<rparr>)"

section \<open>The ticker\<close>

text \<open>Above a billion requests per second the interval is zero, for which there is no ticker.\<close>

theorem ticker_interval_panics: "ticker_panics (ticker_interval rate) \<longleftrightarrow> Second < rate"
proof (cases "1 < rate")
  case True
  then have "0 < Second div rate \<longleftrightarrow> rate \<le> Second" by (intro pos_imp_zdiv_pos_iff) simp
  then show ?thesis using True by (auto simp: ticker_panics_def ticker_interval_def max_int_def go_div_nonneg Second_def)
qed (simp add: ticker_panics_def ticker_interval_def max_int_def go_div_nonneg Second_def)

section \<open>Every item is counted once\<close>

definition load_inv :: "nat \<Rightarrow> load \<Rightarrow> bool" where
  "load_inv n s \<longleftrightarrow> ld_cap s = n \<and> ld_queue s \<le> n \<and> ld_idle s + ld_busy s + ld_left s = n \<and>
    ld_sent s = ld_queue s + ld_busy s + length (ld_latencies s) \<and>
    ld_success s + ld_failure s = of_nat (length (ld_latencies s)) \<and>
    (0 < ld_left s \<longrightarrow> ld_closed s \<and> ld_queue s = 0)"

lemma load_step_inv: "load_step s s' \<Longrightarrow> load_inv n s \<Longrightarrow> load_inv n s'"
  by (induction rule: load_step.induct) (auto simp: load_inv_def offer_def finish_def Let_def add.assoc add.commute add.left_commute)

interpretation load_sys: step_system load_step "load_inv n" for n
  by unfold_locales (rule load_step_inv)

lemma load_reach_inv: "load_step\<^sup>*\<^sup>* (start_load n) s \<Longrightarrow> load_inv n s"
  by (erule load_sys.reach_keeps) (simp add: load_inv_def start_load_def)

text \<open>C33: the figures of a load test add up: when all the workers have returned, whatever the interleaving of the ticks and of
  the requests, every item that was put into the channel has been counted as one success or one failure
  and has one latency, and the channel is empty.\<close>

theorem load_accounted:
  assumes "load_step\<^sup>*\<^sup>* (start_load n) s" and "all_left s" and "0 < n"
  shows "ld_queue s = 0 \<and> length (ld_latencies s) = ld_sent s \<and> ld_success s + ld_failure s = of_nat (ld_sent s) \<and>
    sum_total (printSummary rnd p95 p99 (ld_success s) (ld_failure s) (ld_latencies s)) = of_nat (ld_sent s)"
  using load_reach_inv [OF assms(1)] assms(2,3) by (auto simp: load_inv_def all_left_def printSummary_def)

text \<open>Once the channel is closed the workers return: every run of steps from there is finite, and it can
  only stop when all of them have returned.\<close>

definition work_left :: "load \<Rightarrow> nat" where
  "work_left s = 3 * ld_queue s + 2 * ld_busy s + ld_idle s"

lemma closed_step: "load_step s s' \<Longrightarrow> ld_closed s \<Longrightarrow> ld_closed s' \<and> work_left s' < work_left s"
  by (induction rule: load_step.induct) (auto simp: work_left_def finish_def Let_def)

theorem workers_return:
  assumes "ld_closed s"
  shows "(\<forall>f. f 0 = s \<longrightarrow> \<not> (\<forall>k. load_step (f k) (f (Suc k)))) \<and> ((\<forall>s'. \<not> load_step s s') \<longleftrightarrow> all_left s)"
proof
  have False if start: "f 0 = s" and steps: "\<forall>k. load_step (f k) (f (Suc k))" for f
  proof -
    have "ld_closed (f k) \<and> work_left (f k) + k \<le> work_left s" for k
    proof (induction k)
      case 0
      then show ?case using assms start by simp
    next
      case (Suc k)
      then show ?case using closed_step steps by fastforce
    qed
    from this [of "Suc (work_left s)"] show False by simp
  qed
  then show "\<forall>f. f 0 = s \<longrightarrow> \<not> (\<forall>k. load_step (f k) (f (Suc k)))" by blast
  have "\<exists>s'. load_step s s'" if "\<not> all_left s"
  proof (cases "0 < ld_busy s")
    case False
    then have "0 < ld_idle s" using that assms by (simp add: all_left_def)
    then show ?thesis using take_item return assms by (cases "ld_queue s = 0") blast+
  qed (use request_done in blast)
  moreover have "\<not> load_step s s'" if "all_left s" for s'
    using that by (auto simp: all_left_def elim: load_step.cases)
  ultimately show "(\<forall>s'. \<not> load_step s s') \<longleftrightarrow> all_left s" by blast
qed

theorem load_accounted_witness:
  "\<exists>s. load_step\<^sup>*\<^sup>* (start_load 1) s \<and> all_left s \<and> ld_sent s = 1 \<and> ld_success s + ld_failure s = 1"
proof -
  let ?s0 = "start_load 1"
  let ?s1 = "offer ?s0"
  let ?s2 = "?s1\<lparr>ld_queue := ld_queue ?s1 - 1, ld_idle := ld_idle ?s1 - 1, ld_busy := ld_busy ?s1 + 1\<rparr>"
  let ?s3 = "finish (Status 200) 5 ?s2"
  let ?s4 = "?s3\<lparr>ld_closed := True\<rparr>"
  let ?s5 = "?s4\<lparr>ld_idle := ld_idle ?s4 - 1, ld_left := ld_left ?s4 + 1\<rparr>"
  note defs = start_load_def offer_def finish_def http_success_def Let_def
  have "load_step ?s0 ?s1" by (rule tick) (simp add: defs)
  moreover have "load_step ?s1 ?s2" by (rule take_item) (simp_all add: defs)
  moreover have "load_step ?s2 ?s3" by (rule request_done) (simp add: defs)
  moreover have "load_step ?s3 ?s4" by (rule close_work) (simp add: defs)
  moreover have "load_step ?s4 ?s5" by (rule return) (simp_all add: defs)
  ultimately have run: "load_step\<^sup>*\<^sup>* ?s0 ?s5" by (meson converse_rtranclp_into_rtranclp rtranclp.rtrancl_refl)
  have left: "all_left ?s5" and sent: "ld_sent ?s5 = 1" by (simp_all add: all_left_def defs)
  have "ld_success ?s5 + ld_failure ?s5 = of_nat (ld_sent ?s5)" using load_accounted [OF run left] by simp
  with run left sent show ?thesis by (intro exI [of _ ?s5]) (simp only: of_nat_1 simp_thms)
qed

section \<open>The connections of a TCP worker\<close>

definition tw_inv :: "nat \<Rightarrow> tcp_worker \<Rightarrow> bool" where
  "tw_inv n w \<longleftrightarrow> tw_opened w = tw_closed w + (if tw_conn w then 1 else 0) \<and> tw_opened w \<le> n \<and> tw_success w + tw_failure w = of_nat n"

lemma tcp_item_inv: "tw_inv n w \<Longrightarrow> tw_inv (Suc n) (tcp_item keepalive x w)"
  by (auto simp: tw_inv_def tcp_item_def tw_fail_def tw_close_def Let_def add.commute add.left_commute split: option.splits prod.splits)

lemma tcp_items_inv: "tw_inv n w \<Longrightarrow> tw_inv (n + length xs) (fold (tcp_item keepalive) xs w)"
proof (induction xs arbitrary: n w)
  case (Cons x xs)
  then show ?case using tcp_item_inv [of n w keepalive x] Cons.IH [of "Suc n"] by simp
qed simp

text \<open>A worker of the TCP load generator closes every connection it opens, opens at most one for each item, and counts
  each item once.\<close>

theorem tcp_worker_balanced:
  "tw_opened (tcp_worker_run keepalive xs) = tw_closed (tcp_worker_run keepalive xs) \<and>
   tw_opened (tcp_worker_run keepalive xs) \<le> length xs \<and>
   tw_success (tcp_worker_run keepalive xs) + tw_failure (tcp_worker_run keepalive xs) = of_nat (length xs)"
proof -
  have "tw_inv 0 new_worker" by (simp add: tw_inv_def new_worker_def)
  from tcp_items_inv [OF this, of xs keepalive] show ?thesis
    by (auto simp: tw_inv_def tcp_worker_run_def tw_close_def Let_def)
qed

section \<open>Percentiles\<close>

lemma sorted_rank:
  fixes xs :: "int list"
  assumes "sorted xs" and "i < length xs"
  shows "length (filter (\<lambda>y. y < xs ! i) xs) \<le> i" and "i < length (filter (\<lambda>y. y \<le> xs ! i) xs)"
proof -
  have split: "filter P xs = filter P (take k xs) @ filter P (drop k xs)" for P k
    by (metis append_take_drop_id filter_append)
  have "filter (\<lambda>y. y < xs ! i) (drop i xs) = []"
    using assms by (auto simp: filter_empty_conv in_set_conv_nth sorted_iff_nth_mono)
      (metis add.commute le_add1 less_diff_conv not_le sorted_nth_mono)
  then have "filter (\<lambda>y. y < xs ! i) xs = filter (\<lambda>y. y < xs ! i) (take i xs)" using split [of _ i] by simp
  then show "length (filter (\<lambda>y. y < xs ! i) xs) \<le> i"
    using length_filter_le [of "\<lambda>y. y < xs ! i" "take i xs"] by simp
  have "filter (\<lambda>y. y \<le> xs ! i) (take (Suc i) xs) = take (Suc i) xs"
    using assms by (auto simp: filter_id_conv in_set_conv_nth less_Suc_eq_le sorted_iff_nth_mono)
  then have "Suc i \<le> length (filter (\<lambda>y. y \<le> xs ! i) xs)" using split [of _ "Suc i"] assms(2) by simp
  then show "i < length (filter (\<lambda>y. y \<le> xs ! i) xs)" by simp
qed

lemma clamp:
  "0 < n \<Longrightarrow> (let idx = c - 1; idx = (if idx < 0 then 0 else idx) in if idx \<ge> int n then int n - 1 else idx) = max 1 (min (int n) c) - 1"
  by (auto simp: Let_def)

text \<open>A percentile is one of the latencies, by the nearest rank: with \<open>r\<close> the rank, the product of the fraction and the number of latencies rounded up and kept
  between one and that number, fewer than \<open>r\<close> of the latencies are below the result and at least \<open>r\<close> are at most the
  result, whatever the rounding of the floating point product.\<close>

theorem percentile_nearest_rank:
  assumes "latencies \<noteq> []" and "r = max 1 (min (int (length latencies)) \<lceil>rnd (p * rnd (of_nat (length latencies)))\<rceil>)"
    and "v = percentile rnd latencies p"
  shows "v \<in> set latencies \<and> int (length (filter (\<lambda>y. y < v) latencies)) < r \<and> r \<le> int (length (filter (\<lambda>y. y \<le> v) latencies))"
proof -
  let ?n = "length latencies"
  let ?i = "nat (r - 1)"
  have "percentile_index (rnd (p * rnd (of_nat ?n))) ?n = r - 1"
    unfolding percentile_index_def assms(2) by (rule clamp) (use assms(1) in simp)
  then have v: "v = sort latencies ! ?i" using assms(1,3) by (simp add: percentile_def)
  have "1 \<le> r" "r \<le> int ?n" using assms(1,2) by (cases latencies; auto)+
  then have i: "?i < length (sort latencies)" "int ?i = r - 1" by auto
  have perm: "length (filter P (sort latencies)) = length (filter P latencies)" for P
    by (metis mset_filter mset_sort size_mset)
  have "v \<in> set (sort latencies)" unfolding v using i(1) by (rule nth_mem)
  then show ?thesis using sorted_rank [OF sorted_sort i(1)] i(2) unfolding v [symmetric] perm set_sort by linarith
qed

theorem percentile_nearest_rank_witness: "percentile id [5, 1, 3] (95 / 100) = (5 :: int)"
proof -
  have "percentile id [5, 1, 3] (95 / 100) \<in> set [5, 1, 3 :: int] \<and>
      int (length (filter (\<lambda>y. y < percentile id [5, 1, 3] (95 / 100)) [5, 1, 3])) < 3 \<and>
      3 \<le> int (length (filter (\<lambda>y. y \<le> percentile id [5, 1, 3] (95 / 100)) [5, 1, 3]))"
    by (rule percentile_nearest_rank [of "[5, 1, 3]" _ id "95 / 100"]) simp_all
  then show ?thesis by auto
qed

end
