(* ===== verification/Sluice.thy ===== *)
theory Sluice
  imports Middleware TCPProxy Config Health RegistryHandler
begin

text \<open>
  The wiring of \<^verbatim>\<open>cmd/sluice/main.go\<close>: what \<^verbatim>\<open>main\<close> builds from the configuration, the
  handler of the HTTP listener, hot reload and the registry watcher, which both replace the list
  of backends, the file watcher, the admin handlers and the sources of the exported metrics.
\<close>

section \<open>Backends\<close>

definition pool_config :: "TCPPoolConfig \<Rightarrow> PoolConfig option" where
  "pool_config t =
    (if tc_Enabled t
     then (let cfg0 = DefaultPoolConfig;
               cfg1 = (if tc_MaxIdle t > 0 then cfg0\<lparr>MaxIdle := tc_MaxIdle t\<rparr> else cfg0);
               cfg2 = (if tc_IdleTimeout t > 0 then cfg1\<lparr>IdleTimeout := tc_IdleTimeout t\<rparr> else cfg1);
               cfg3 = (if tc_MaxLifetime t > 0 then cfg2\<lparr>MaxLifetime := tc_MaxLifetime t\<rparr> else cfg2)
           in Some cfg3)
     else None)"

definition new_pooled :: "TCPPoolConfig \<Rightarrow> Backend \<Rightarrow> heap \<Rightarrow> backend_ref \<times> heap" where
  "new_pooled t v h = (let (b, h1) = alloc_backend v h in (b, b_EnablePooling (pool_config t) b h1))"

definition backend_of :: "BackendConfig \<Rightarrow> Backend" where
  "backend_of b = (if bc_Weight b > 1 then NewBackendWithWeight (bc_Addr b) (bc_Weight b) else NewBackend (bc_Addr b))"

fun build_all :: "TCPPoolConfig \<Rightarrow> Backend list \<Rightarrow> heap \<Rightarrow> backend_ref list \<times> heap" where
  "build_all t [] h = ([], h)"
| "build_all t (v # vs) h =
     (let (b, h1) = new_pooled t v h; (bs, h2) = build_all t vs h1 in (b # bs, h2))"

definition buildBackends :: "Config \<Rightarrow> heap \<Rightarrow> backend_ref list \<times> heap" where
  "buildBackends cfg h = build_all (s_TCPPool (Server cfg)) (map backend_of (s_Backends (Server cfg))) h"

definition service_backend :: "Service \<Rightarrow> Backend" where
  "service_backend svc = NewBackendWithWeight (sv_Address svc) (sv_Weight svc)"

text \<open>\<open>order\<close> is the order in which \<^verbatim>\<open>reg.List()\<close> visits the services.\<close>

definition buildBackendsFromRegistry :: "string list \<Rightarrow> Registry \<Rightarrow> Config \<Rightarrow> heap \<Rightarrow> backend_ref list \<times> heap" where
  "buildBackendsFromRegistry order reg cfg h =
    (let (bs, h1) = buildBackends cfg h;
         (bs', h2) = build_all (s_TCPPool (Server cfg)) (map service_backend (reg_List order reg)) h1
     in (bs @ bs', h2))"

fun entries_differ :: "BackendConfig list \<Rightarrow> BackendConfig list \<Rightarrow> bool" where
  "entries_differ (x # xs) (y # ys) =
     (if bc_Addr x \<noteq> bc_Addr y then True else if bc_Weight x \<noteq> bc_Weight y then True else entries_differ xs ys)"
| "entries_differ _ _ = False"

definition backendsChanged :: "Config \<Rightarrow> Config \<Rightarrow> bool" where
  "backendsChanged old new =
    (if length (s_Backends (Server old)) \<noteq> length (s_Backends (Server new)) then True
     else entries_differ (s_Backends (Server old)) (s_Backends (Server new)))"

section \<open>What main builds\<close>

definition choose_balancer :: "string \<Rightarrow> heap \<Rightarrow> backend_ref list \<Rightarrow> LoadBalancer" where
  "choose_balancer kind h bs =
    (if kind = ''least_connections'' then LC (NewLeastConnections bs)
     else if kind = ''weighted_round_robin'' then WRR (NewWeightedRoundRobin h bs)
     else RR (NewRoundRobin bs))"

definition checker_config :: "Config \<Rightarrow> CheckerConfig" where
  "checker_config cfg =
    (let hc = s_Health (Server cfg)
     in \<lparr>hc_Interval = h_Interval hc, hc_Timeout = h_Timeout hc, hc_UnhealthyThreshold = h_UnhealthyThreshold hc,
         hc_HealthyThreshold = h_HealthyThreshold hc, hc_CheckType = h_CheckType hc, hc_HTTPPath = h_HTTPPath hc\<rparr>)"

text \<open>The zero value when breakers are disabled.\<close>

definition breaker_config :: "Config \<Rightarrow> cb_Config" where
  "breaker_config cfg =
    (let cc = s_CircuitBreaker (Server cfg)
     in if cc_Enabled cc
        then \<lparr>FailureThreshold = cc_FailureThreshold cc, SuccessThreshold = cc_SuccessThreshold cc,
              MaxHalfOpenRequests = cc_MaxHalfOpenRequests cc, Timeout = cc_Timeout cc, Window = cc_Window cc\<rparr>
        else bk_config no_breakers)"

definition proxy_options :: "Config \<Rightarrow> tcp_option list" where
  "proxy_options cfg =
    [WithMetrics] @ (if rl_Enabled (s_RateLimit (Server cfg)) then [WithRateLimiter] else []) @
    (if cc_Enabled (s_CircuitBreaker (Server cfg)) then [WithCircuitBreaker (breaker_config cfg)] else [])"

definition http_options :: "Config \<Rightarrow> HTTPOption list" where
  "http_options cfg =
    (let x = s_HTTPTransport (Server cfg)
     in [WithHTTPMetrics, WithHTTPTransportConfig
          \<lparr>ht_MaxIdleConns = xc_MaxIdleConns x, ht_MaxIdleConnsPerHost = xc_MaxIdleConnsPerHost x,
           ht_MaxConnsPerHost = xc_MaxConnsPerHost x, ht_IdleConnTimeout = xc_IdleConnTimeout x,
           ht_TLSHandshakeTimeout = xc_TLSHandshakeTimeout x, ht_ExpectContinueTimeout = xc_ExpectContinueTimeout x,
           ht_DialTimeout = xc_DialTimeout x, ht_DialKeepAlive = xc_DialKeepAlive x,
           ht_DisableCompression = xc_DisableCompression x\<rparr>] @
        (if cc_Enabled (s_CircuitBreaker (Server cfg)) then [WithHTTPCircuitBreaker (breaker_config cfg)] else []))"

text \<open>The state the process runs with.\<close>

record sluice =
  sl_gw :: gateway
  sl_checker :: Checker
  sl_tcp :: TCPProxy
  sl_http :: "HTTPProxy option"
  sl_startConfig :: Config
  sl_currentConfig :: Config
  sl_registry :: "Registry option"

definition registry_config :: "Config \<Rightarrow> reg_Config" where
  "registry_config cfg =
    (let rc = s_Registry (Server cfg)
     in \<lparr>DefaultTTL = rc_DefaultTTL rc, CleanupInterval = rc_CleanupInterval rc, MaxServices = rc_MaxServices rc\<rparr>)"

text \<open>\<^verbatim>\<open>main\<close> up to the start of the servers, for a configuration that has been loaded. Without a
  rate limit no token bucket exists; the one in the gateway is then not reached.\<close>

definition main_setup :: "(rat \<Rightarrow> rat) \<Rightarrow> go_time \<Rightarrow> go_time \<Rightarrow> Config \<Rightarrow> heap \<Rightarrow> sluice" where
  "main_setup rnd now_metrics now_limiter cfg h =
    (let (backends, h1) = buildBackends cfg h;
         lb = choose_balancer (s_LoadBalancer (Server cfg)) h1 backends;
         checker = NewChecker backends (checker_config cfg);
         rl = s_RateLimit (Server cfg);
         g = \<lparr>gw_heap = h1, gw_lb = lb, gw_limiter = NewTokenBucket rnd (rl_Rate rl) (rl_Burst rl) now_limiter,
              gw_metrics = NewCollector now_metrics\<rparr>
     in \<lparr>sl_gw = g, sl_checker = checker,
         sl_tcp = NewTCPProxy (s_ListenAddr (Server cfg)) True (proxy_options cfg),
         sl_http = (if s_HTTPListenAddr (Server cfg) \<noteq> [] then Some (NewHTTPProxy (http_options cfg)) else None),
         sl_startConfig = cfg, sl_currentConfig = cfg,
         sl_registry = (if rc_Enabled (s_Registry (Server cfg)) then Some (reg_New (registry_config cfg)) else None)\<rparr>)"

section \<open>The handler of the HTTP listener\<close>

text \<open>The chain of \<^verbatim>\<open>buildHTTPServer\<close>, with the readings of the clock and the random bytes that a
  request meets.\<close>

record 'x l7_env =
  l7_rnd :: "rat \<Rightarrow> rat"
  l7_trace :: trace_env
  l7_metricsStart :: go_time
  l7_metricsEnd :: go_time
  l7_limit :: go_time
  l7_proxy :: "'x http_env"

definition l7_handler :: "logger \<Rightarrow> bool \<Rightarrow> 'y obs_ctx_ext l7_env \<Rightarrow> ('z mw_world_scheme, 'y obs_ctx_ext) handler" where
  "l7_handler l rateLimited env =
    Chain (http_ServeHTTP (l7_proxy env))
      ([Recovery l, Tracing (l7_rnd env) (l7_trace env) l, Metrics_mw (l7_metricsStart env) (l7_metricsEnd env)] @
       (if rateLimited then [RateLimit (l7_rnd env) (l7_limit env)] else []) @ [Headers])"

section \<open>Replacing the backends\<close>

definition install :: "backend_ref list \<times> heap \<Rightarrow> sluice \<Rightarrow> sluice" where
  "install built s =
    (let (bs, h) = built; g = sl_gw s
     in s\<lparr>sl_gw := g\<lparr>gw_heap := h, gw_lb := lb_UpdateBackends h bs (gw_lb g)\<rparr>,
          sl_checker := hc_UpdateBackends h bs (sl_checker s)\<rparr>)"

definition reloadBackends :: "Config \<Rightarrow> sluice \<Rightarrow> sluice" where
  "reloadBackends newCfg s =
    (let oldConfig = sl_currentConfig s;
         s1 = s\<lparr>sl_currentConfig := newCfg\<rparr>
     in if backendsChanged oldConfig newCfg then install (buildBackends newCfg (gw_heap (sl_gw s1))) s1 else s1)"

text \<open>The body of the loop of \<^verbatim>\<open>watchRegistryChanges\<close>, which was given the configuration of the
  start.\<close>

definition registryEvent :: "string list \<Rightarrow> sluice \<Rightarrow> sluice" where
  "registryEvent order s =
    (case sl_registry s of
       None \<Rightarrow> s
     | Some reg \<Rightarrow> install (buildBackendsFromRegistry order reg (sl_startConfig s) (gw_heap (sl_gw s))) s)"

section \<open>The file watcher\<close>

fun lastSlash_from :: "nat \<Rightarrow> int \<Rightarrow> string \<Rightarrow> int" where
  "lastSlash_from i found [] = found"
| "lastSlash_from i found (ch # s) = lastSlash_from (Suc i) (if ch = CHR ''/'' \<or> ch = CHR 0x5C then int i else found) s"

definition lastSlash :: "string \<Rightarrow> int" where
  "lastSlash s = lastSlash_from 0 (- 1) s"

text \<open>The directory that is watched, and the name that is looked for in it.\<close>

definition watch_target :: "string \<Rightarrow> string \<times> string" where
  "watch_target configPath =
    (let idx = lastSlash configPath
     in if idx \<ge> 0
        then (let dir = take (nat idx) configPath
              in (if dir = [] then ''.'' else dir, drop (Suc (nat idx)) configPath))
        else (''.'', configPath))"

definition eventTargetsFile :: "string \<Rightarrow> string \<Rightarrow> bool" where
  "eventTargetsFile ev_Name filename =
    (if ev_Name = filename then True
     else if length ev_Name \<ge> length filename \<and> drop (length ev_Name - length filename) ev_Name = filename then True
     else False)"

text \<open>The debounce timer: the time at which it will fire. \<open>events\<close> are the times of the events that
  concern the file; the result is the list of reloads. A timer that is due when an event arrives
  has fired.\<close>

definition debounce :: duration where
  "debounce = 200 * Millisecond"

fun reload_times :: "go_time option \<Rightarrow> go_time list \<Rightarrow> go_time list" where
  "reload_times pending [] = (case pending of None \<Rightarrow> [] | Some d \<Rightarrow> [d])"
| "reload_times pending (t # ts) =
     (case pending of
        Some d \<Rightarrow> if d \<le> t then d # reload_times (Some (t + debounce)) ts else reload_times (Some (t + debounce)) ts
      | None \<Rightarrow> reload_times (Some (t + debounce)) ts)"

text \<open>What a reload does: a file that does not load or validate changes nothing.\<close>

definition fire_reload :: "(string \<Rightarrow> string + 'd) \<Rightarrow> ('d \<Rightarrow> string + Config) \<Rightarrow> string \<Rightarrow> sluice \<Rightarrow> sluice" where
  "fire_reload readFile unmarshal configPath s =
    (case Load readFile unmarshal configPath of
       Inl err \<Rightarrow> s
     | Inr newCfg \<Rightarrow> (case Validate newCfg of Some err \<Rightarrow> s | None \<Rightarrow> reloadBackends newCfg s))"

section \<open>Exported metrics and the admin endpoints\<close>

definition health_getter :: "gateway \<Rightarrow> (string \<rightharpoonup> bool)" where
  "health_getter g = fold (\<lambda>b m. m(b_Addr (gw_heap g) b \<mapsto> b_IsHealthy (gw_heap g) b)) (lb_Backends (gw_lb g)) Map.empty"

definition breaker_getter :: "TCPProxy \<Rightarrow> HTTPProxy option \<Rightarrow> (string \<rightharpoonup> int)" where
  "breaker_getter tcp http =
    (let states = (case tcp_CircuitBreakerStates tcp of Some m \<Rightarrow> m | None \<Rightarrow> Map.empty)
     in case http of
          None \<Rightarrow> states
        | Some p \<Rightarrow> (case http_CircuitBreakerStates p of None \<Rightarrow> states | Some m \<Rightarrow> states ++ m))"

definition limiter_getter :: "TokenBucket \<Rightarrow> int \<times> int" where
  "limiter_getter tb = (tb_totalAllowed tb, tb_totalDenied tb)"

definition pool_getter :: "gateway \<Rightarrow> (string \<rightharpoonup> PoolStatsSnapshot)" where
  "pool_getter g = fold (\<lambda>b m. let st = b_PoolStats (gw_heap g) b in
     m(b_Addr (gw_heap g) b \<mapsto> \<lparr>ps_Hits = PS_Hits st, ps_Misses = PS_Misses st, ps_Returned = PS_Returned st,
       ps_Dropped = PS_Dropped st, ps_Size = int (PS_Size st)\<rparr>)) (lb_Backends (gw_lb g)) Map.empty"

definition exporter_of :: "sluice \<Rightarrow> PrometheusExporter" where
  "exporter_of s =
    (let e1 = SetBackendHealthGetter (health_getter (sl_gw s)) NewPrometheusExporter;
         e2 = SetCircuitBreakerGetter (breaker_getter (sl_tcp s) (sl_http s)) e1;
         e3 = (if tp_rateLimiter (sl_tcp s) then SetRateLimiterStats (limiter_getter (gw_limiter (sl_gw s))) e2 else e2)
     in SetPoolStatsGetter (pool_getter (sl_gw s)) e3)"

record backendStatus =
  bs_Addr :: string
  bs_Weight :: int
  bs_Healthy :: bool
  bs_ActiveConnections :: int

definition backend_statuses :: "gateway \<Rightarrow> backendStatus list" where
  "backend_statuses g = map (\<lambda>b. \<lparr>bs_Addr = b_Addr (gw_heap g) b, bs_Weight = b_Weight (gw_heap g) b,
     bs_Healthy = b_IsHealthy (gw_heap g) b, bs_ActiveConnections = b_ActiveConnections (gw_heap g) b\<rparr>) (lb_Backends (gw_lb g))"

section \<open>What is built\<close>

text \<open>Address, weight, health and number of connections of a backend.\<close>

definition backend_view :: "heap \<Rightarrow> backend_ref \<Rightarrow> string \<times> int \<times> bool \<times> int" where
  "backend_view h b = (b_Addr h b, b_Weight h b, b_IsHealthy h b, b_ActiveConnections h b)"

definition new_view :: "Backend \<Rightarrow> string \<times> int \<times> bool \<times> int" where
  "new_view v = (b_addr v, b_weight v, b_healthy v, b_activeConns v)"

lemma new_pooled_eq:
  assumes "new_pooled t v h = (b, h')"
  shows "b = h_nextBackend h" and "h_nextBackend h' = Suc (h_nextBackend h)"
    and "b' \<noteq> b \<Longrightarrow> h_backends h' b' = h_backends h b'" and "backend_view h' b = new_view v"
  using assms
  by (auto simp: new_pooled_def alloc_backend_def b_EnablePooling_def Let_def backend_view_def new_view_def b_Addr_def b_Weight_def
      b_IsHealthy_def b_ActiveConnections_def split: option.splits)

lemma build_all_eq:
  "build_all t vs h = (bs, h') \<Longrightarrow> map (backend_view h') bs = map new_view vs \<and> set bs \<subseteq> {h_nextBackend h..<h_nextBackend h'} \<and>
    h_nextBackend h \<le> h_nextBackend h' \<and> (\<forall>b < h_nextBackend h. h_backends h' b = h_backends h b) \<and>
    (\<forall>b \<ge> h_nextBackend h'. h_backends h' b = h_backends h b)"
proof (induction vs arbitrary: h bs)
  case (Cons v vs)
  obtain b h1 bs1 where new: "new_pooled t v h = (b, h1)" and rest: "build_all t vs h1 = (bs1, h')" and bs: "bs = b # bs1"
    using Cons.prems by (auto split: prod.splits)
  note one = new_pooled_eq [OF new] and many = Cons.IH [OF rest]
  have "h_backends h' b = h_backends h1 b" using many one(1,2) by simp
  then have "backend_view h' b = new_view v"
    using one(4) by (simp add: backend_view_def b_Addr_def b_Weight_def b_IsHealthy_def b_ActiveConnections_def)
  then show ?case using many one(1,2,3) bs by auto
qed simp

lemma build_all_frame:
  "build_all t vs h = (bs, h') \<Longrightarrow> b \<notin> set bs \<Longrightarrow> h_backends h' b = h_backends h b"
proof (induction vs arbitrary: h bs)
  case (Cons v vs)
  then show ?case using new_pooled_eq(3) [of t v h] by (fastforce split: prod.splits)
qed simp

text \<open>The entries of a configuration, and of a registry, as the balancer should see them.\<close>

definition config_entries :: "Config \<Rightarrow> (string \<times> int) list" where
  "config_entries cfg = map (\<lambda>b. (bc_Addr b, max 1 (bc_Weight b))) (s_Backends (Server cfg))"

definition registry_entries :: "string list \<Rightarrow> Registry \<Rightarrow> (string \<times> int) list" where
  "registry_entries order reg = map (\<lambda>svc. (sv_Address svc, max 1 (sv_Weight svc))) (reg_List order reg)"

definition fresh_entry :: "string \<times> int \<Rightarrow> string \<times> int \<times> bool \<times> int" where
  "fresh_entry e = (fst e, snd e, True, 0)"

lemma new_view_eq:
  "new_view (backend_of b) = fresh_entry (bc_Addr b, max 1 (bc_Weight b))"
  "new_view (service_backend svc) = fresh_entry (sv_Address svc, max 1 (sv_Weight svc))"
  by (auto simp: new_view_def backend_of_def service_backend_def NewBackend_def NewBackendWithWeight_def fresh_entry_def Let_def)

lemma buildBackends_view:
  "buildBackends cfg h = (bs, h') \<Longrightarrow> map (backend_view h') bs = map fresh_entry (config_entries cfg)"
  using build_all_eq [of "s_TCPPool (Server cfg)" "map backend_of (s_Backends (Server cfg))" h bs h']
  by (simp add: buildBackends_def config_entries_def comp_def new_view_eq)

lemma buildFromRegistry_view:
  assumes "buildBackendsFromRegistry order reg cfg h = (bs, h')"
  shows "map (backend_view h') bs = map fresh_entry (config_entries cfg @ registry_entries order reg)"
proof -
  obtain bs1 h1 bs2 where 1: "buildBackends cfg h = (bs1, h1)"
    and 2: "build_all (s_TCPPool (Server cfg)) (map service_backend (reg_List order reg)) h1 = (bs2, h')" and bs: "bs = bs1 @ bs2"
    using assms by (auto simp: buildBackendsFromRegistry_def split: prod.splits)
  have "set bs1 \<subseteq> {..<h_nextBackend h1}" using build_all_eq [OF 1 [unfolded buildBackends_def]] by auto
  then have "map (backend_view h') bs1 = map (backend_view h1) bs1"
    using build_all_eq [OF 2] by (auto simp: backend_view_def b_Addr_def b_Weight_def b_IsHealthy_def b_ActiveConnections_def)
  then show ?thesis
    using buildBackends_view [OF 1] build_all_eq [OF 2] by (simp add: bs registry_entries_def comp_def new_view_eq)
qed

section \<open>The list of backends over the life of the process\<close>

definition served :: "sluice \<Rightarrow> (string \<times> int \<times> bool \<times> int) list" where
  "served s = map (backend_view (gw_heap (sl_gw s))) (lb_Backends (gw_lb (sl_gw s)))"

definition checked :: "sluice \<Rightarrow> backend_ref list" where
  "checked s = hc_backends (sl_checker s)"

lemma install_eq:
  "sl_startConfig (install (bs, h) s) = sl_startConfig s" "sl_currentConfig (install (bs, h) s) = sl_currentConfig s"
  "sl_registry (install (bs, h) s) = sl_registry s" "served (install (bs, h) s) = map (backend_view h) bs"
  "checked (install (bs, h) s) = bs" "lb_Backends (gw_lb (sl_gw (install (bs, h) s))) = bs"
  by (simp_all add: install_def served_def checked_def hc_UpdateBackends_def lb.update_members Let_def)

lemma choose_balancer_members: "lb_Backends (choose_balancer kind h bs) = bs"
  by (simp add: choose_balancer_def NewRoundRobin_def NewLeastConnections_def NewWeightedRoundRobin_def wrr_Backends_def
      wrap_backend_def comp_def)

lemma reload_changed:
  assumes "backendsChanged (sl_currentConfig s) newCfg"
  shows "served (reloadBackends newCfg s) = map fresh_entry (config_entries newCfg)"
    and "sl_startConfig (reloadBackends newCfg s) = sl_startConfig s" and "sl_registry (reloadBackends newCfg s) = sl_registry s"
    and "sl_currentConfig (reloadBackends newCfg s) = newCfg"
    and "checked (reloadBackends newCfg s) = lb_Backends (gw_lb (sl_gw (reloadBackends newCfg s)))"
proof -
  obtain bs h where b: "buildBackends newCfg (gw_heap (sl_gw s)) = (bs, h)" by force
  have "reloadBackends newCfg s = install (bs, h) (s\<lparr>sl_currentConfig := newCfg\<rparr>)"
    using assms b by (simp add: reloadBackends_def)
  then show "served (reloadBackends newCfg s) = map fresh_entry (config_entries newCfg)"
    "sl_startConfig (reloadBackends newCfg s) = sl_startConfig s" "sl_registry (reloadBackends newCfg s) = sl_registry s"
    "sl_currentConfig (reloadBackends newCfg s) = newCfg"
    "checked (reloadBackends newCfg s) = lb_Backends (gw_lb (sl_gw (reloadBackends newCfg s)))"
    using buildBackends_view [OF b] by (simp_all add: install_eq)
qed

lemma registryEvent_eq:
  assumes "sl_registry s = Some reg"
  shows "served (registryEvent order s) = map fresh_entry (config_entries (sl_startConfig s) @ registry_entries order reg)"
    and "sl_currentConfig (registryEvent order s) = sl_currentConfig s"
proof -
  obtain bs h where b: "buildBackendsFromRegistry order reg (sl_startConfig s) (gw_heap (sl_gw s)) = (bs, h)" by force
  then have "registryEvent order s = install (bs, h) s" using assms by (simp add: registryEvent_def)
  then show "served (registryEvent order s) = map fresh_entry (config_entries (sl_startConfig s) @ registry_entries order reg)"
    "sl_currentConfig (registryEvent order s) = sl_currentConfig s"
    using buildFromRegistry_view [OF b] by (simp_all add: install_eq)
qed

lemma entries_differ_iff: "length xs = length ys \<Longrightarrow> entries_differ xs ys \<longleftrightarrow> xs \<noteq> ys"
proof (induction xs ys rule: entries_differ.induct)
  case (1 x xs y ys)
  have "x = y \<longleftrightarrow> bc_Addr x = bc_Addr y \<and> bc_Weight x = bc_Weight y" by (cases x; cases y) auto
  with 1 show ?case by auto
qed auto

lemma backendsChanged_iff: "backendsChanged old new \<longleftrightarrow> s_Backends (Server old) \<noteq> s_Backends (Server new)"
  using entries_differ_iff by (auto simp: backendsChanged_def)

text \<open>Hot reload. A reload whose list of backends differs in any address or weight, or in
  length, installs exactly the configured backends, healthy and idle, in the balancer and in the
  health checker alike; one that changes nothing there leaves balancer, checker and every backend
  object as they are, so that health, counters and connections survive.\<close>

theorem reload_installs:
  "(if s_Backends (Server (sl_currentConfig s)) = s_Backends (Server newCfg)
    then reloadBackends newCfg s = s\<lparr>sl_currentConfig := newCfg\<rparr>
    else served (reloadBackends newCfg s) = map fresh_entry (config_entries newCfg) \<and>
      checked (reloadBackends newCfg s) = lb_Backends (gw_lb (sl_gw (reloadBackends newCfg s))) \<and>
      sl_currentConfig (reloadBackends newCfg s) = newCfg)"
proof (cases "s_Backends (Server (sl_currentConfig s)) = s_Backends (Server newCfg)")
  case True
  then show ?thesis by (simp add: reloadBackends_def backendsChanged_iff)
next
  case False
  then show ?thesis using reload_changed [of s newCfg] by (simp add: backendsChanged_iff)
qed

text \<open>Reload and registry undo each other. After a reload has changed the backends, the next
  event of the registry brings back the backends of the start and drops the reloaded ones; and a
  reload drops every registered service, which stay out until the registry has another event.\<close>

theorem reload_and_registry_conflict:
  assumes "sl_registry s = Some reg" and "s_Backends (Server (sl_currentConfig s)) \<noteq> s_Backends (Server newCfg)"
  shows "served (registryEvent order (reloadBackends newCfg s)) =
      map fresh_entry (config_entries (sl_startConfig s) @ registry_entries order reg) \<and>
    sl_currentConfig (registryEvent order (reloadBackends newCfg s)) = newCfg \<and>
    served (reloadBackends newCfg (registryEvent order s)) = map fresh_entry (config_entries newCfg)"
proof -
  have changed: "backendsChanged (sl_currentConfig s) newCfg" using assms(2) by (simp add: backendsChanged_iff)
  note reloaded = reload_changed [OF changed]
  have "sl_registry (reloadBackends newCfg s) = Some reg" using reloaded(3) assms(1) by simp
  then have "served (registryEvent order (reloadBackends newCfg s)) =
      map fresh_entry (config_entries (sl_startConfig s) @ registry_entries order reg)"
    "sl_currentConfig (registryEvent order (reloadBackends newCfg s)) = newCfg"
    using registryEvent_eq reloaded by simp_all
  moreover have "backendsChanged (sl_currentConfig (registryEvent order s)) newCfg"
    using changed registryEvent_eq(2) [OF assms(1)] by simp
  ultimately show ?thesis using reload_changed(1) by simp
qed

definition sample_start :: Config where
  "sample_start = applyDefaults ((sample_config [\<lparr>bc_Addr = ''a:1'', bc_Weight = 0\<rparr>])\<lparr>Server := (Server (sample_config
      [\<lparr>bc_Addr = ''a:1'', bc_Weight = 0\<rparr>]))\<lparr>s_Registry := (s_Registry zero_server)\<lparr>rc_Enabled := True\<rparr>\<rparr>\<rparr>)"

lemma sample_start_sel:
  "s_Backends (Server sample_start) = [\<lparr>bc_Addr = ''a:1'', bc_Weight = 1\<rparr>]" "rc_Enabled (s_Registry (Server sample_start))"
  by (simp_all add: sample_start_def sample_config_def zero_server_def applyDefaults_def default_weights_def or_else_def default_registry_def)

lemma main_setup_config:
  "sl_startConfig (main_setup rnd t t' cfg h) = cfg" "sl_currentConfig (main_setup rnd t t' cfg h) = cfg"
  "sl_registry (main_setup rnd t t' cfg h) = (if rc_Enabled (s_Registry (Server cfg)) then Some (reg_New (registry_config cfg)) else None)"
  by (simp_all add: main_setup_def Let_def case_prod_unfold)

theorem reload_and_registry_conflict_witness:
  "served (registryEvent [] (reloadBackends (sample_config [\<lparr>bc_Addr = ''b:1'', bc_Weight = 1\<rparr>]) (main_setup id 0 0 sample_start empty_heap))) =
    [(''a:1'', 1, True, 0)]"
  using reload_and_registry_conflict [of "main_setup id 0 0 sample_start empty_heap" "reg_New (registry_config sample_start)"
    "sample_config [\<lparr>bc_Addr = ''b:1'', bc_Weight = 1\<rparr>]" "[]"]
  by (simp add: main_setup_config sample_start_sel sample_config_def config_entries_def registry_entries_def reg_List_def fresh_entry_def)

section \<open>Start\<close>

text \<open>The process can serve as soon as it is set up: from a configuration that loads, the
  balancer of the configured kind holds exactly the configured backends, with their weights, all
  healthy and idle, the checker watches the same objects, and the first selection succeeds.\<close>

theorem main_setup_serves:
  assumes "Load readFile unmarshal path = Inr cfg" and "conns_fit h" and "s = main_setup rnd t t' cfg h"
  shows "served s = map (\<lambda>b. (bc_Addr b, bc_Weight b, True, 0)) (s_Backends (Server cfg)) \<and>
    checked s = lb_Backends (gw_lb (sl_gw s)) \<and>
    (\<exists>b \<in> set (lb_Backends (gw_lb (sl_gw s))). fst (lb_Next (gw_heap (sl_gw s)) (gw_lb (sl_gw s))) = Inr b)"
proof -
  obtain data cfg0 where loaded: "unmarshal data = Inr cfg0" "cfg = applyDefaults cfg0" "s_Backends (Server cfg0) \<noteq> []"
    "list_all entry_ok (s_Backends (Server cfg0))"
    using assms(1) by (auto simp: Load_def Let_def applyDefaults_def default_weights_def check_backends_None default_weights_ok list_all_iff
        split: sum.splits option.splits if_splits)
  have weights: "\<forall>b \<in> set (s_Backends (Server cfg)). 1 \<le> bc_Weight b" and nonempty: "s_Backends (Server cfg) \<noteq> []"
    using loaded(2-4) by (auto simp: applyDefaults_def Let_def default_weights_def or_else_def entry_ok_def list_all_iff)
  obtain bs h1 where built: "buildBackends cfg h = (bs, h1)" by force
  have view: "map (backend_view h1) bs = map (\<lambda>b. (bc_Addr b, bc_Weight b, True, 0)) (s_Backends (Server cfg))"
    using buildBackends_view [OF built] weights by (auto simp: config_entries_def fresh_entry_def)
  have s: "gw_heap (sl_gw s) = h1" "lb_Backends (gw_lb (sl_gw s)) = bs" "checked s = bs"
    using built by (simp_all add: assms(3) main_setup_def Let_def choose_balancer_members checked_def NewChecker_def)
  have "\<forall>b. b_ActiveConnections h1 b < max_int64"
  proof
    fix b
    show "b_ActiveConnections h1 b < max_int64"
    proof (cases "b \<in> set bs")
      case True
      then have "backend_view h1 b \<in> set (map (backend_view h1) bs)" by simp
      then have "b_ActiveConnections h1 b = 0" unfolding view by (auto simp: backend_view_def)
      then show ?thesis by (simp add: max_int64_def)
    next
      case False
      then have "h_backends h1 b = h_backends h b"
        using build_all_frame [OF built [unfolded buildBackends_def]] by auto
      then show ?thesis using assms(2) by (simp add: conns_fit_def b_ActiveConnections_def)
    qed
  qed
  then have fits: "conns_fit h1" by (simp add: conns_fit_def)
  have "bs \<noteq> []" using view nonempty by auto
  then obtain b where b: "b \<in> set bs" by (cases bs) auto
  then have "backend_view h1 b \<in> set (map (backend_view h1) bs)" by simp
  then have "b_IsHealthy h1 b" unfolding view by (auto simp: backend_view_def)
  then show ?thesis using lb.next_available [OF fits, of b "gw_lb (sl_gw s)"] b s view by (auto simp: served_def)
qed

theorem main_setup_serves_witness:
  "served (main_setup id 0 0 (applyDefaults (sample_config [\<lparr>bc_Addr = ''a:1'', bc_Weight = 0\<rparr>])) empty_heap) = [(''a:1'', 1, True, 0)]"
proof -
  let ?cfg = "applyDefaults (sample_config [\<lparr>bc_Addr = ''a:1'', bc_Weight = 0\<rparr>])"
  have load: "Load (\<lambda>_. Inr ()) (\<lambda>_. Inr (sample_config [\<lparr>bc_Addr = ''a:1'', bc_Weight = 0\<rparr>])) path = Inr ?cfg" for path
    by (simp add: Load_def sample_config_def applyDefaults_def default_weights_def or_else_def Let_def)
  have "conns_fit empty_heap" by (simp add: conns_fit_def empty_heap_def b_ActiveConnections_def NewBackend_def max_int64_def)
  from main_setup_serves [OF load [of "[]"] this, where s = "main_setup id 0 0 ?cfg empty_heap", OF refl] show ?thesis
    by (simp add: sample_config_def applyDefaults_def default_weights_def or_else_def)
qed

section \<open>Watching the file\<close>

lemma lastSlash_from_notin:
  "CHR ''/'' \<notin> set s \<Longrightarrow> CHR 0x5C \<notin> set s \<Longrightarrow> lastSlash_from i found s = found"
  by (induction s arbitrary: i) auto

lemma lastSlash_from_append: "lastSlash_from i found (s @ t) = lastSlash_from (i + length s) (lastSlash_from i found s) t"
  by (induction s arbitrary: i found) simp_all

lemma lastSlash_split:
  assumes "sep \<in> {CHR ''/'', CHR 0x5C}" and "CHR ''/'' \<notin> set file" and "CHR 0x5C \<notin> set file"
  shows "lastSlash (dir @ sep # file) = int (length dir)"
  using assms by (auto simp: lastSlash_def lastSlash_from_append lastSlash_from_notin)

text \<open>Which events reload the configuration: the watched directory is the part of the path in
  front of its last separator and the current directory when there is none; but also for a file in
  the root directory, whose events are then never seen. An event counts exactly when its path
  ends with the file's name, so that another file of which it is a suffix triggers too.\<close>

theorem watch_target_exact:
  assumes "CHR ''/'' \<notin> set file" and "CHR 0x5C \<notin> set file"
  shows "watch_target file = (''.'', file) \<and> watch_target (dir @ ''/'' @ file) = (if dir = [] then ''.'' else dir, file) \<and>
    (eventTargetsFile ev file \<longleftrightarrow> suffix file ev)"
proof -
  have "lastSlash file = - 1" using assms by (simp add: lastSlash_def lastSlash_from_notin)
  moreover have "lastSlash (dir @ CHR ''/'' # file) = int (length dir)" using assms by (intro lastSlash_split) auto
  moreover have "eventTargetsFile ev file \<longleftrightarrow> suffix file ev"
    by (auto simp: eventTargetsFile_def suffix_def) (metis append_take_drop_id)
  ultimately show ?thesis by (simp add: watch_target_def)
qed

theorem watch_target_exact_witness:
  "watch_target ''/config.yaml'' = (''.'', ''config.yaml'') \<and> eventTargetsFile ''./my-config.yaml'' ''config.yaml''"
  using watch_target_exact [of "''config.yaml''" "[]" "''./my-config.yaml''"] by (simp add: suffix_def)

text \<open>The events that no other one follows within the debounce interval.\<close>

fun burst_ends :: "go_time list \<Rightarrow> go_time list" where
  "burst_ends [] = []"
| "burst_ends [t] = [t]"
| "burst_ends (t # u # ts) = (if t + debounce \<le> u then t # burst_ends (u # ts) else burst_ends (u # ts))"

lemma reload_times_pending: "reload_times (Some (t + debounce)) ts = map (\<lambda>u. u + debounce) (burst_ends (t # ts))"
  by (induction ts arbitrary: t) auto

lemma burst_ends_cover: "sorted ts \<Longrightarrow> \<forall>t \<in> set ts. \<exists>u \<in> set (burst_ends ts). t \<le> u"
proof (induction ts rule: burst_ends.induct)
  case (3 t u ts)
  then have rest: "\<forall>t \<in> set (u # ts). \<exists>v \<in> set (burst_ends (u # ts)). t \<le> v" by (cases "t + debounce \<le> u") auto
  then obtain v where "v \<in> set (burst_ends (u # ts))" "u \<le> v" by auto
  moreover have "t \<le> u" using 3(3) by simp
  ultimately have "\<exists>v \<in> set (burst_ends (u # ts)). t \<le> v" by (meson order_trans)
  with rest show ?case by auto
qed auto

text \<open>Debouncing loses no change: there is one reload for each burst of events, 200 ms after its
  last event, and after every event there is a reload at least 200 ms later, which reads the file
  as the event left it or as a later one did.\<close>

theorem debounce_exact:
  "reload_times None ts = map (\<lambda>u. u + debounce) (burst_ends ts) \<and>
   (sorted ts \<longrightarrow> (\<forall>t \<in> set ts. \<exists>r \<in> set (reload_times None ts). t + debounce \<le> r))"
proof -
  have eq: "reload_times None ts = map (\<lambda>u. u + debounce) (burst_ends ts)"
    by (cases ts) (simp_all add: reload_times_pending)
  then show ?thesis using burst_ends_cover by fastforce
qed

theorem debounce_exact_witness:
  "reload_times None [0, 100 * Millisecond, Second] = [300 * Millisecond, Second + 200 * Millisecond]"
  using debounce_exact [of "[0, 100 * Millisecond, Second]"] by (simp add: debounce_def Millisecond_def Second_def)

section \<open>A request through the whole chain\<close>

lemma passed_on_push:
  "w_wraps (passed_on resp (push_wrap w)) =
    \<lparr>rw_status = rs_StatusCode resp, rw_wroteHeader = True, rw_bytes = int (length (concat (rs_Body resp)))\<rparr> # w_wraps (passed_on resp w)"
  "(passed_on resp (push_wrap w))\<lparr>w_wraps := w_wraps (passed_on resp w)\<rparr> = passed_on resp w"
  by (simp_all add: passed_on_def push_wrap_def wrapResponseWriter_def Let_def)

lemma fresh_push: "fresh_writer w \<Longrightarrow> fresh_writer (push_wrap w)"
  by (simp add: fresh_writer_def push_wrap_def wrapResponseWriter_def)

text \<open>A handler that passes a response of a backend on to a fresh writer, and adds one request to the
  collector.\<close>

definition answers :: "('z http_world_scheme, 'x) handler \<Rightarrow> response \<Rightarrow> (Collector \<Rightarrow> Collector) \<Rightarrow> ('z http_world_scheme, 'x) conf \<Rightarrow> bool" where
  "answers h resp f c \<longleftrightarrow> (\<exists>hdr p g. h c = (False, c\<lparr>cf_r := (cf_r c)\<lparr>r_Header := hdr\<rparr>, cf_w := passed_on resp (cf_w c),
      cf_world := (cf_world c)\<lparr>hw_proxy := p, hw_gw := g\<rparr>\<rparr>) \<and> gw_metrics g = f (gw_metrics (world_gw c)))"

definition proxied :: "'x http_env \<Rightarrow> string \<Rightarrow> response \<Rightarrow> Collector \<Rightarrow> Collector" where
  "proxied env addr resp = RecordRequest addr (rs_StatusCode resp < 500) (time_Sub (he_latency env) (he_start env)) 0
     (int (length (concat (rs_Body resp))))"

definition metered :: "'x l7_env \<Rightarrow> 'x request \<Rightarrow> response \<Rightarrow> Collector \<Rightarrow> Collector" where
  "metered env r resp m =
    (let dur = time_Sub (l7_metricsEnd env) (l7_metricsStart env)
     in RecordConnectionClosed dur (RecordRequest (take 50 (r_Path r)) (200 \<le> rs_StatusCode resp \<and> rs_StatusCode resp < 400) dur
          (r_ContentLength r) (int (length (concat (rs_Body resp)))) m))"

lemma header_answers:
  assumes "fresh_writer (cf_w c)" and "admitted env c addr lb t" and "\<forall>out. he_RoundTrip env out = Inr resp" and "proper_response resp"
    and "hp_metrics (hw_proxy (cf_world c))"
  shows "answers (Headers (http_ServeHTTP env)) resp (proxied env addr resp) c"
proof -
  obtain h where h: "Headers (http_ServeHTTP env) c = http_ServeHTTP env (c\<lparr>cf_r := (cf_r c)\<lparr>r_Header := h\<rparr>\<rparr>)"
    using Headers_eq [of "http_ServeHTTP env" c] by blast
  have "admitted env (c\<lparr>cf_r := (cf_r c)\<lparr>r_Header := h\<rparr>\<rparr>) addr lb t" using assms(2) by (simp add: admitted_def)
  from ServeHTTP_eq [OF _ this _ assms(4)] assms(1,3,5) show ?thesis
    unfolding answers_def h by (fastforce simp: proxied_def)
qed

lemma limited_answers:
  assumes "fst (tb_Allow rnd now (gw_limiter (world_gw c)))"
    and "\<And>tb. answers h resp f (on_gw (\<lambda>g. g\<lparr>gw_limiter := tb\<rparr>) c)"
  shows "answers (RateLimit rnd now h) resp f c"
proof -
  obtain tb where tb: "tb_Allow rnd now (gw_limiter (world_gw c)) = (True, tb)" using assms(1) by (cases "tb_Allow rnd now (gw_limiter (world_gw c))") simp
  then have "RateLimit rnd now h c = h (on_gw (\<lambda>g. g\<lparr>gw_limiter := tb\<rparr>) c)" by (simp add: RateLimit_def)
  with assms(2) [of tb] show ?thesis by (auto simp: answers_def on_gw_def)
qed

lemma metrics_answers:
  assumes "answers h resp f (on_gw (gw_record True RecordConnection) (c\<lparr>cf_w := push_wrap (cf_w c)\<rparr>))"
  shows "answers (Metrics_mw (l7_metricsStart env) (l7_metricsEnd env) h) resp
    (\<lambda>m. metered env (cf_r c) resp (f (RecordConnection m))) c"
proof -
  let ?c = "on_gw (gw_record True RecordConnection) (c\<lparr>cf_w := push_wrap (cf_w c)\<rparr>)"
  let ?c1 = "on_gw (gw_record True RecordConnection) c"
  obtain hdr p g where run: "h ?c = (False, ?c\<lparr>cf_r := (cf_r ?c)\<lparr>r_Header := hdr\<rparr>, cf_w := passed_on resp (cf_w ?c),
      cf_world := (cf_world ?c)\<lparr>hw_proxy := p, hw_gw := g\<rparr>\<rparr>)" and g: "gw_metrics g = f (gw_metrics (world_gw ?c))"
    using assms by (auto simp: answers_def)
  have push: "?c1\<lparr>cf_w := push_wrap (cf_w ?c1)\<rparr> = ?c" by (simp add: on_gw_def)
  have "serve_wrapped h ?c1 = (Some \<lparr>rw_status = rs_StatusCode resp, rw_wroteHeader = True, rw_bytes = int (length (concat (rs_Body resp)))\<rparr>,
     c\<lparr>cf_r := (cf_r c)\<lparr>r_Header := hdr\<rparr>, cf_w := passed_on resp (cf_w c), cf_world := (cf_world c)\<lparr>hw_proxy := p, hw_gw := g\<rparr>\<rparr>)"
    unfolding serve_wrapped_def push run by (simp add: on_gw_def passed_on_push)
  then show ?thesis using g
    by (auto simp: answers_def Metrics_mw_def metered_def Let_def on_gw_def gw_record_def intro!: exI)
qed

definition request_id :: "trace_env \<Rightarrow> 'x request \<Rightarrow> string" where
  "request_id tv r =
    (let given = hdr_Get (r_Header r) ''X-Request-ID'' in if given = [] then RequestID_of (tv_bytes tv) else given)"

lemma traced_answer:
  assumes "fresh_writer (cf_w c)"
    and "\<And>hdr ctx w. fresh_writer w \<Longrightarrow> answers h resp f (c\<lparr>cf_r := (cf_r c)\<lparr>r_Header := hdr, r_ctx := ctx\<rparr>, cf_w := w\<rparr>)"
  shows "\<exists>c' l' ms. Tracing rnd tv l h c = (False, c') \<and>
    cf_w c' = passed_on resp ((cf_w c)\<lparr>w_Header := hdr_Set ''X-Request-ID'' (request_id tv (cf_r c)) (w_Header (cf_w c))\<rparr>) \<and>
    gw_metrics (world_gw c') = f (gw_metrics (world_gw c)) \<and>
    mw_log (cf_world c') = mw_log (cf_world c) @ emit l' LevelInfo ''request.complete''
      [(''status'', VInt (rs_StatusCode resp)), (''bytes'', VInt (int (length (concat (rs_Body resp))))), (''duration_ms'', ms)] \<and>
    l_level l' = l_level l"
proof -
  define r1 where "r1 = (if hdr_Get (r_Header (cf_r c)) ''X-Request-ID'' \<noteq> [] then cf_r c
    else (cf_r c)\<lparr>r_Header := hdr_Set ''X-Request-ID'' (RequestID_of (tv_bytes tv)) (r_Header (cf_r c))\<rparr>)"
  define w1 where "w1 = (cf_w c)\<lparr>w_Header := hdr_Set ''X-Request-ID'' (request_id tv (cf_r c)) (w_Header (cf_w c))\<rparr>"
  define trace where "trace = SetAttr ''remote_addr'' (r_RemoteAddr r1) (SetAttr ''path'' (r_Path r1) (SetAttr ''method'' (r_Method r1)
    ((NewTrace (tv_bytes tv) (tv_start tv) ''http.request'')\<lparr>t_ID := request_id tv (cf_r c)\<rparr>)))"
  define l' where "l' = LoggerWithTrace (tv_keys tv) l (Some trace)"
  define ctx where "ctx = WithLogger (WithTrace (r_ctx r1) trace) l'"
  define ms where "ms = VFloat (duration_ms rnd (t_Duration (tv_end tv) (t_End (tv_end tv) trace)))"
  have r1: "\<exists>hdr. r1 = (cf_r c)\<lparr>r_Header := hdr\<rparr>" unfolding r1_def by (cases "cf_r c") auto
  then obtain hdr where hdr: "r1 = (cf_r c)\<lparr>r_Header := hdr\<rparr>" by blast
  have unfold: "Tracing rnd tv l h c = (case serve_wrapped (serve_with_context ctx h) (c\<lparr>cf_r := r1, cf_w := w1\<rparr>) of
      (None, c1) \<Rightarrow> (True, c1)
    | (Some wrapped, c1) \<Rightarrow> (False, add_log (emit l' LevelInfo ''request.complete''
        [(''status'', VInt (rw_status wrapped)), (''bytes'', VInt (rw_bytes wrapped)), (''duration_ms'', ms)]) c1))"
    by (cases "hdr_Get (r_Header (cf_r c)) ''X-Request-ID'' = []")
      (simp_all add: Tracing_def Let_def r1_def w1_def trace_def l'_def ctx_def ms_def request_id_def NewTrace_def
        split: prod.split option.split)
  have "fresh_writer (push_wrap w1)" using assms(1) by (intro fresh_push) (simp add: w1_def fresh_writer_def)
  from assms(2) [OF this, where hdr = hdr and ctx = ctx] obtain hdr' p g where
    run: "h (c\<lparr>cf_r := (cf_r c)\<lparr>r_Header := hdr, r_ctx := ctx\<rparr>, cf_w := push_wrap w1\<rparr>) =
      (False, c\<lparr>cf_r := (cf_r c)\<lparr>r_ctx := ctx, r_Header := hdr'\<rparr>, cf_w := passed_on resp (push_wrap w1),
        cf_world := (cf_world c)\<lparr>hw_proxy := p, hw_gw := g\<rparr>\<rparr>)" and g: "gw_metrics g = f (gw_metrics (world_gw c))"
    by (auto simp: answers_def)
  have "serve_wrapped (serve_with_context ctx h) (c\<lparr>cf_r := r1, cf_w := w1\<rparr>) =
      (Some \<lparr>rw_status = rs_StatusCode resp, rw_wroteHeader = True, rw_bytes = int (length (concat (rs_Body resp)))\<rparr>,
       c\<lparr>cf_r := (cf_r c)\<lparr>r_Header := hdr', r_ctx := r_ctx (cf_r c)\<rparr>, cf_w := passed_on resp w1,
         cf_world := (cf_world c)\<lparr>hw_proxy := p, hw_gw := g\<rparr>\<rparr>)"
    using run by (cases c) (simp add: serve_wrapped_def serve_with_context_def hdr passed_on_push)
  then show ?thesis using g
    by (intro exI [of _ l'] exI [of _ ms] exI) (auto simp: unfold w1_def l'_def LoggerWithTrace_def)
qed

text \<open>C26: a request through the chain of \<^verbatim>\<open>buildHTTPServer\<close>, when the limiter and the breaker let it
  pass and the backend answers: the client receives that answer, with the request's ID, its own or
  a generated one, in front; one line is logged, with the status and the size the client saw;
  the gauge of active connections is back where it was. But the collector has counted two
  requests, one under the address of the backend and one under the path of the URL, which the
  exporter reports as if it were another backend.\<close>

theorem l7_request_counted_twice:
  assumes "fresh_writer (cf_w c)" and "w_wraps (cf_w c) = []"
    and "admitted (l7_proxy env) c addr lb t" and "\<forall>out. he_RoundTrip (l7_proxy env) out = Inr resp" and "proper_response resp"
    and "hp_metrics (hw_proxy (cf_world c))"
    and "rateLimited \<longrightarrow> fst (tb_Allow (l7_rnd env) (l7_limit env) (gw_limiter (world_gw c)))"
    and "l_level l = LevelInfo" and "rid = request_id (l7_trace env) (cf_r c)"
  shows "\<exists>c' entry. l7_handler l rateLimited env c = (False, c') \<and> w_status (cf_w c') = Some (rs_StatusCode resp) \<and>
    w_body (cf_w c') = w_body (cf_w c) @ concat (rs_Body resp) \<and>
    w_sent (cf_w c') (canonical_key ''X-Request-ID'') = rid # rs_Header resp (canonical_key ''X-Request-ID'') \<and>
    mw_log (cf_world c') = mw_log (cf_world c) @ [entry] \<and> (''status'', VInt (rs_StatusCode resp)) \<in> set (le_args entry) \<and>
    connectionsActive (gw_metrics (world_gw c')) = connectionsActive (gw_metrics (world_gw c)) \<and>
    requestsTotal (gw_metrics (world_gw c')) = requestsTotal (gw_metrics (world_gw c)) + 2 \<and>
    backendMetrics (gw_metrics (world_gw c')) addr \<noteq> None \<and> backendMetrics (gw_metrics (world_gw c')) (take 50 (r_Path (cf_r c))) \<noteq> None"
proof -
  let ?inner = "if rateLimited then RateLimit (l7_rnd env) (l7_limit env) (Headers (http_ServeHTTP (l7_proxy env)))
    else Headers (http_ServeHTTP (l7_proxy env))"
  let ?m = "\<lambda>m. metered env (cf_r c) resp (proxied (l7_proxy env) addr resp (RecordConnection m))"
  have handler: "l7_handler l rateLimited env = Recovery l (Tracing (l7_rnd env) (l7_trace env) l
      (Metrics_mw (l7_metricsStart env) (l7_metricsEnd env) ?inner))" by (simp add: l7_handler_def)
  have "answers (Metrics_mw (l7_metricsStart env) (l7_metricsEnd env) ?inner) resp ?m
      (c\<lparr>cf_r := (cf_r c)\<lparr>r_Header := hdr, r_ctx := ctx\<rparr>, cf_w := w\<rparr>)" if w: "fresh_writer w" for hdr ctx w
  proof -
    let ?c = "c\<lparr>cf_r := (cf_r c)\<lparr>r_Header := hdr, r_ctx := ctx\<rparr>, cf_w := w\<rparr>"
    let ?c1 = "on_gw (gw_record True RecordConnection) (?c\<lparr>cf_w := push_wrap (cf_w ?c)\<rparr>)"
    have hdrs: "answers (Headers (http_ServeHTTP (l7_proxy env))) resp (proxied (l7_proxy env) addr resp) (on_gw k ?c1)"
      if "k = id \<or> (\<exists>tb. k = (\<lambda>g. g\<lparr>gw_limiter := tb\<rparr>))" for k
      by (rule header_answers) (use that assms(3-6) fresh_push [OF w] in \<open>auto simp: admitted_def on_gw_def gw_record_def\<close>)
    have id: "on_gw id ?c1 = ?c1" by (simp add: on_gw_def)
    have "answers ?inner resp (proxied (l7_proxy env) addr resp) ?c1"
    proof (cases rateLimited)
      case True
      then have "fst (tb_Allow (l7_rnd env) (l7_limit env) (gw_limiter (world_gw ?c1)))"
        using assms(7) by (simp add: on_gw_def gw_record_def)
      then show ?thesis using True hdrs by (auto intro: limited_answers)
    qed (use hdrs [of id] id in simp)
    from metrics_answers [OF this, of env] show ?thesis by (simp add: metered_def)
  qed
  from traced_answer [OF assms(1) this, of "l7_rnd env" "l7_trace env" l] obtain c' l' ms where
    run: "Tracing (l7_rnd env) (l7_trace env) l (Metrics_mw (l7_metricsStart env) (l7_metricsEnd env) ?inner) c = (False, c')"
    and w': "cf_w c' = passed_on resp ((cf_w c)\<lparr>w_Header := hdr_Set ''X-Request-ID'' rid (w_Header (cf_w c))\<rparr>)"
    and m': "gw_metrics (world_gw c') = ?m (gw_metrics (world_gw c))"
    and log': "mw_log (cf_world c') = mw_log (cf_world c) @ emit l' LevelInfo ''request.complete''
      [(''status'', VInt (rs_StatusCode resp)), (''bytes'', VInt (int (length (concat (rs_Body resp))))), (''duration_ms'', ms)]"
    and "l_level l' = l_level l" using assms(9) by auto
  have "l7_handler l rateLimited env c = (False, c')" using run by (simp add: handler Recovery_def)
  moreover have "\<not> isHopByHopHeader (canonical_key ''X-Request-ID'')" by code_simp
  moreover have "requestsTotal (?m m) = requestsTotal m + 2" "connectionsActive (?m m) = connectionsActive m"
    "backendMetrics (?m m) addr \<noteq> None" "backendMetrics (?m m) (take 50 (r_Path (cf_r c))) \<noteq> None" for m
    by (auto simp: metered_def proxied_def RecordRequest_def RecordLatency_def RecordConnection_def RecordConnectionClosed_def
        getOrCreateBackendMetrics_def Let_def split: option.splits)
  ultimately show ?thesis
    using \<open>l_level l' = l_level l\<close> assms(8)
    by (intro exI [of _ c'] exI conjI) (auto simp: w' m' log' passed_on_def Let_def hdr_Set_def emit_def)
qed

definition sample_l7_env :: "response \<Rightarrow> unit obs_ctx_ext l7_env" where
  "sample_l7_env resp = \<lparr>l7_rnd = id, l7_trace = \<lparr>tv_bytes = [1, 2, 3, 4, 5, 6, 7, 8], tv_start = 0, tv_end = 1, tv_keys = []\<rparr>,
     l7_metricsStart = 0, l7_metricsEnd = 1, l7_limit = 0,
     l7_proxy = \<lparr>he_start = 0, he_created = 0, he_allow = 0, he_report = 0, he_latency = 0, he_RoundTrip = (\<lambda>_. Inr resp)\<rparr>\<rparr>"

definition sample_l7_conf :: "(mw_world, unit obs_ctx_ext) conf" where
  "sample_l7_conf = \<lparr>cf_w = new_writer,
     cf_r = \<lparr>r_Method = ''GET'', r_Host = ''gw'', r_Path = ''/x'', r_RawPath = [], r_RawQuery = [], r_RequestURI = ''/x'',
       r_Header = no_header, r_RemoteAddr = ''c:1'', r_TLS = False, r_ContentLength = 0, r_Close = False,
       r_ctx = \<lparr>ctx_route = None, ctx_requestID = None, ctx_trace = None, ctx_logger = None\<rparr>\<rparr>,
     cf_world = empty_log_world (cf_world sample_conf)\<rparr>"

lemma sample_l7_sel [simp]:
  "cf_w sample_l7_conf = new_writer" "world_gw sample_l7_conf = sample_gateway" "hp_metrics (hw_proxy (cf_world sample_l7_conf))"
  "world_breakers sample_l7_conf = \<lparr>bk_map = Some Map.empty, bk_config = cb_DefaultConfig\<rparr>" "mw_log (cf_world sample_l7_conf) = []"
  by (simp_all add: sample_l7_conf_def empty_log_world_def http_world.defs mw_world.defs sample_conf_def NewHTTPProxy_def)

lemma sample_l7_admitted:
  "admitted (l7_proxy (sample_l7_env resp)) sample_l7_conf ''a:80'' (RR \<lparr>rr_backends = [0], rr_counter = 1\<rparr>) sample_breakers_after"
  using sample_allowed by (simp add: admitted_def sample_l7_env_def sample_gateway_next sample_gateway_addr)

theorem l7_request_counted_twice_witness:
  "requestsTotal (gw_metrics (world_gw (snd (l7_handler (NewLogger DefaultLogConfig) False (sample_l7_env sample_response) sample_l7_conf)))) = 2"
proof -
  have "fresh_writer (cf_w sample_l7_conf)" "w_wraps (cf_w sample_l7_conf) = []" by (simp_all add: fresh_writer_def new_writer_def)
  note this sample_l7_admitted [of sample_response]
  moreover have "\<forall>out. he_RoundTrip (l7_proxy (sample_l7_env sample_response)) out = Inr sample_response" by (simp add: sample_l7_env_def)
  ultimately have "\<exists>c'. l7_handler (NewLogger DefaultLogConfig) False (sample_l7_env sample_response) sample_l7_conf = (False, c') \<and>
      requestsTotal (gw_metrics (world_gw c')) = requestsTotal (gw_metrics (world_gw sample_l7_conf)) + 2"
    using l7_request_counted_twice [of sample_l7_conf "sample_l7_env sample_response" "''a:80''" _ sample_breakers_after sample_response False
      "NewLogger DefaultLogConfig", OF _ _ _ _ sample_proper _ _ _ refl]
    by (fastforce simp: NewLogger_def DefaultLogConfig_def)
  then show ?thesis by (auto simp: sample_gateway_def NewCollector_def Let_def)
qed

section \<open>A panic\<close>

text \<open>A handler that panics before anything is sent.\<close>

definition crashes :: "('z http_world_scheme, 'x) handler \<Rightarrow> (Collector \<Rightarrow> Collector) \<Rightarrow> ('z http_world_scheme, 'x) conf \<Rightarrow> bool" where
  "crashes h f c \<longleftrightarrow> (\<exists>c'. h c = (True, c') \<and> w_status (cf_w c') = None \<and> gw_metrics (world_gw c') = f (gw_metrics (world_gw c)))"

lemma wrap_WriteHeader_panic:
  assumes "w_status w = None" and "code < 100" and "\<forall>rw \<in> set rws. \<not> rw_wroteHeader rw"
  shows "\<exists>rws'. wrap_WriteHeader code rws w = (True, rws', w)"
  using assms wrap_WriteHeader_fresh [OF assms(3), of code w] by (simp add: base_WriteHeader_def)

lemma proxy_crashes:
  assumes "fresh_writer (cf_w c)" and "admitted env c addr lb t" and "\<forall>out. he_RoundTrip env out = Inr resp" and "rs_StatusCode resp < 100"
  shows "crashes (Headers (http_ServeHTTP env)) id c"
proof -
  obtain h where h: "Headers (http_ServeHTTP env) c = http_ServeHTTP env (c\<lparr>cf_r := (cf_r c)\<lparr>r_Header := h\<rparr>\<rparr>)"
    using Headers_eq [of "http_ServeHTTP env" c] by blast
  let ?w = "(cf_w c)\<lparr>w_Header := copyHeaders (rs_keys resp) (rs_Header resp) (w_Header (cf_w c))\<rparr>"
  obtain rws where "wrap_WriteHeader (rs_StatusCode resp) (w_wraps ?w) ?w = (True, rws, ?w)"
    using wrap_WriteHeader_panic [of ?w "rs_StatusCode resp" "w_wraps ?w"] assms(1,4) by (auto simp: fresh_writer_def)
  then have wh: "w_WriteHeader (rs_StatusCode resp) ?w = (True, ?w\<lparr>w_wraps := rws\<rparr>)" by (simp add: w_WriteHeader_def)
  obtain b where b: "lb_Next (gw_heap (world_gw c)) (gw_lb (world_gw c)) = (Inr b, lb)" "addr = b_Addr (gw_heap (world_gw c)) b"
    "allow_through (he_created env) (he_allow env) addr (world_breakers c) = (None, t)"
    using assms(2) by (auto simp: admitted_def)
  then show ?thesis unfolding crashes_def h
    using assms(1,3) wh by (simp add: http_ServeHTTP_def http_body_def http_respond_def Let_def fresh_writer_def)
qed

lemma limited_crashes:
  assumes "fst (tb_Allow rnd now (gw_limiter (world_gw c)))" and "\<And>tb. crashes h f (on_gw (\<lambda>g. g\<lparr>gw_limiter := tb\<rparr>) c)"
  shows "crashes (RateLimit rnd now h) f c"
proof -
  obtain tb where tb: "tb_Allow rnd now (gw_limiter (world_gw c)) = (True, tb)" using assms(1) by (cases "tb_Allow rnd now (gw_limiter (world_gw c))") simp
  then have "RateLimit rnd now h c = h (on_gw (\<lambda>g. g\<lparr>gw_limiter := tb\<rparr>) c)" by (simp add: RateLimit_def)
  with assms(2) [of tb] show ?thesis by (auto simp: crashes_def on_gw_def)
qed

lemma crash_case:
  "\<exists>c'. X = (None, c') \<and> P c' \<Longrightarrow> \<exists>c'. (case X of (None, c1) \<Rightarrow> (True, c1) | (Some w, c1) \<Rightarrow> F w c1) = (True, c') \<and> P c'"
  by auto

lemma metrics_crashes:
  assumes "crashes h f (on_gw (gw_record True RecordConnection) (c\<lparr>cf_w := push_wrap (cf_w c)\<rparr>))"
  shows "crashes (Metrics_mw start now h) (\<lambda>m. f (RecordConnection m)) c"
proof -
  let ?c1 = "on_gw (gw_record True RecordConnection) c"
  have push: "?c1\<lparr>cf_w := push_wrap (cf_w ?c1)\<rparr> = on_gw (gw_record True RecordConnection) (c\<lparr>cf_w := push_wrap (cf_w c)\<rparr>)"
    by (simp add: on_gw_def)
  obtain c' where c': "h (on_gw (gw_record True RecordConnection) (c\<lparr>cf_w := push_wrap (cf_w c)\<rparr>)) = (True, c')"
    "w_status (cf_w c') = None" "gw_metrics (world_gw c') = f (RecordConnection (gw_metrics (world_gw c)))"
    using assms by (auto simp: crashes_def on_gw_def)
  have "serve_wrapped h ?c1 = (None, c')" unfolding serve_wrapped_def push c'(1) by simp
  then show ?thesis using c'(2,3) by (simp add: crashes_def Metrics_mw_def)
qed

lemma traced_crash:
  assumes "fresh_writer (cf_w c)"
    and "\<And>r w. fresh_writer w \<Longrightarrow> crashes h f (c\<lparr>cf_r := r, cf_w := w\<rparr>)"
  shows "crashes (Tracing rnd tv l h) f c"
proof -
  have inner: "\<exists>c'. serve_wrapped (serve_with_context ctx h) (c\<lparr>cf_r := r, cf_w := w\<rparr>) = (None, c') \<and> w_status (cf_w c') = None \<and>
      gw_metrics (world_gw c') = f (gw_metrics (world_gw c))" if "fresh_writer w" for r w ctx
    using assms(2) [OF fresh_push [OF that], of "r\<lparr>r_ctx := ctx\<rparr>"]
    by (cases c) (auto simp: crashes_def serve_wrapped_def serve_with_context_def)
  have "fresh_writer ((cf_w c)\<lparr>w_Header := g\<rparr>)" for g using assms(1) by (simp add: fresh_writer_def)
  note inner = inner [OF this]
  show ?thesis unfolding crashes_def Tracing_def Let_def
    by (cases "hdr_Get (r_Header (cf_r c)) ''X-Request-ID'' = []")
      (simp_all only: if_True if_False simp_thms prod.case, (rule crash_case, rule inner)+)
qed

text \<open>A backend whose response carries a status below 100 makes the proxy panic, and the process
  survives it: \<^verbatim>\<open>Recovery\<close> answers 500. But the connection that \<^verbatim>\<open>Metrics\<close> has counted as active is
  never counted as closed, the request is in no counter, and its access-log line is missing.\<close>

theorem l7_panic_leaks_connection:
  assumes "fresh_writer (cf_w c)" and "w_wraps (cf_w c) = []"
    and "admitted (l7_proxy env) c addr lb t" and "\<forall>out. he_RoundTrip (l7_proxy env) out = Inr resp" and "rs_StatusCode resp < 100"
    and "rateLimited \<longrightarrow> fst (tb_Allow (l7_rnd env) (l7_limit env) (gw_limiter (world_gw c)))"
  shows "\<exists>c'. l7_handler l rateLimited env c = (False, c') \<and> w_status (cf_w c') = Some 500 \<and>
    connectionsActive (gw_metrics (world_gw c')) = connectionsActive (gw_metrics (world_gw c)) + 1 \<and>
    requestsTotal (gw_metrics (world_gw c')) = requestsTotal (gw_metrics (world_gw c))"
proof -
  let ?inner = "if rateLimited then RateLimit (l7_rnd env) (l7_limit env) (Headers (http_ServeHTTP (l7_proxy env)))
    else Headers (http_ServeHTTP (l7_proxy env))"
  have handler: "l7_handler l rateLimited env = Recovery l (Tracing (l7_rnd env) (l7_trace env) l
      (Metrics_mw (l7_metricsStart env) (l7_metricsEnd env) ?inner))" by (simp add: l7_handler_def)
  have "crashes (Metrics_mw (l7_metricsStart env) (l7_metricsEnd env) ?inner) (\<lambda>m. id (RecordConnection m)) (c\<lparr>cf_r := r, cf_w := w\<rparr>)"
    if w: "fresh_writer w" for r w
  proof (rule metrics_crashes)
    let ?c1 = "on_gw (gw_record True RecordConnection) ((c\<lparr>cf_r := r, cf_w := w\<rparr>)\<lparr>cf_w := push_wrap (cf_w (c\<lparr>cf_r := r, cf_w := w\<rparr>))\<rparr>)"
    have hdrs: "crashes (Headers (http_ServeHTTP (l7_proxy env))) id (on_gw k ?c1)"
      if "k = id \<or> (\<exists>tb. k = (\<lambda>g. g\<lparr>gw_limiter := tb\<rparr>))" for k
      by (rule proxy_crashes) (use that assms(3-5) fresh_push [OF w] in \<open>auto simp: admitted_def on_gw_def gw_record_def\<close>)
    have id: "on_gw id ?c1 = ?c1" by (simp add: on_gw_def)
    show "crashes ?inner id ?c1"
    proof (cases rateLimited)
      case True
      then have "fst (tb_Allow (l7_rnd env) (l7_limit env) (gw_limiter (world_gw ?c1)))"
        using assms(6) by (simp add: on_gw_def gw_record_def)
      then show ?thesis using True hdrs by (auto intro: limited_crashes)
    qed (use hdrs [of id] id in simp)
  qed
  from traced_crash [OF assms(1) this, of "l7_rnd env" "l7_trace env" l] obtain c1 where
    run: "Tracing (l7_rnd env) (l7_trace env) l (Metrics_mw (l7_metricsStart env) (l7_metricsEnd env) ?inner) c = (True, c1)"
    and w1: "w_status (cf_w c1) = None" and m1: "gw_metrics (world_gw c1) = RecordConnection (gw_metrics (world_gw c))"
    by (auto simp: crashes_def)
  have "fresh_writer (unwrap_to 0 (cf_w c1))" using w1 by (simp add: fresh_writer_def)
  then have "w_status (http_Error ''Internal Server Error'' 500 (unwrap_to 0 (cf_w c1))) = Some 500"
    using http_Error_fresh [of "unwrap_to 0 (cf_w c1)" 500] by (simp add: bodyAllowedForStatus_def)
  then show ?thesis using run m1 assms(2) by (simp add: handler Recovery_def Let_def RecordConnection_def)
qed

theorem l7_panic_leaks_connection_witness:
  "connectionsActive (gw_metrics (world_gw (snd (l7_handler (NewLogger DefaultLogConfig) False
     (sample_l7_env (sample_response\<lparr>rs_StatusCode := 99\<rparr>)) sample_l7_conf)))) = 1"
proof -
  let ?resp = "sample_response\<lparr>rs_StatusCode := 99\<rparr>"
  have "fresh_writer (cf_w sample_l7_conf)" "w_wraps (cf_w sample_l7_conf) = []" by (simp_all add: fresh_writer_def new_writer_def)
  moreover have "\<forall>out. he_RoundTrip (l7_proxy (sample_l7_env ?resp)) out = Inr ?resp" by (simp add: sample_l7_env_def)
  ultimately have "\<exists>c'. l7_handler (NewLogger DefaultLogConfig) False (sample_l7_env ?resp) sample_l7_conf = (False, c') \<and>
      connectionsActive (gw_metrics (world_gw c')) = connectionsActive (gw_metrics (world_gw sample_l7_conf)) + 1"
    using l7_panic_leaks_connection [of sample_l7_conf "sample_l7_env ?resp" _ _ _ ?resp False "NewLogger DefaultLogConfig",
      OF _ _ sample_l7_admitted] by fastforce
  then show ?thesis by (auto simp: sample_gateway_def NewCollector_def Let_def)
qed

end
