(* ===== verification/Process.thy ===== *)
theory Process
  imports Sluice
begin

text \<open>
  The life of the process of \<^verbatim>\<open>cmd/sluice/main.go\<close>: start-up, the goroutines that run beside
  \<^verbatim>\<open>main\<close>, and the shutdown, as a step relation. A step is one step of one goroutine: of
  \<^verbatim>\<open>main\<close> itself, of the TCP proxy (its accept loop and handlers, from \<^verbatim>\<open>TCPProxy\<close>), of
  the goroutine that watches the registry, of a client of the registry, of the HTTP server, of the
  signal handler. \<^verbatim>\<open>http.Server.Shutdown\<close> closes the listener and waits for the requests or for its
  context; \<^verbatim>\<open>os.Exit\<close> and the return of \<^verbatim>\<open>main\<close> end the process with a code, an unrecovered panic
  in any goroutine crashes it.
\<close>

section \<open>Start-up\<close>

text \<open>The configuration with which the process starts, or the code with which it exits.\<close>

definition main_load :: "(string \<Rightarrow> string + 'd) \<Rightarrow> ('d \<Rightarrow> string + Config) \<Rightarrow> string \<Rightarrow> int + Config" where
  "main_load readFile unmarshal configPath =
    (case Load readFile unmarshal configPath of
       Inl err \<Rightarrow> Inl 1
     | Inr cfg \<Rightarrow> (case Validate cfg of Some err \<Rightarrow> Inl 1 | None \<Rightarrow> Inr cfg))"

definition main_logger :: "Config \<Rightarrow> logger" where
  "main_logger cfg =
    (let lc = s_Logging (Server cfg)
     in NewLogger \<lparr>lg_Level = lc_Level lc, lg_Format = lc_Format lc, lg_AddSource = lc_AddSource lc\<rparr>)"

datatype server = NotConfigured | NotStarted | Listening | ShutDown

datatype watch_pc = NoWatcher | Spawned | Watching chan_ref | Ended

text \<open>Where \<^verbatim>\<open>main\<close> is. \<open>DrainL7\<close> and \<open>Stopping\<close> are the waits inside \<^verbatim>\<open>Shutdown\<close> and \<^verbatim>\<open>Stop\<close>.\<close>

datatype main_pc =
  StartServers | StartChecker | StartProxy | AwaitReady | StartL7 | AwaitCancel |
  ShutL7 | DrainL7 | ShutAdmin | ShutRegistry | StopRegistry | StopProxy | Stopping | StopChecker

record process =
  pr_pc :: main_pc
  pr_cancelled :: bool
  pr_expired :: bool
  pr_l7 :: server
  pr_l7Active :: nat
  pr_admin :: server
  pr_registryServer :: server
  pr_registry :: "Registry option"
  pr_watcher :: watch_pc
  pr_tcp :: TCPProxy
  pr_threads :: "tcp_pc multiset"
  pr_checker :: Checker

datatype proc = Up process | Exited int process | Crashed

definition configured :: "bool \<Rightarrow> server" where
  "configured b = (if b then NotStarted else NotConfigured)"

definition main_process :: "sluice \<Rightarrow> process" where
  "main_process s =
    \<lparr>pr_pc = StartServers, pr_cancelled = False, pr_expired = False, pr_l7 = configured (sl_http s \<noteq> None), pr_l7Active = 0,
     pr_admin = configured (ac_Enabled (s_Admin (Server (sl_startConfig s)))),
     pr_registryServer = configured (sl_registry s \<noteq> None), pr_registry = sl_registry s, pr_watcher = NoWatcher,
     pr_tcp = sl_tcp s, pr_threads = {#}, pr_checker = sl_checker s\<rparr>"

text \<open>\<^verbatim>\<open>ListenAndServe\<close> in a goroutine of its own, and \<^verbatim>\<open>Shutdown\<close>.\<close>

definition launch :: "server \<Rightarrow> server" where
  "launch v = (if v = NotStarted then Listening else v)"

definition shut :: "server \<Rightarrow> server" where
  "shut v = (if v = NotConfigured then NotConfigured else ShutDown)"

definition start_servers :: "process \<Rightarrow> process" where
  "start_servers s =
    s\<lparr>pr_pc := StartChecker, pr_admin := launch (pr_admin s), pr_registryServer := launch (pr_registryServer s),
      pr_watcher := (if pr_registry s \<noteq> None then Spawned else NoWatcher)\<rparr>"

definition start_checker :: "process \<Rightarrow> proc" where
  "start_checker s =
    (let (panics, c) = hc_Start (pr_checker s)
     in if panics then Crashed else Up (s\<lparr>pr_pc := StartProxy, pr_checker := c\<rparr>))"

definition start_proxy :: "net_error option \<Rightarrow> process \<Rightarrow> proc" where
  "start_proxy listen s =
    (case tp_Start listen (pr_tcp s) of
       (Some err, p) \<Rightarrow> Exited 1 (s\<lparr>pr_tcp := p\<rparr>)
     | (None, p) \<Rightarrow> Up (s\<lparr>pr_pc := AwaitReady, pr_tcp := p, pr_threads := add_mset AcceptSpawned (pr_threads s)\<rparr>))"

section \<open>Shutdown\<close>

definition shut_l7 :: "process \<Rightarrow> process" where
  "shut_l7 s = (if pr_l7 s = NotConfigured then s\<lparr>pr_pc := ShutAdmin\<rparr> else s\<lparr>pr_pc := DrainL7, pr_l7 := ShutDown\<rparr>)"

definition stop_registry :: "process \<Rightarrow> proc" where
  "stop_registry s =
    (case pr_registry s of
       None \<Rightarrow> Up (s\<lparr>pr_pc := StopProxy\<rparr>)
     | Some r \<Rightarrow> (let (panics, r') = reg_Stop r in if panics then Crashed else Up (s\<lparr>pr_pc := StopProxy, pr_registry := Some r'\<rparr>)))"

definition stop_proxy :: "process \<Rightarrow> process" where
  "stop_proxy s =
    (case tp_StopEnter (pr_tcp s) of
       (True, p) \<Rightarrow> s\<lparr>pr_pc := StopChecker, pr_tcp := p\<rparr>
     | (False, p) \<Rightarrow> s\<lparr>pr_pc := Stopping, pr_tcp := p, pr_threads := add_mset StopWaitAccept (pr_threads s)\<rparr>)"

definition proxy_timeout :: "tcp_pc multiset \<Rightarrow> process \<Rightarrow> proc" where
  "proxy_timeout T s =
    (case tp_StopTimeout (pr_tcp s) of
       Some err \<Rightarrow> Exited 1 (s\<lparr>pr_threads := T\<rparr>)
     | None \<Rightarrow> Up (s\<lparr>pr_pc := StopChecker, pr_threads := T\<rparr>))"

definition stop_checker :: "process \<Rightarrow> proc" where
  "stop_checker s =
    (let (panics, c) = hc_Stop (pr_checker s) in if panics then Crashed else Exited 0 (s\<lparr>pr_checker := c\<rparr>))"

section \<open>The watcher of the registry\<close>

text \<open>\<^verbatim>\<open>watchRegistryChanges\<close>: it subscribes, ranges over the channel, and unsubscribes when the channel is
  closed and drained. What an event installs is \<^const>\<open>registryEvent\<close>.\<close>

definition watch_end :: "chan_ref \<Rightarrow> Registry \<Rightarrow> process \<Rightarrow> proc" where
  "watch_end ch r s =
    (let (panics, r') = reg_Unsubscribe ch r
     in if panics then Crashed else Up (s\<lparr>pr_watcher := Ended, pr_registry := Some r'\<rparr>))"

inductive watcher_step :: "proc \<Rightarrow> proc \<Rightarrow> bool" where
  subscribe: "pr_watcher s = Spawned \<Longrightarrow> pr_registry s = Some r \<Longrightarrow> reg_Subscribe r = (ch, r') \<Longrightarrow>
    watcher_step (Up s) (Up (s\<lparr>pr_watcher := Watching ch, pr_registry := Some r'\<rparr>))"
| receive: "pr_watcher s = Watching ch \<Longrightarrow> pr_registry s = Some r \<Longrightarrow> chan_recv ch r = (Some e, r') \<Longrightarrow>
    watcher_step (Up s) (Up (s\<lparr>pr_registry := Some r'\<rparr>))"
| closed: "pr_watcher s = Watching ch \<Longrightarrow> pr_registry s = Some r \<Longrightarrow> ch_closed (reg_chans r ch) \<Longrightarrow> ch_buf (reg_chans r ch) = [] \<Longrightarrow>
    watcher_step (Up s) (watch_end ch r s)"

section \<open>One step of the process\<close>

text \<open>The operations that clients of the registry and its clean-up perform.\<close>

fun client_op :: "reg_op \<Rightarrow> bool" where
  "client_op (OpRegister now rnd svc) = True"
| "client_op (OpDeregister now sid) = True"
| "client_op (OpHeartbeat now sid) = True"
| "client_op (OpCleanup now clock order) = True"
| "client_op _ = False"

text \<open>A step of the accept loop or of a handler: one that neither starts nor stops the proxy. \<open>ctx\<close> says whether the context of the
  process is done.\<close>

definition own_step :: "bool \<Rightarrow> TCPProxy \<Rightarrow> tcp_pc multiset \<Rightarrow> TCPProxy \<Rightarrow> tcp_pc multiset \<Rightarrow> bool" where
  "own_step ctx p T p' T' \<longleftrightarrow> life_step ctx (Live p T) (Live p' T') \<and> tp_running p' = tp_running p \<and> tp_stopped p' = tp_stopped p \<and>
    tp_listener p' = tp_listener p \<and> filter_mset is_stop T' = filter_mset is_stop T"

text \<open>The deadline of the shutdown runs from its beginning.\<close>

definition shutting :: "main_pc \<Rightarrow> bool" where
  "shutting pc \<longleftrightarrow> pc \<in> {ShutL7, DrainL7, ShutAdmin, ShutRegistry, StopRegistry, StopProxy, Stopping, StopChecker}"

text \<open>One step of \<^verbatim>\<open>main\<close>.\<close>

inductive main_step :: "process \<Rightarrow> proc \<Rightarrow> bool" where
  servers: "pr_pc s = StartServers \<Longrightarrow> main_step s (Up (start_servers s))"
| checker: "pr_pc s = StartChecker \<Longrightarrow> main_step s (start_checker s)"
| proxy: "pr_pc s = StartProxy \<Longrightarrow> main_step s (start_proxy listen s)"
| is_ready: "pr_pc s = AwaitReady \<Longrightarrow> tp_readyClosed (pr_tcp s) \<Longrightarrow> main_step s (Up (s\<lparr>pr_pc := StartL7\<rparr>))"
| l7: "pr_pc s = StartL7 \<Longrightarrow> main_step s (Up (s\<lparr>pr_pc := AwaitCancel, pr_l7 := launch (pr_l7 s)\<rparr>))"
| cancelled: "pr_pc s = AwaitCancel \<Longrightarrow> pr_cancelled s \<Longrightarrow> main_step s (Up (s\<lparr>pr_pc := ShutL7\<rparr>))"
| shut_http: "pr_pc s = ShutL7 \<Longrightarrow> main_step s (Up (shut_l7 s))"
| drained: "pr_pc s = DrainL7 \<Longrightarrow> pr_l7Active s = 0 \<or> pr_expired s \<Longrightarrow> main_step s (Up (s\<lparr>pr_pc := ShutAdmin\<rparr>))"
| shut_admin: "pr_pc s = ShutAdmin \<Longrightarrow> main_step s (Up (s\<lparr>pr_pc := ShutRegistry, pr_admin := shut (pr_admin s)\<rparr>))"
| shut_registry: "pr_pc s = ShutRegistry \<Longrightarrow>
    main_step s (Up (s\<lparr>pr_pc := StopRegistry, pr_registryServer := shut (pr_registryServer s)\<rparr>))"
| registry_stop: "pr_pc s = StopRegistry \<Longrightarrow> main_step s (stop_registry s)"
| proxy_stop: "pr_pc s = StopProxy \<Longrightarrow> main_step s (Up (stop_proxy s))"
| accept_left: "pr_pc s = Stopping \<Longrightarrow> pr_threads s = add_mset StopWaitAccept T \<Longrightarrow> tp_acceptWg (pr_tcp s) = 0 \<Longrightarrow>
    main_step s (Up (s\<lparr>pr_threads := add_mset StopWaitConns T\<rparr>))"
| conns_left: "pr_pc s = Stopping \<Longrightarrow> pr_threads s = add_mset StopWaitConns T \<Longrightarrow> tp_connWg (pr_tcp s) = 0 \<Longrightarrow>
    main_step s (Up (s\<lparr>pr_pc := StopChecker, pr_threads := T\<rparr>))"
| timed_out: "pr_pc s = Stopping \<Longrightarrow> pr_threads s = add_mset StopWaitConns T \<Longrightarrow> pr_expired s \<Longrightarrow>
    main_step s (proxy_timeout T s)"
| checker_stop: "pr_pc s = StopChecker \<Longrightarrow> main_step s (stop_checker s)"

text \<open>One step of any goroutine, of a client, or of the clock.\<close>

inductive proc_step :: "proc \<Rightarrow> proc \<Rightarrow> bool" where
  main: "main_step s \<sigma> \<Longrightarrow> proc_step (Up s) \<sigma>"
| signal: "proc_step (Up s) (Up (s\<lparr>pr_cancelled := True\<rparr>))"
| expire: "shutting (pr_pc s) \<Longrightarrow> proc_step (Up s) (Up (s\<lparr>pr_expired := True\<rparr>))"
| l7_failed: "pr_l7 s = Listening \<Longrightarrow> proc_step (Up s) (Up (s\<lparr>pr_l7 := ShutDown, pr_cancelled := True\<rparr>))"
| l7_request: "pr_l7 s = Listening \<Longrightarrow> proc_step (Up s) (Up (s\<lparr>pr_l7Active := pr_l7Active s + 1\<rparr>))"
| l7_reply: "pr_l7Active s = Suc n \<Longrightarrow> proc_step (Up s) (Up (s\<lparr>pr_l7Active := n\<rparr>))"
| tcp: "own_step (pr_cancelled s) (pr_tcp s) (pr_threads s) p T \<Longrightarrow> proc_step (Up s) (Up (s\<lparr>pr_tcp := p, pr_threads := T\<rparr>))"
| tcp_panic: "life_step (pr_cancelled s) (Live (pr_tcp s) (pr_threads s)) Panic \<Longrightarrow> proc_step (Up s) Crashed"
| client: "pr_registry s = Some r \<Longrightarrow> client_op e \<Longrightarrow> reg_legal r e \<Longrightarrow> \<not> reg_panics r e \<Longrightarrow>
    proc_step (Up s) (Up (s\<lparr>pr_registry := Some (reg_step r e)\<rparr>))"
| client_panic: "pr_registry s = Some r \<Longrightarrow> client_op e \<Longrightarrow> reg_legal r e \<Longrightarrow> reg_panics r e \<Longrightarrow> proc_step (Up s) Crashed"
| check_ticker: "hc_running (pr_checker s) \<Longrightarrow> ticker_panics (hc_Interval (hc_config (pr_checker s))) \<Longrightarrow> proc_step (Up s) Crashed"
| cleanup_ticker: "pr_registry s = Some r \<Longrightarrow> ticker_panics (CleanupInterval (reg_config r)) \<Longrightarrow> proc_step (Up s) Crashed"
| watch: "watcher_step \<sigma> \<sigma>' \<Longrightarrow> proc_step \<sigma> \<sigma>'"

section \<open>The invariant\<close>

definition tcp_ok :: "process \<Rightarrow> bool" where
  "tcp_ok s \<longleftrightarrow> life_inv (Live (pr_tcp s) (pr_threads s)) \<and>
    size (filter_mset is_stop (pr_threads s)) = (if pr_pc s = Stopping then 1 else 0) \<and>
    tp_running (pr_tcp s) = (pr_pc s \<notin> {StartServers, StartChecker, StartProxy, Stopping, StopChecker}) \<and>
    tp_stopped (pr_tcp s) = (pr_pc s \<in> {Stopping, StopChecker})"

definition checker_ok :: "process \<Rightarrow> bool" where
  "checker_ok s \<longleftrightarrow> hc_running (pr_checker s) = (pr_pc s \<notin> {StartServers, StartChecker}) \<and>
    (pr_pc s \<in> {StartServers, StartChecker} \<longrightarrow> \<not> hc_readyClosed (pr_checker s)) \<and> \<not> hc_doneClosed (pr_checker s)"

fun watched :: "Registry option \<Rightarrow> watch_pc \<Rightarrow> bool" where
  "watched None w \<longleftrightarrow> w = NoWatcher"
| "watched (Some r) w \<longleftrightarrow> reg_inv r \<and> w \<noteq> Ended \<and> (\<forall>ch. w = Watching ch \<longrightarrow> ch \<in> subscribers r \<or> ch_closed (reg_chans r ch))"

definition registry_ok :: "process \<Rightarrow> bool" where
  "registry_ok s \<longleftrightarrow> watched (pr_registry s) (pr_watcher s) \<and>
    (pr_pc s \<in> {StopProxy, Stopping, StopChecker} \<longrightarrow> (\<forall>r. pr_registry s = Some r \<longrightarrow> reg_cancelled r))"

text \<open>No request of the HTTP listener is lost before the deadline, and none is accepted after the
  shutdown has begun; the other servers are shut down one after the other; when the proxy has been stopped in time, no goroutine of it is left.\<close>

definition gone :: "server \<Rightarrow> bool" where
  "gone v \<longleftrightarrow> v = NotConfigured \<or> v = ShutDown"

definition drained_ok :: "process \<Rightarrow> bool" where
  "drained_ok s \<longleftrightarrow>
    (pr_pc s \<in> {ShutRegistry, StopRegistry, StopProxy, Stopping, StopChecker} \<longrightarrow> gone (pr_admin s)) \<and>
    (pr_pc s \<in> {StopRegistry, StopProxy, Stopping, StopChecker} \<longrightarrow> gone (pr_registryServer s)) \<and>
    (pr_l7 s \<in> {NotConfigured, NotStarted} \<longrightarrow> pr_l7Active s = 0) \<and>
    (pr_l7 s = NotStarted \<longrightarrow> pr_pc s \<in> {StartServers, StartChecker, StartProxy, AwaitReady, StartL7}) \<and>
    (pr_pc s \<in> {DrainL7, ShutAdmin, ShutRegistry, StopRegistry, StopProxy, Stopping, StopChecker} \<longrightarrow> pr_l7 s \<noteq> Listening) \<and>
    (pr_pc s \<in> {ShutAdmin, ShutRegistry, StopRegistry, StopProxy, Stopping, StopChecker} \<longrightarrow> pr_expired s \<or> pr_l7Active s = 0) \<and>
    (pr_pc s = StopChecker \<longrightarrow> pr_expired s \<or> filter_mset is_handler (pr_threads s) = {#} \<and> filter_mset is_accept (pr_threads s) = {#})"

definition proc_inv :: "process \<Rightarrow> bool" where
  "proc_inv s \<longleftrightarrow> tcp_ok s \<and> checker_ok s \<and> registry_ok s \<and> drained_ok s"

lemma client_op_frame:
  assumes "client_op e" and "reg_inv r" and "reg_legal r e"
  shows "subscribers (reg_step r e) = subscribers r" "ch_closed (reg_chans (reg_step r e) ch) = ch_closed (reg_chans r ch)"
    "\<not> reg_panics r e" "reg_cancelled (reg_step r e) = reg_cancelled r"
proof -
  have notify: "subscribers (snd (reg_notify ev r)) = subscribers r \<and> reg_cancelled (snd (reg_notify ev r)) = reg_cancelled r \<and> ch_closed (reg_chans (snd (reg_notify ev r)) ch) = ch_closed (reg_chans r ch)"
    for ev r by (simp add: reg_notify_def)
  have expired: "subscribers (snd (notify_expired now svcs r)) = subscribers r \<and> reg_cancelled (snd (notify_expired now svcs r)) = reg_cancelled r \<and>
      ch_closed (reg_chans (snd (notify_expired now svcs r)) ch) = ch_closed (reg_chans r ch)" for now svcs r
    by (induction svcs arbitrary: r) (simp_all add: case_prod_unfold Let_def notify)
  have collect: "subscribers (snd (cleanup_collect clock sids r)) = subscribers r \<and> reg_chans (snd (cleanup_collect clock sids r)) = reg_chans r \<and>
      reg_cancelled (snd (cleanup_collect clock sids r)) = reg_cancelled r"
    for clock sids r
  proof (induction sids arbitrary: r)
    case (Cons sid sids)
    then show ?case by (cases "services r sid") (simp_all add: cleanup_collect.simps case_prod_unfold Let_def)
  qed (simp add: cleanup_collect.simps)
  have "subscribers (reg_step r e) = subscribers r \<and> ch_closed (reg_chans (reg_step r e) ch) = ch_closed (reg_chans r ch) \<and>
      reg_cancelled (reg_step r e) = reg_cancelled r"
    using assms(1)
    by (cases e) (auto simp: reg_Register_def reg_Deregister_def reg_Heartbeat_def cleanupExpired_def case_prod_unfold Let_def
        notify expired collect split: option.splits)
  then show "subscribers (reg_step r e) = subscribers r" "ch_closed (reg_chans (reg_step r e) ch) = ch_closed (reg_chans r ch)"
    "reg_cancelled (reg_step r e) = reg_cancelled r" by blast+
  show "\<not> reg_panics r e" using assms by (cases e) (simp_all add: reg_Register_inv reg_Deregister_inv cleanupExpired_inv)
qed

lemma watch_end_crashes: "ch_closed (reg_chans r ch) \<Longrightarrow> watch_end ch r s = Crashed"
  by (simp add: watch_end_def reg_Unsubscribe_def chan_close_def)

lemma recv_frame:
  "chan_recv ch r = (Some e, r') \<Longrightarrow> subscribers r' = subscribers r \<and> reg_cancelled r' = reg_cancelled r \<and> ch_closed (reg_chans r' c) = ch_closed (reg_chans r c)"
  by (cases "c = ch") (auto simp: chan_recv_def split: list.splits)

lemma watcher_step_ok:
  assumes "watcher_step (Up s) \<sigma>" and "registry_ok s"
  shows "\<sigma> = Crashed \<and> pr_registry s \<noteq> None \<or>
    (\<exists>r w. \<sigma> = Up (s\<lparr>pr_registry := Some r, pr_watcher := w\<rparr>) \<and> pr_registry s \<noteq> None \<and> registry_ok (s\<lparr>pr_registry := Some r, pr_watcher := w\<rparr>))"
  using assms
proof (cases rule: watcher_step.cases)
  case (subscribe r ch r')
  then have "reg_inv r'" using assms(2) reg_Subscribe_inv [of r] by (simp add: registry_ok_def)
  moreover have "ch \<in> subscribers r'" "reg_cancelled r' = reg_cancelled r" using subscribe by (auto simp: reg_Subscribe_def Let_def)
  ultimately show ?thesis using subscribe assms(2)
    by (intro disjI2 exI [of _ r'] exI [of _ "Watching ch"]) (simp add: registry_ok_def)
next
  case (receive ch r e r')
  then have "reg_inv r'" using assms(2) chan_recv_inv [of r ch] by (simp add: registry_ok_def)
  with receive assms(2) recv_frame [of ch r e r'] show ?thesis
    by (intro disjI2 exI [of _ r'] exI [of _ "Watching ch"]) (auto simp: registry_ok_def)
next
  case (closed ch r)
  then show ?thesis by (simp add: watch_end_crashes)
qed


text \<open>What an exit tells: code 0 is returned only by a process that has stopped everything, and before the deadline
  only when nothing was left in flight; code 1 only when the proxy could not start, or when the
  deadline passed with connections still active.\<close>

definition exit_ok :: "int \<Rightarrow> process \<Rightarrow> bool" where
  "exit_ok code s \<longleftrightarrow>
    code = 0 \<and> gone (pr_l7 s) \<and> gone (pr_admin s) \<and> gone (pr_registryServer s) \<and>
      (\<forall>r. pr_registry s = Some r \<longrightarrow> reg_cancelled r) \<and>
      tp_stopped (pr_tcp s) \<and> tp_listener (pr_tcp s) \<noteq> Some True \<and> \<not> hc_running (pr_checker s) \<and>
      (pr_expired s \<or> pr_l7Active s = 0 \<and> pr_threads s = {#}) \<or>
    code = 1 \<and> (pr_pc s = StartProxy \<and> \<not> tp_running (pr_tcp s) \<and> pr_threads s = {#} \<or> pr_expired s \<and> 0 < tp_activeConns (pr_tcp s))"

text \<open>What a crash takes: the registry, or an interval for which there is no ticker.\<close>

definition crashable :: "process \<Rightarrow> bool" where
  "crashable s \<longleftrightarrow> pr_registry s \<noteq> None \<or> ticker_panics (hc_Interval (hc_config (pr_checker s)))"

fun proc_ok :: "bool \<Rightarrow> proc \<Rightarrow> bool" where
  "proc_ok c (Up s) \<longleftrightarrow> proc_inv s \<and> crashable s = c"
| "proc_ok c (Exited code s) \<longleftrightarrow> exit_ok code s"
| "proc_ok c Crashed \<longleftrightarrow> c"

declare life_inv.simps(2) [simp del]

lemma tcp_pc_kinds: "is_accept t \<or> is_handler t \<or> is_stop t"
  by (cases t) simp_all

lemma no_threads:
  "filter_mset is_accept T = {#} \<Longrightarrow> filter_mset is_handler T = {#} \<Longrightarrow> filter_mset is_stop T = {#} \<Longrightarrow> T = {#}"
  using tcp_pc_kinds by (metis filter_mset_empty multiset_nonemptyE size_empty)

lemma own_step_inv: "own_step ctx p T p' T' \<Longrightarrow> life_inv (Live p T) \<Longrightarrow> life_inv (Live p' T')"
  using life_step_inv unfolding own_step_def by blast

lemma own_step_idle:
  assumes "own_step ctx p {#} p' T'"
  shows "T' = {#}"
proof -
  have "life_step ctx (Live p {#}) (Live p' T')" and flags: "tp_running p' = tp_running p" "filter_mset is_stop T' = {#}"
    using assms by (simp_all add: own_step_def)
  then show ?thesis
    by (cases rule: life_step.cases) (auto simp: tp_Start_def dest: accept_step_needs split: if_splits option.splits)
qed

lemmas proc_inv_defs = proc_inv_def tcp_ok_def checker_ok_def registry_ok_def drained_ok_def

lemma registry_frame:
  "tcp_ok (s\<lparr>pr_registry := x, pr_watcher := w\<rparr>) = tcp_ok s" "checker_ok (s\<lparr>pr_registry := x, pr_watcher := w\<rparr>) = checker_ok s"
  "drained_ok (s\<lparr>pr_registry := x, pr_watcher := w\<rparr>) = drained_ok s"
  by (simp_all add: tcp_ok_def checker_ok_def drained_ok_def)

lemma stopped_threads: "proc_inv s \<Longrightarrow> pr_pc s = StopChecker \<Longrightarrow> pr_expired s \<or> pr_threads s = {#}"
  using no_threads [of "pr_threads s"] by (cases "pr_expired s") (simp_all add: proc_inv_def tcp_ok_def drained_ok_def)

lemma registry_stop_ok:
  assumes "proc_inv s" and "pr_pc s = StopRegistry"
  shows "\<exists>s'. stop_registry s = Up s' \<and> proc_inv s' \<and> crashable s' = crashable s"
proof (cases "pr_registry s")
  case None
  with assms show ?thesis by (auto simp: stop_registry_def crashable_def proc_inv_defs)
next
  case (Some r)
  then have r: "reg_inv r" "reg_inv (snd (reg_Stop r))" "\<not> fst (reg_Stop r)"
    using assms(1) reg_Stop_inv [of r] by (simp_all add: proc_inv_def registry_ok_def)
  have "ch_closed (reg_chans (snd (reg_Stop r)) ch)" if "ch \<in> subscribers r \<or> ch_closed (reg_chans r ch)" for ch
    using that r(3) by (auto simp: reg_Stop_def Let_def split: if_splits)
  moreover have "reg_cancelled (snd (reg_Stop r))" by (simp add: reg_Stop_def Let_def)
  ultimately show ?thesis using assms Some r by (auto simp: stop_registry_def crashable_def proc_inv_defs case_prod_unfold Let_def)
qed

lemma proxy_start_ok:
  assumes "proc_inv s" and "pr_pc s = StartProxy" and "c = crashable s"
  shows "proc_ok c (start_proxy listen s)"
proof (cases "tp_Start listen (pr_tcp s)")
  case (Pair err p)
  have idle: "pr_threads s = {#}" "\<not> tp_running (pr_tcp s)" "\<not> tp_stopped (pr_tcp s)"
    using assms by (simp_all add: proc_inv_def tcp_ok_def life_inv.simps(2))
  show ?thesis
  proof (cases err)
    case None
    then have "life_inv (Live p (add_mset AcceptSpawned (pr_threads s)))"
      using Pair assms(1) life_step_inv [OF start_ok [of listen "pr_tcp s" p False "pr_threads s"]] by (simp add: proc_inv_def tcp_ok_def)
    moreover have "tp_running p" "\<not> tp_stopped p" using Pair None idle by (auto simp: tp_Start_def split: if_splits option.splits)
    ultimately show ?thesis using assms idle Pair None by (auto simp: start_proxy_def crashable_def proc_inv_defs)
  next
    case (Some e)
    then have "\<not> tp_running p" using Pair idle by (auto simp: tp_Start_def split: if_splits option.splits)
    then show ?thesis using Some Pair idle assms(2) by (simp add: start_proxy_def exit_ok_def)
  qed
qed

lemma proxy_stop_ok:
  assumes "proc_inv s" and "pr_pc s = StopProxy"
  shows "proc_inv (stop_proxy s) \<and> crashable (stop_proxy s) = crashable s"
proof -
  obtain p where p: "tp_StopEnter (pr_tcp s) = (False, p)" "\<not> tp_running p" "tp_stopped p"
    using assms by (auto simp: tp_StopEnter_def proc_inv_def tcp_ok_def)
  have "life_inv (Live p (add_mset StopWaitAccept (pr_threads s)))"
    using assms(1) life_step_inv [OF stop_enter [OF p(1), of False "pr_threads s"]] by (simp add: proc_inv_def tcp_ok_def)
  then show ?thesis using assms p by (auto simp: stop_proxy_def crashable_def proc_inv_defs)
qed

lemma drain_ok:
  assumes "proc_inv s" and "pr_pc s = Stopping" and "pr_threads s = add_mset StopWaitAccept T" and "tp_acceptWg (pr_tcp s) = 0"
  shows "proc_inv (s\<lparr>pr_threads := add_mset StopWaitConns T\<rparr>)"
proof -
  have "life_inv (Live (pr_tcp s) (add_mset StopWaitConns T))"
    using assms life_step_inv [OF stop_drain [of "pr_tcp s" False T]] by (simp add: proc_inv_def tcp_ok_def)
  then show ?thesis using assms by (auto simp: proc_inv_defs)
qed

lemma conns_done_ok:
  assumes "proc_inv s" and "pr_pc s = Stopping" and "pr_threads s = add_mset StopWaitConns T" and "tp_connWg (pr_tcp s) = 0 \<or> pr_expired s"
  shows "proc_inv (s\<lparr>pr_pc := StopChecker, pr_threads := T\<rparr>)"
proof -
  have inv: "life_inv (Live (pr_tcp s) (add_mset StopWaitConns T))" using assms by (simp add: proc_inv_def tcp_ok_def)
  then have "life_inv (Live (pr_tcp s) T)" using life_step_inv stop_timeout by blast
  moreover have "filter_mset is_accept T = {#}" "tp_connWg (pr_tcp s) = 0 \<longrightarrow> filter_mset is_handler T = {#}"
    using inv by (auto simp: life_inv.simps(2) split: if_splits)
  ultimately show ?thesis using assms by (auto simp: proc_inv_defs)
qed

lemma checker_ok_steps:
  assumes "proc_inv s"
  shows "pr_pc s = StartChecker \<Longrightarrow> \<exists>s'. start_checker s = Up s' \<and> proc_inv s' \<and> crashable s' = crashable s"
    and "pr_pc s = StopChecker \<Longrightarrow> \<exists>s'. stop_checker s = Exited 0 s' \<and> exit_ok 0 s'"
proof -
  assume "pr_pc s = StartChecker"
  with assms show "\<exists>s'. start_checker s = Up s' \<and> proc_inv s' \<and> crashable s' = crashable s"
    by (simp add: start_checker_def hc_Start_def Let_def crashable_def proc_inv_defs)
next
  assume pc: "pr_pc s = StopChecker"
  have life: "tp_stopped (pr_tcp s)" "tp_listener (pr_tcp s) \<noteq> Some True"
    using assms pc by (simp_all add: proc_inv_def tcp_ok_def life_inv.simps(2))
  have servers: "gone (pr_l7 s)" "gone (pr_admin s)" "gone (pr_registryServer s)" "\<forall>r. pr_registry s = Some r \<longrightarrow> reg_cancelled r"
    using assms pc by (cases "pr_l7 s"; simp add: proc_inv_def drained_ok_def registry_ok_def gone_def)+
  have "pr_expired s \<or> pr_l7Active s = 0 \<and> pr_threads s = {#}"
    using stopped_threads [OF assms pc] assms pc by (auto simp: proc_inv_def drained_ok_def)
  moreover have "\<not> hc_doneClosed (pr_checker s)" "hc_running (pr_checker s)" using assms pc by (simp_all add: proc_inv_def checker_ok_def)
  ultimately show "\<exists>s'. stop_checker s = Exited 0 s' \<and> exit_ok 0 s'"
    using life servers by (simp add: stop_checker_def hc_Stop_def Let_def exit_ok_def)
qed

lemma tcp_own_ok:
  assumes "proc_inv s" and "own_step ctx (pr_tcp s) (pr_threads s) p T"
  shows "proc_inv (s\<lparr>pr_tcp := p, pr_threads := T\<rparr>)"
proof -
  have "life_inv (Live p T)" "filter_mset is_stop T = filter_mset is_stop (pr_threads s)"
      "tp_running p = tp_running (pr_tcp s)" "tp_stopped p = tp_stopped (pr_tcp s)"
    using assms own_step_inv by (auto simp: proc_inv_def tcp_ok_def own_step_def)
  then have "tcp_ok (s\<lparr>pr_tcp := p, pr_threads := T\<rparr>)" using assms(1) by (simp add: proc_inv_def tcp_ok_def)
  moreover have "pr_pc s = StopChecker \<longrightarrow> pr_expired s \<or> T = {#}"
    using stopped_threads [OF assms(1)] assms(2) own_step_idle by auto
  moreover have "checker_ok s" "registry_ok s" "drained_ok s" using assms(1) by (simp_all add: proc_inv_def)
  ultimately show ?thesis
    by (cases "pr_pc s = StopChecker") (auto simp: proc_inv_def checker_ok_def registry_ok_def drained_ok_def)
qed

lemma client_ok:
  assumes "proc_inv s" and "pr_registry s = Some r" and "client_op e" and "reg_legal r e"
  shows "proc_inv (s\<lparr>pr_registry := Some (reg_step r e)\<rparr>)"
  using assms client_op_frame [OF assms(3) _ assms(4)] reg_step_inv [OF _ assms(4)]
  by (auto simp: proc_inv_defs)

lemma watcher_ok:
  assumes "watcher_step (Up s) \<sigma>" and "proc_inv s"
  shows "proc_ok (crashable s) \<sigma>"
proof -
  have "registry_ok s" using assms(2) by (simp add: proc_inv_def)
  from watcher_step_ok [OF assms(1) this] assms(2) show ?thesis by (auto simp: proc_inv_def registry_frame crashable_def)
qed


lemma start_servers_ok: "proc_inv s \<Longrightarrow> pr_pc s = StartServers \<Longrightarrow> proc_inv (start_servers s) \<and> crashable (start_servers s) = crashable s"
  by (cases "pr_registry s") (simp_all add: start_servers_def crashable_def proc_inv_defs)

lemma l7_ok:
  assumes "proc_inv s"
  shows "pr_pc s = AwaitReady \<Longrightarrow> proc_inv (s\<lparr>pr_pc := StartL7\<rparr>)"
    and "pr_pc s = StartL7 \<Longrightarrow> proc_inv (s\<lparr>pr_pc := AwaitCancel, pr_l7 := launch (pr_l7 s)\<rparr>)"
    and "pr_pc s = AwaitCancel \<Longrightarrow> proc_inv (s\<lparr>pr_pc := ShutL7\<rparr>)"
    and "pr_pc s = ShutL7 \<Longrightarrow> proc_inv (shut_l7 s) \<and> crashable (shut_l7 s) = crashable s"
    and "pr_pc s = DrainL7 \<Longrightarrow> pr_l7Active s = 0 \<or> pr_expired s \<Longrightarrow> proc_inv (s\<lparr>pr_pc := ShutAdmin\<rparr>)"
    and "pr_pc s = ShutAdmin \<Longrightarrow> proc_inv (s\<lparr>pr_pc := ShutRegistry, pr_admin := shut v\<rparr>)"
    and "pr_pc s = ShutRegistry \<Longrightarrow> proc_inv (s\<lparr>pr_pc := StopRegistry, pr_registryServer := shut v\<rparr>)"
  using assms by (auto simp: launch_def shut_l7_def shut_def gone_def crashable_def proc_inv_defs)

lemma beside_ok:
  assumes "proc_inv s"
  shows "proc_inv (s\<lparr>pr_cancelled := True\<rparr>)" "proc_inv (s\<lparr>pr_expired := True\<rparr>)"
    and "pr_l7 s = Listening \<Longrightarrow> proc_inv (s\<lparr>pr_l7 := ShutDown, pr_cancelled := True\<rparr>)"
    and "pr_l7 s = Listening \<Longrightarrow> proc_inv (s\<lparr>pr_l7Active := n\<rparr>)"
    and "pr_l7Active s = Suc n \<Longrightarrow> proc_inv (s\<lparr>pr_l7Active := n\<rparr>)"
proof -
  have parts: "tcp_ok s" "checker_ok s" "registry_ok s" "drained_ok s" using assms by (simp_all add: proc_inv_def)
  note frame = proc_inv_def tcp_ok_def checker_ok_def registry_ok_def
  show "proc_inv (s\<lparr>pr_cancelled := True\<rparr>)" "proc_inv (s\<lparr>pr_expired := True\<rparr>)" using parts by (simp_all add: frame drained_ok_def)
  show "proc_inv (s\<lparr>pr_l7 := ShutDown, pr_cancelled := True\<rparr>)" if "pr_l7 s = Listening" using parts that by (simp add: frame drained_ok_def)
  show "proc_inv (s\<lparr>pr_l7Active := n\<rparr>)" if "pr_l7 s = Listening" using parts that by (auto simp: frame drained_ok_def)
  show "proc_inv (s\<lparr>pr_l7Active := n\<rparr>)" if "pr_l7Active s = Suc n" using parts that by (auto simp: frame drained_ok_def)
qed

lemma main_step_ok:
  assumes "main_step s \<sigma>" and "proc_inv s"
  shows "proc_ok (crashable s) \<sigma>"
  using assms
proof (induction rule: main_step.induct)
  case (registry_stop s)
  then show ?case using registry_stop_ok [of s] by auto
next
  case (servers s)
  then show ?case using start_servers_ok [of s] by simp
next
  case (shut_http s)
  then show ?case using l7_ok(4) [of s] by simp
next
  case (proxy_stop s)
  then show ?case using proxy_stop_ok [of s] by simp
next
  case (timed_out s T)
  then show ?case using conns_done_ok [of s T] by (auto simp: proxy_timeout_def tp_StopTimeout_def exit_ok_def crashable_def)
next
  case (checker s)
  then show ?case using checker_ok_steps(1) [of s] by auto
next
  case (checker_stop s)
  then show ?case using checker_ok_steps(2) [of s] by auto
qed (simp_all add: proxy_start_ok l7_ok drain_ok conns_done_ok crashable_def)

lemma proc_step_ok:
  assumes "proc_step \<sigma> \<sigma>'" and "proc_ok c \<sigma>"
  shows "proc_ok c \<sigma>'"
  using assms
proof (induction rule: proc_step.induct)
  case (main s \<sigma>)
  then show ?case using main_step_ok by auto
next
  case (tcp_panic s)
  then have "life_inv Panic" using life_step_inv by (fastforce simp: proc_inv_def tcp_ok_def)
  then show ?case by simp
next
  case (tcp s p T)
  then show ?case using tcp_own_ok [of s _ p T] by (simp add: crashable_def)
next
  case (client_panic s r e)
  then show ?case using client_op_frame(3) [of e r] by (auto simp: proc_inv_def registry_ok_def)
next
  case (watch \<sigma> \<sigma>')
  then obtain s where "\<sigma> = Up s" by (auto elim: watcher_step.cases)
  then show ?case using watch watcher_ok [of s \<sigma>'] by simp
qed (simp_all add: beside_ok client_ok crashable_def)

lemma main_process_inv: "proc_inv (main_process (main_setup rnd t t' cfg h))"
  by (simp add: main_process_def main_setup_def Let_def case_prod_unfold proc_inv_defs life_inv.simps(2) NewChecker_def configured_def reg_New_inv)

lemma main_interval: "hc_Interval (hc_config (sl_checker (main_setup rnd t t' cfg h))) =
    (if h_Interval (s_Health (Server cfg)) = 0 then 5 * Second else h_Interval (s_Health (Server cfg)))"
  by (simp add: main_setup_def Let_def case_prod_unfold NewChecker_def checker_config_def)

lemma main_crashable:
  "crashable (main_process (main_setup rnd t t' cfg h)) \<longleftrightarrow> rc_Enabled (s_Registry (Server cfg)) \<or> h_Interval (s_Health (Server cfg)) < 0"
  by (auto simp: crashable_def main_process_def main_setup_config main_interval ticker_panics_def Second_def)

interpretation proc_sys: step_system proc_step "proc_ok c" for c
  by unfold_locales (rule proc_step_ok)

lemma process_ok:
  assumes "proc_step\<^sup>*\<^sup>* (Up (main_process (main_setup rnd t t' cfg h))) \<sigma>"
  shows "proc_ok (rc_Enabled (s_Registry (Server cfg)) \<or> h_Interval (s_Health (Server cfg)) < 0) \<sigma>"
  using proc_sys.reach_keeps [OF assms] main_process_inv main_crashable by simp

section \<open>How the process ends\<close>

text \<open>C5: with every interleaving of \<^verbatim>\<open>main\<close>, the goroutines it starts, the clients and the signal handler, a process
  without the registry and with an interval of health checks that is not negative never crashes. One that ends with code 0 has shut down
  every server it has (the HTTP listener, the admin server, the registry server), stopped the registry, closed the listener of the
  TCP proxy and stopped it, and stopped the checker; and before the deadline of the shutdown it ends so only when no request and no
  connection was left. One that ends with code 1 could not start its proxy, or has met the deadline with connections active.\<close>

theorem process_outcomes:
  assumes "proc_step\<^sup>*\<^sup>* (Up (main_process (main_setup rnd t t' cfg h))) \<sigma>"
  shows "(\<not> rc_Enabled (s_Registry (Server cfg)) \<and> 0 \<le> h_Interval (s_Health (Server cfg)) \<longrightarrow> \<sigma> \<noteq> Crashed) \<and>
    (\<forall>code s. \<sigma> = Exited code s \<longrightarrow> exit_ok code s)"
  using process_ok [OF assms] by auto

text \<open>A negative interval of health checks passes the validation of the configuration, and the goroutine of the checker then crashes the
  process as soon as it makes its ticker.\<close>

theorem negative_interval_crashes:
  assumes "h_Interval (s_Health (Server cfg)) < 0"
  shows "\<exists>s. proc_step\<^sup>*\<^sup>* (Up (main_process (main_setup rnd t t' cfg h))) (Up s) \<and> pr_pc s = StartProxy \<and> proc_step (Up s) Crashed"
proof -
  let ?s0 = "main_process (main_setup rnd t t' cfg h)"
  let ?s1 = "start_servers ?s0"
  let ?s2 = "?s1\<lparr>pr_pc := StartProxy, pr_checker := (pr_checker ?s1)\<lparr>hc_running := True, hc_readyClosed := True\<rparr>\<rparr>"
  have "proc_step (Up ?s0) (Up ?s1)" by (rule main, rule servers) (simp add: main_process_def)
  moreover have "\<not> hc_running (pr_checker ?s1)" "\<not> hc_readyClosed (pr_checker ?s1)"
    by (simp_all add: start_servers_def main_process_def main_setup_def Let_def case_prod_unfold NewChecker_def)
  then have "proc_step (Up ?s1) (Up ?s2)"
    using main [OF checker, of ?s1] by (simp add: start_checker_def hc_Start_def Let_def) (simp add: start_servers_def)
  moreover have "hc_Interval (hc_config (pr_checker ?s2)) = h_Interval (s_Health (Server cfg))"
    using assms by (simp add: start_servers_def main_process_def main_interval)
  then have "proc_step (Up ?s2) Crashed" using assms by (intro check_ticker) (simp_all add: ticker_panics_def)
  ultimately show ?thesis
    by (intro exI [of _ ?s2]) (auto intro: converse_rtranclp_into_rtranclp)
qed

text \<open>A watcher whose channel is closed.\<close>

fun doomed :: "proc \<Rightarrow> bool" where
  "doomed (Up s) \<longleftrightarrow> proc_inv s \<and> pr_pc s \<in> {StopProxy, Stopping, StopChecker} \<and>
     (\<exists>ch r. pr_watcher s = Watching ch \<and> pr_registry s = Some r \<and> ch_closed (reg_chans r ch))"
| "doomed _ = True"

lemma doomed_crashes:
  assumes "pr_watcher s = Watching ch" and "pr_registry s = Some r" and "ch_closed (reg_chans r ch)"
  shows "watcher_step\<^sup>*\<^sup>* (Up s) Crashed"
  using assms
proof (induction "length (ch_buf (reg_chans r ch))" arbitrary: s r)
  case 0
  then have "watcher_step (Up s) (watch_end ch r s)" by (intro watcher_step.closed) simp_all
  then show ?case using 0 by (simp add: watch_end_crashes r_into_rtranclp)
next
  case (Suc n)
  then obtain e es where buf: "ch_buf (reg_chans r ch) = e # es" by (cases "ch_buf (reg_chans r ch)") auto
  let ?r = "r\<lparr>reg_chans := (reg_chans r)(ch := (reg_chans r ch)\<lparr>ch_buf := es\<rparr>)\<rparr>"
  have "chan_recv ch r = (Some e, ?r)" by (simp add: chan_recv_def buf)
  then have "watcher_step (Up s) (Up (s\<lparr>pr_registry := Some ?r\<rparr>))" by (rule watcher_step.receive [OF Suc.prems(1,2)])
  moreover have "watcher_step\<^sup>*\<^sup>* (Up (s\<lparr>pr_registry := Some ?r\<rparr>)) Crashed"
    using Suc buf by (intro Suc.hyps(1) [of ?r]) simp_all
  ultimately show ?case by (rule converse_rtranclp_into_rtranclp)
qed

lemma doomed_watcher_step: "watcher_step (Up s) \<sigma> \<Longrightarrow> doomed (Up s) \<Longrightarrow> doomed \<sigma>"
proof -
  assume step: "watcher_step (Up s) \<sigma>" and d: "doomed (Up s)"
  have ok: "proc_ok (crashable s) \<sigma>" using watcher_ok step d by simp
  from step show "doomed \<sigma>"
  proof (cases rule: watcher_step.cases)
    case (receive ch r e r')
    then show ?thesis using d ok recv_frame [of ch r e r' ch] by auto
  qed (use d watch_end_crashes in auto)
qed

lemma doomed_main_step: "main_step s \<sigma> \<Longrightarrow> doomed (Up s) \<Longrightarrow> doomed \<sigma>"
proof -
  assume step: "main_step s \<sigma>" and d: "doomed (Up s)"
  have ok: "proc_ok (crashable s) \<sigma>" using main_step_ok [OF step] d by simp
  show "doomed \<sigma>" using step
  proof (cases rule: main_step.cases)
    case (timed_out T)
    then show ?thesis using d ok by (auto simp: proxy_timeout_def split: option.splits)
  next
    case checker_stop
    then show ?thesis by (auto simp: stop_checker_def Let_def case_prod_unfold)
  next
    case proxy_stop
    then show ?thesis using d ok by (auto simp: stop_proxy_def split: prod.splits bool.splits)
  qed (use d ok in auto)
qed

lemma doomed_step: "proc_step \<sigma> \<sigma>' \<Longrightarrow> doomed \<sigma> \<Longrightarrow> doomed \<sigma>'"
proof -
  assume step: "proc_step \<sigma> \<sigma>'" and d: "doomed \<sigma>"
  show "doomed \<sigma>'"
  proof (cases \<sigma>)
    case (Up s)
    have ok: "proc_ok (crashable s) \<sigma>'" using proc_step_ok [OF step] d Up by simp
    show ?thesis using step[unfolded Up]
    proof (cases rule: proc_step.cases)
      case main
      then show ?thesis using doomed_main_step d Up by simp
    next
      case (client r e)
      then show ?thesis using d Up ok client_op_frame [of e r] by (auto simp: proc_inv_def registry_ok_def)
    next
      case watch
      then show ?thesis using doomed_watcher_step d Up by simp
    qed (use d Up ok in auto)
  qed (use step in \<open>auto elim: proc_step.cases watcher_step.cases\<close>)
qed

interpretation doomed_sys: step_system proc_step doomed
  by unfold_locales (rule doomed_step)

lemma doomed_end: "doomed (Up s) \<Longrightarrow> watcher_step\<^sup>*\<^sup>* (Up s) Crashed"
  using doomed_crashes by auto

lemma stop_registry_dooms:
  assumes "proc_inv s" and "pr_pc s = StopRegistry" and "pr_watcher s = Watching ch"
  shows "\<exists>s'. stop_registry s = Up s' \<and> doomed (Up s')"
proof -
  obtain r where r: "pr_registry s = Some r" "ch \<in> subscribers r \<or> ch_closed (reg_chans r ch)" "reg_inv r"
    using assms(1,3) by (cases "pr_registry s") (auto simp: proc_inv_def registry_ok_def)
  then have "\<not> fst (reg_Stop r)" using reg_Stop_inv by blast
  then have "ch_closed (reg_chans (snd (reg_Stop r)) ch)" using r(2) by (auto simp: reg_Stop_def Let_def split: if_splits)
  moreover obtain s' where "stop_registry s = Up s'" "proc_inv s'" using registry_stop_ok [OF assms(1,2)] by blast
  ultimately show ?thesis using r(1) assms(3) by (auto simp: stop_registry_def Let_def case_prod_unfold split: if_splits)
qed

text \<open>C20: with the registry, the shutdown races with a crash. When the watcher has subscribed, \<^verbatim>\<open>Registry.Stop\<close> closes
  its channel, and from then on, whatever else happens in the process, the steps of the watcher alone crash it:
  it reads what is left in the channel, leaves its loop, and the deferred \<^verbatim>\<open>Unsubscribe\<close> closes the closed
  channel. Only the end of \<^verbatim>\<open>main\<close> before that prevents it.\<close>

theorem shutdown_crash:
  assumes "proc_step\<^sup>*\<^sup>* (Up (main_process (main_setup rnd t t' cfg h))) (Up s)"
    and "pr_pc s = StopRegistry" and "pr_watcher s = Watching ch"
  shows "\<exists>s'. proc_step (Up s) (Up s') \<and> stop_registry s = Up s' \<and>
    (\<forall>s''. proc_step\<^sup>*\<^sup>* (Up s') (Up s'') \<longrightarrow> watcher_step\<^sup>*\<^sup>* (Up s'') Crashed)"
proof -
  have "proc_inv s" using process_ok [OF assms(1)] by simp
  then obtain s' where s': "stop_registry s = Up s'" "doomed (Up s')" using stop_registry_dooms assms by blast
  then have "proc_step (Up s) (Up s')" using main [OF registry_stop [OF assms(2)]] by simp
  moreover have "watcher_step\<^sup>*\<^sup>* (Up s'') Crashed" if "proc_step\<^sup>*\<^sup>* (Up s') (Up s'')" for s''
    using doomed_sys.reach_keeps [OF that s'(2)] by (rule doomed_end)
  ultimately show ?thesis using s'(1) by blast
qed

section \<open>Sample runs\<close>

text \<open>A state in which \<^verbatim>\<open>main\<close> is about to stop the registry, reached without a connection.\<close>

definition quiet :: "process \<Rightarrow> process" where
  "quiet s = s\<lparr>pr_pc := StopRegistry, pr_cancelled := True, pr_admin := shut (launch (pr_admin s)),
     pr_registryServer := shut (launch (pr_registryServer s)), pr_watcher := (if pr_registry s \<noteq> None then Spawned else NoWatcher),
     pr_checker := (pr_checker s)\<lparr>hc_running := True, hc_readyClosed := True\<rparr>,
     pr_tcp := (pr_tcp s)\<lparr>tp_listener := Some True, tp_running := True, tp_acceptWg := tp_acceptWg (pr_tcp s) + 1, tp_readyClosed := True\<rparr>,
     pr_threads := {#AcceptLooping#}\<rparr>"

lemma own_ready:
  "\<not> tp_readyClosed p \<Longrightarrow> own_step ctx p {#AcceptSpawned#} (p\<lparr>tp_readyClosed := True\<rparr>) {#AcceptLooping#}"
  using accepting [OF ready [of ctx p "{#}"]] by (simp add: own_step_def close_ready_def)

lemma own_leave:
  "\<not> tp_doneClosed p \<Longrightarrow> own_step True p (add_mset AcceptLooping T) (p\<lparr>tp_doneClosed := True\<rparr>) (add_mset AcceptLeaving T)"
  "own_step ctx p (add_mset AcceptLeaving T) (p\<lparr>tp_acceptWg := tp_acceptWg p - 1\<rparr>) T"
  using accepting [OF ctx_done [of True p T]] accepting [OF left [of ctx p T]] by (simp_all add: own_step_def close_done_def)

lemma reach_quiet:
  assumes "pr_pc s = StartServers" and "\<not> hc_running (pr_checker s)" "\<not> hc_readyClosed (pr_checker s)"
    and "tp_lb (pr_tcp s)" "\<not> tp_running (pr_tcp s)" "\<not> tp_stopped (pr_tcp s)" "\<not> tp_readyClosed (pr_tcp s)"
    and "pr_threads s = {#}" and "pr_l7 s = NotConfigured"
  shows "proc_step\<^sup>*\<^sup>* (Up s) (Up (quiet s))"
proof -
  let ?s1 = "start_servers s"
  let ?s2 = "?s1\<lparr>pr_pc := StartProxy, pr_checker := (pr_checker s)\<lparr>hc_running := True, hc_readyClosed := True\<rparr>\<rparr>"
  let ?p = "(pr_tcp s)\<lparr>tp_listener := Some True, tp_running := True, tp_acceptWg := tp_acceptWg (pr_tcp s) + 1\<rparr>"
  let ?s3 = "?s2\<lparr>pr_pc := AwaitReady, pr_tcp := ?p, pr_threads := {#AcceptSpawned#}\<rparr>"
  let ?s4 = "?s3\<lparr>pr_tcp := ?p\<lparr>tp_readyClosed := True\<rparr>, pr_threads := {#AcceptLooping#}\<rparr>"
  let ?s6 = "?s4\<lparr>pr_pc := StartL7, pr_pc := AwaitCancel, pr_l7 := launch (pr_l7 (?s4\<lparr>pr_pc := StartL7\<rparr>))\<rparr>"
  let ?s7 = "?s6\<lparr>pr_cancelled := True\<rparr>"
  let ?s9 = "?s7\<lparr>pr_pc := ShutL7, pr_pc := ShutAdmin\<rparr>"
  let ?s10 = "?s9\<lparr>pr_pc := ShutRegistry, pr_admin := shut (pr_admin ?s9)\<rparr>"
  have "proc_step (Up s) (Up ?s1)" using assms(1) by (intro main servers)
  moreover have "proc_step (Up ?s1) (Up ?s2)"
    using main [OF checker, of ?s1] assms by (simp add: start_servers_def start_checker_def hc_Start_def Let_def)
  moreover have "proc_step (Up ?s2) (Up ?s3)"
    using main [OF proxy, of ?s2 None] assms by (simp add: start_servers_def start_proxy_def tp_Start_def)
  moreover have "proc_step (Up ?s3) (Up ?s4)"
    by (rule tcp) (use assms own_ready [of ?p] in simp)
  moreover have "proc_step (Up ?s4) (Up (?s4\<lparr>pr_pc := StartL7\<rparr>))" by (rule main, rule is_ready) simp_all
  moreover have "proc_step (Up (?s4\<lparr>pr_pc := StartL7\<rparr>)) (Up ?s6)" by (rule main, rule l7) simp
  moreover have "proc_step (Up ?s6) (Up ?s7)" by (rule signal)
  moreover have "proc_step (Up ?s7) (Up (?s7\<lparr>pr_pc := ShutL7\<rparr>))" by (rule main, rule cancelled) simp_all
  moreover have "proc_step (Up (?s7\<lparr>pr_pc := ShutL7\<rparr>)) (Up ?s9)"
    using main [OF shut_http, of "?s7\<lparr>pr_pc := ShutL7\<rparr>"] assms(9) by (simp add: shut_l7_def launch_def start_servers_def)
  moreover have "proc_step (Up ?s9) (Up ?s10)" by (rule main, rule shut_admin) simp
  moreover have "proc_step (Up ?s10) (Up (quiet s))"
    using main [OF shut_registry, of ?s10] assms(9) by (cases s) (simp add: quiet_def start_servers_def launch_def)
  ultimately show ?thesis by (meson converse_rtranclp_into_rtranclp rtranclp.rtrancl_refl)
qed

lemma quiet_exits:
  assumes "pr_registry s = None" and "tp_acceptWg (pr_tcp s) = 0" "tp_connWg (pr_tcp s) = 0"
    and "\<not> tp_stopped (pr_tcp s)" "\<not> tp_doneClosed (pr_tcp s)" and "\<not> hc_doneClosed (pr_checker s)" and "\<not> pr_expired s"
  shows "\<exists>s'. proc_step\<^sup>*\<^sup>* (Up (quiet s)) (Exited 0 s') \<and> \<not> pr_expired s'"
proof -
  let ?s1 = "(quiet s)\<lparr>pr_pc := StopProxy\<rparr>"
  let ?p2 = "(pr_tcp ?s1)\<lparr>tp_running := False, tp_stopped := True, tp_listener := Some False\<rparr>"
  let ?s2 = "?s1\<lparr>pr_pc := Stopping, pr_tcp := ?p2, pr_threads := {#AcceptLooping, StopWaitAccept#}\<rparr>"
  let ?p3 = "?p2\<lparr>tp_doneClosed := True\<rparr>"
  let ?s3 = "?s2\<lparr>pr_tcp := ?p3, pr_threads := {#AcceptLeaving, StopWaitAccept#}\<rparr>"
  let ?s4 = "?s3\<lparr>pr_tcp := ?p3\<lparr>tp_acceptWg := tp_acceptWg ?p3 - 1\<rparr>, pr_threads := {#StopWaitAccept#}\<rparr>"
  let ?s5 = "?s4\<lparr>pr_threads := {#StopWaitConns#}\<rparr>"
  let ?s6 = "?s5\<lparr>pr_pc := StopChecker, pr_threads := {#}\<rparr>"
  let ?s7 = "?s6\<lparr>pr_checker := (pr_checker ?s6)\<lparr>hc_running := False, hc_doneClosed := True\<rparr>\<rparr>"
  have "proc_step (Up (quiet s)) (Up ?s1)"
    using main [OF registry_stop, of "quiet s"] assms(1) by (simp add: stop_registry_def quiet_def)
  moreover have "proc_step (Up ?s1) (Up ?s2)"
    using main [OF proxy_stop, of ?s1] assms(4) by (simp add: stop_proxy_def tp_StopEnter_def quiet_def add_mset_commute)
  moreover have "proc_step (Up ?s2) (Up ?s3)"
    by (rule tcp) (use assms(5) own_leave(1) [of ?p2 "{#StopWaitAccept#}"] in \<open>simp add: quiet_def\<close>)
  moreover have "proc_step (Up ?s3) (Up ?s4)"
    by (rule tcp) (use own_leave(2) [of _ ?p3 "{#StopWaitAccept#}"] in simp)
  moreover have "proc_step (Up ?s4) (Up ?s5)"
    by (rule main, rule accept_left [where T = "{#}"]) (use assms(2) in \<open>simp_all add: quiet_def\<close>)
  moreover have "proc_step (Up ?s5) (Up ?s6)"
    by (rule main, rule conns_left [where T = "{#}"]) (use assms(3) in \<open>simp_all add: quiet_def\<close>)
  moreover have "proc_step (Up ?s6) (Exited 0 ?s7)"
    using main [OF checker_stop, of ?s6] assms(6) by (simp add: stop_checker_def hc_Stop_def Let_def quiet_def)
  ultimately have "proc_step\<^sup>*\<^sup>* (Up (quiet s)) (Exited 0 ?s7)"
    by (meson converse_rtranclp_into_rtranclp rtranclp.rtrancl_refl)
  then show ?thesis using assms(7) by (intro exI [of _ ?s7]) (simp add: quiet_def)
qed

lemma NewTCPProxy_lb: "tp_lb (NewTCPProxy a l opts) = l"
proof -
  have "tp_lb (apply_option e q) = tp_lb q" for e q by (cases e) simp_all
  then have "tp_lb (fold apply_option es q) = tp_lb q" for es q by (induction es arbitrary: q) simp_all
  then show ?thesis by (simp add: NewTCPProxy_def)
qed

text \<open>Without an HTTP listener the sample process reaches the end of its shutdown, or with a registry the
  point at which the watcher has subscribed and \<^verbatim>\<open>main\<close> stops the registry.\<close>

lemma sample_reaches:
  assumes "s_HTTPListenAddr (Server cfg) = []"
  shows "proc_step\<^sup>*\<^sup>* (Up (main_process (main_setup rnd t t' cfg h))) (Up (quiet (main_process (main_setup rnd t t' cfg h))))"
  using assms by (intro reach_quiet) (simp_all add: main_process_def main_setup_def Let_def case_prod_unfold NewChecker_def
      NewTCPProxy_lb configured_def)

theorem process_outcomes_witness:
  "\<exists>s. proc_step\<^sup>*\<^sup>* (Up (main_process (main_setup id 0 0 (sample_config []) empty_heap))) (Exited 0 s) \<and> exit_ok 0 s \<and> \<not> pr_expired s"
proof -
  let ?s = "main_process (main_setup id 0 0 (sample_config []) empty_heap)"
  have "s_HTTPListenAddr (Server (sample_config [])) = []" "\<not> rc_Enabled (s_Registry (Server (sample_config [])))"
    by (simp_all add: sample_config_def zero_server_def)
  note quiet = sample_reaches [OF this(1), of id 0 0 empty_heap]
  have "\<exists>s'. proc_step\<^sup>*\<^sup>* (Up (quiet ?s)) (Exited 0 s') \<and> \<not> pr_expired s'"
    by (rule quiet_exits) (simp_all add: main_process_def main_setup_def Let_def case_prod_unfold NewChecker_def
      sample_config_def zero_server_def)
  then obtain s' where s': "proc_step\<^sup>*\<^sup>* (Up ?s) (Exited 0 s')" "\<not> pr_expired s'" using quiet by (meson rtranclp_trans)
  with process_outcomes [OF s'(1)] show ?thesis by blast
qed

theorem shutdown_crash_witness:
  "\<exists>s. proc_step\<^sup>*\<^sup>* (Up (main_process (main_setup id 0 0 sample_start empty_heap))) (Up s) \<and> pr_pc s = StopProxy \<and> watcher_step\<^sup>*\<^sup>* (Up s) Crashed"
proof -
  let ?s = "main_process (main_setup id 0 0 sample_start empty_heap)"
  let ?r = "reg_New (registry_config sample_start)"
  let ?w = "(quiet ?s)\<lparr>pr_watcher := Watching (fst (reg_Subscribe ?r)), pr_registry := Some (snd (reg_Subscribe ?r))\<rparr>"
  have "s_HTTPListenAddr (Server sample_start) = []"
    by (simp add: sample_start_def sample_config_def zero_server_def applyDefaults_def or_else_def)
  from sample_reaches [OF this, of id 0 0 empty_heap]
  have quiet: "proc_step\<^sup>*\<^sup>* (Up ?s) (Up (quiet ?s))" .
  have "pr_registry ?s = Some ?r" by (simp add: main_process_def main_setup_config sample_start_sel)
  then have "watcher_step (Up (quiet ?s)) (Up ?w)"
    by (intro watcher_step.subscribe [of _ ?r]) (simp_all add: quiet_def)
  with quiet have run: "proc_step\<^sup>*\<^sup>* (Up ?s) (Up ?w)" by (meson proc_step.watch rtranclp.rtrancl_into_rtrancl)
  obtain s' where s': "proc_step (Up ?w) (Up s')" "stop_registry ?w = Up s'" "watcher_step\<^sup>*\<^sup>* (Up s') Crashed"
    using shutdown_crash [OF run] by (auto simp: quiet_def)
  moreover have "pr_pc s' = StopProxy" using s'(2) by (auto simp: stop_registry_def Let_def case_prod_unfold split: if_splits)
  ultimately show ?thesis using run by (meson rtranclp.rtrancl_into_rtrancl)
qed

section \<open>A shutdown ends\<close>




















end
