(* ===== verification/Admin.thy ===== *)
theory Admin
  imports Process Json RegistryHandler
begin

text \<open>
  The other HTTP servers of \<^verbatim>\<open>cmd/sluice/main.go\<close>, the admin endpoints and the mount of the registry, and the loop that watches the
  configuration file. A \<^verbatim>\<open>ServeMux\<close> is the function from method and path to the handler it selects, for a path in
  canonical form; a pattern with \<^verbatim>\<open>GET\<close> also serves \<^verbatim>\<open>HEAD\<close>, of which the server sends no body. JSON is built as a tree and
  printed; \<open>fmt\<close> formats a floating point number, and the keys of a map are given in their order.
\<close>

section \<open>The admin endpoints\<close>

record admin_env =
  ad_rnd :: "rat \<Rightarrow> rat"
  ad_fmt :: "rat \<Rightarrow> string"
  ad_fmt_g :: "rat \<Rightarrow> string"
  ad_now :: go_time
  ad_orders :: "nat \<Rightarrow> string list"
  ad_backends :: "string list"
  ad_labels :: "string list"

record admin_reply =
  ar_status :: int
  ar_type :: string
  ar_Allow :: string
  ar_body :: string

definition json_ok :: "json \<Rightarrow> admin_reply" where
  "json_ok j = \<lparr>ar_status = 200, ar_type = ''application/json'', ar_Allow = [], ar_body = json_print j @ newline\<rparr>"

abbreviation JInt :: "int \<Rightarrow> json" where
  "JInt i \<equiv> JNum (Itoa i)"

definition backend_snapshot_json :: "(rat \<Rightarrow> string) \<Rightarrow> BackendSnapshot \<Rightarrow> json" where
  "backend_snapshot_json fmt b =
    JObj [(''RequestsTotal'', JInt (bs_RequestsTotal b)), (''RequestsSuccess'', JInt (bs_RequestsSuccess b)),
      (''RequestsFailed'', JInt (bs_RequestsFailed b)), (''BytesSent'', JInt (bs_BytesSent b)),
      (''BytesReceived'', JInt (bs_BytesReceived b)), (''AvgLatencyMs'', JNum (fmt (bs_AvgLatencyMs b)))]"

text \<open>A map: its entries in the order of the keys.\<close>

definition json_map :: "string list \<Rightarrow> ('v \<Rightarrow> json) \<Rightarrow> (string \<rightharpoonup> 'v) \<Rightarrow> json" where
  "json_map keys f m = JObj (map (\<lambda>k. (k, f (the (m k)))) (filter (\<lambda>k. m k \<noteq> None) keys))"

definition snapshot_json :: "admin_env \<Rightarrow> Snapshot \<Rightarrow> json" where
  "snapshot_json env s =
    JObj [(''Uptime'', JInt (sn_Uptime s)), (''ConnectionsTotal'', JInt (sn_ConnectionsTotal s)),
      (''ConnectionsActive'', JInt (sn_ConnectionsActive s)), (''AvgConnectionMs'', JNum (ad_fmt env (sn_AvgConnectionMs s))),
      (''RequestsTotal'', JInt (sn_RequestsTotal s)), (''RequestsSuccess'', JInt (sn_RequestsSuccess s)),
      (''RequestsFailures'', JInt (sn_RequestsFailures s)),
      (''Backends'', json_map (ad_backends env) (backend_snapshot_json (ad_fmt env)) (sn_Backends s)),
      (''LatencyHistogram'', json_map (ad_labels env) JInt (sn_LatencyHistogram s))]"

definition stats_handler :: "admin_env \<Rightarrow> sluice \<Rightarrow> admin_reply" where
  "stats_handler env s = json_ok (snapshot_json env (mc_Snapshot (ad_rnd env) (ad_now env) (gw_metrics (sl_gw s))))"

definition status_json :: "backendStatus \<Rightarrow> json" where
  "status_json b =
    JObj [(''addr'', JStr (bs_Addr b)), (''weight'', JInt (bs_Weight b)), (''healthy'', JBool (bs_Healthy b)),
      (''active_connections'', JInt (bs_ActiveConnections b))]"

definition backends_handler :: "sluice \<Rightarrow> admin_reply" where
  "backends_handler s = json_ok (JArr (map status_json (backend_statuses (sl_gw s))))"

definition health_handler :: "admin_reply" where
  "health_handler = \<lparr>ar_status = 200, ar_type = [], ar_Allow = [], ar_body = ''OK''\<rparr>"

definition metrics_handler :: "admin_env \<Rightarrow> sluice \<Rightarrow> admin_reply" where
  "metrics_handler env s =
    \<lparr>ar_status = 200, ar_type = ''text/plain; version=0.0.4; charset=utf-8'', ar_Allow = [],
     ar_body = Export (ad_fmt_g env) (ad_rnd env) (ad_orders env) (ad_now env) (gw_metrics (sl_gw s)) (exporter_of s)\<rparr>"

definition not_found :: admin_reply where
  "not_found = \<lparr>ar_status = 404, ar_type = ''text/plain; charset=utf-8'', ar_Allow = [], ar_body = ''404 page not found'' @ newline\<rparr>"

definition not_allowed :: admin_reply where
  "not_allowed = \<lparr>ar_status = 405, ar_type = ''text/plain; charset=utf-8'', ar_Allow = ''GET, HEAD'', ar_body = ''Method Not Allowed'' @ newline\<rparr>"

definition admin_routes :: "admin_env \<Rightarrow> sluice \<Rightarrow> (string \<times> admin_reply) list" where
  "admin_routes env s =
    [(''/stats'', stats_handler env s), (''/backends'', backends_handler s), (''/health'', health_handler), (''/metrics'', metrics_handler env s)]"

definition admin_ServeHTTP :: "admin_env \<Rightarrow> string \<Rightarrow> string \<Rightarrow> sluice \<Rightarrow> admin_reply" where
  "admin_ServeHTTP env method path s =
    (case map_of (admin_routes env s) path of
       None \<Rightarrow> not_found
     | Some rep \<Rightarrow> if method = ''GET'' then rep else if method = ''HEAD'' then rep\<lparr>ar_body := []\<rparr> else not_allowed)"

section \<open>The mount of the registry\<close>

definition registry_mux :: "reg_env \<Rightarrow> string \<Rightarrow> string \<Rightarrow> Registry \<Rightarrow> (bool \<times> reply) option \<times> Registry" where
  "registry_mux env method path r =
    (if path = ''/v1/services'' \<or> HasPrefix path ''/v1/services/''
     then (let (rep, r') = reg_ServeHTTP env method path r in (Some rep, r'))
     else (None, r))"

section \<open>The loop of the file watcher\<close>

datatype fs_op = Create | WriteOp | Remove | Rename | Chmod

datatype watch_event =
    FsEvent string "fs_op list"
  | FsError
  | Cancelled
  | EventsClosed
  | ErrorsClosed

text \<open>The times at which the loop calls \<^verbatim>\<open>trigger\<close>. It returns when the context is done or a channel of the watcher is closed.\<close>

fun triggers :: "string \<Rightarrow> (go_time \<times> watch_event) list \<Rightarrow> go_time list" where
  "triggers file [] = []"
| "triggers file ((t, e) # es) =
     (case e of
        Cancelled \<Rightarrow> []
      | EventsClosed \<Rightarrow> []
      | ErrorsClosed \<Rightarrow> []
      | FsError \<Rightarrow> triggers file es
      | FsEvent name ops \<Rightarrow>
          (if \<not> eventTargetsFile name file then triggers file es
           else if \<exists>x \<in> set ops. x \<in> {WriteOp, Create, Remove, Rename, Chmod} then t # triggers file es
           else triggers file es))"

text \<open>\<^verbatim>\<open>startConfigWatcher\<close>: the reloads, or the error of the watcher. \<open>add\<close> is the outcome of \<^verbatim>\<open>watcher.Add\<close>.\<close>

definition startConfigWatcher :: "string option \<Rightarrow> (string \<Rightarrow> string option) \<Rightarrow> string \<Rightarrow> (go_time \<times> watch_event) list \<Rightarrow> string + go_time list" where
  "startConfigWatcher newWatcher add configPath events =
    (case newWatcher of
       Some err \<Rightarrow> Inl err
     | None \<Rightarrow>
         (let (dir, file) = watch_target configPath
          in case add dir of Some err \<Rightarrow> Inl err | None \<Rightarrow> Inr (reload_times None (triggers file events))))"

section \<open>Reading the admin endpoints\<close>

definition read_status :: "json \<Rightarrow> backendStatus option" where
  "read_status j =
    (case j of
       JObj [(k1, JStr a), (k2, JNum w), (k3, JBool h), (k4, JNum n)] \<Rightarrow>
         (case (ParseInt w, ParseInt n) of
            (Some w', Some n') \<Rightarrow>
              if [k1, k2, k3, k4] = [''addr'', ''weight'', ''healthy'', ''active_connections'']
              then Some \<lparr>bs_Addr = a, bs_Weight = w', bs_Healthy = h, bs_ActiveConnections = n'\<rparr> else None
          | _ \<Rightarrow> None)
     | _ \<Rightarrow> None)"

definition status_fits :: "backendStatus \<Rightarrow> bool" where
  "status_fits b \<longleftrightarrow> ascii (bs_Addr b) \<and> min_int64 \<le> bs_Weight b \<and> bs_Weight b \<le> max_int64 \<and>
    min_int64 \<le> bs_ActiveConnections b \<and> bs_ActiveConnections b \<le> max_int64"

lemma status_json_plain: "status_fits b \<Longrightarrow> json_plain (status_json b) \<and> json_depth (status_json b) = 1"
  by (auto simp: status_json_def status_fits_def ascii_def)

lemma read_status_json: "status_fits b \<Longrightarrow> read_status (status_json b) = Some b"
  by (simp add: read_status_def status_json_def status_fits_def ParseInt_Itoa)

lemma statuses_depth: "list_all status_fits bs \<Longrightarrow> foldr (\<lambda>j. max (json_depth j)) (map status_json bs) 0 \<le> 1"
  using status_json_plain by (induction bs) auto

lemma backends_body:
  assumes "list_all status_fits (backend_statuses (sl_gw s))"
  shows "json_parse (ar_body (admin_ServeHTTP env ''GET'' ''/backends'' s)) = Some (JArr (map status_json (backend_statuses (sl_gw s))))"
proof -
  let ?j = "JArr (map status_json (backend_statuses (sl_gw s)))"
  have "json_plain ?j" using assms status_json_plain by (auto simp: list_all_iff)
  moreover have "json_depth ?j \<le> max_depth" using statuses_depth [OF assms] by (simp add: max_depth_def)
  ultimately have "json_parse (json_print ?j @ newline) = Some ?j" by (rule json_parse_print) simp
  then show ?thesis
    by (simp add: admin_ServeHTTP_def admin_routes_def backends_handler_def json_ok_def del: json_print.simps)
qed

text \<open>C31: the admin server reports the backends as they are: the body of \<^verbatim>\<open>GET /backends\<close> parses as an array, and reading its elements
  field by field gives, for the backends of the balancer in its order, the address, the weight, the health flag and the number of active
  connections that the backend itself has at that moment, provided the addresses are ASCII and the numbers fit 64 bits.\<close>

theorem backends_endpoint_exact:
  fixes s :: sluice
  defines "backend b \<equiv> h_backends (gw_heap (sl_gw s)) b"
  assumes "\<forall>b \<in> set (lb_Backends (gw_lb (sl_gw s))). ascii (b_addr (backend b)) \<and>
      b_weight (backend b) \<in> {min_int64..max_int64} \<and> b_activeConns (backend b) \<in> {min_int64..max_int64}"
  shows "\<exists>js. json_parse (ar_body (admin_ServeHTTP env ''GET'' ''/backends'' s)) = Some (JArr js) \<and>
    map read_status js = map (\<lambda>b. Some \<lparr>bs_Addr = b_addr (backend b), bs_Weight = b_weight (backend b), bs_Healthy = b_healthy (backend b),
      bs_ActiveConnections = b_activeConns (backend b)\<rparr>) (lb_Backends (gw_lb (sl_gw s)))"
proof -
  let ?st = "backend_statuses (sl_gw s)"
  have st: "?st = map (\<lambda>b. \<lparr>bs_Addr = b_addr (backend b), bs_Weight = b_weight (backend b), bs_Healthy = b_healthy (backend b),
      bs_ActiveConnections = b_activeConns (backend b)\<rparr>) (lb_Backends (gw_lb (sl_gw s)))"
    by (simp add: backend_statuses_def backend_def b_Addr_def b_Weight_def b_IsHealthy_def b_ActiveConnections_def)
  then have fits: "list_all status_fits ?st" using assms(2) by (simp add: list_all_iff status_fits_def)
  have "map read_status (map status_json ?st) = map Some ?st" using fits read_status_json by (auto simp: list_all_iff)
  then show ?thesis using backends_body [OF fits, of env] by (simp add: st)
qed

text \<open>The mount of the registry answers only the paths of its interface: a path that merely begins like one is not found, although the handler
  alone would take the rest for an ID.\<close>

theorem registry_mount:
  "registry_mux env method (''/v1/services'' @ rest) r =
    (if rest = [] \<or> take 1 rest = ''/'' then (Some (fst (reg_ServeHTTP env method (''/v1/services'' @ rest) r)), snd (reg_ServeHTTP env method (''/v1/services'' @ rest) r))
     else (None, r))"
  by (cases rest) (auto simp: registry_mux_def HasPrefix_def case_prod_unfold Let_def)

section \<open>The last change of the file is loaded\<close>

lemma reload_times_pending_nonempty: "reload_times (Some d) ts \<noteq> []"
  by (induction "Some d" ts arbitrary: d rule: reload_times.induct) auto

lemma reload_times_nonempty: "reload_times pending (ts @ [t]) \<noteq> []"
  using reload_times_pending_nonempty by (cases ts; cases pending) auto

lemma reload_times_last: "last (reload_times pending (ts @ [t])) = t + debounce"
proof (induction pending ts rule: reload_times.induct)
  case (2 pending t' ts)
  then show ?case using reload_times_nonempty [of _ ts t] by (auto split: option.splits)
qed (auto split: option.splits)

fun passing :: "watch_event \<Rightarrow> bool" where
  "passing (FsEvent name ops) = True"
| "passing FsError = True"
| "passing _ = False"

lemma triggers_append: "list_all (passing \<circ> snd) pre \<Longrightarrow> triggers file (pre @ es) = triggers file pre @ triggers file es"
proof (induction pre)
  case (Cons x pre)
  then show ?case by (cases x; cases "snd x") auto
qed simp

text \<open>C32: no change of the configuration file is lost: as long as the watcher runs, after the last event that concerns
  the file there is a reload, exactly one debounce interval later, whatever other events and errors came before.\<close>

theorem last_change_reloaded:
  assumes "startConfigWatcher None add configPath (pre @ (t, FsEvent name ops) # post) = Inr ts" and "list_all (passing \<circ> snd) pre"
    and "eventTargetsFile name (snd (watch_target configPath))" and "ops \<noteq> []" and "triggers (snd (watch_target configPath)) post = []"
  shows "ts \<noteq> [] \<and> last ts = t + debounce"
proof -
  let ?file = "snd (watch_target configPath)"
  obtain x xs where ops: "ops = x # xs" using assms(4) by (cases ops) auto
  have "triggers ?file (pre @ (t, FsEvent name ops) # post) = triggers ?file pre @ [t]"
    using assms(3,5) by (cases x) (simp_all add: triggers_append [OF assms(2)] ops)
  then have "ts = reload_times None (triggers ?file pre @ [t])"
    using assms(1) by (auto simp: startConfigWatcher_def case_prod_unfold Let_def split: option.splits)
  then show ?thesis using reload_times_nonempty reload_times_last by simp
qed

theorem last_change_reloaded_witness:
  "last (projr (startConfigWatcher None (\<lambda>_. None) ''conf.yaml'' [(1, FsError), (5, FsEvent ''./conf.yaml'' [WriteOp])])) = 5 + debounce"
proof -
  have target: "watch_target ''conf.yaml'' = (''.'', ''conf.yaml'')" by code_simp
  have hit: "eventTargetsFile ''./conf.yaml'' ''conf.yaml''" by code_simp
  let ?ts = "reload_times None [5]"
  have run: "startConfigWatcher None (\<lambda>_. None) ''conf.yaml'' ([(1, FsError)] @ (5, FsEvent ''./conf.yaml'' [WriteOp]) # []) = Inr ?ts"
    using hit by (simp add: startConfigWatcher_def target)
  from last_change_reloaded [OF run] hit show ?thesis using run by (simp add: target)
qed

definition sample_admin :: admin_env where
  "sample_admin = \<lparr>ad_rnd = id, ad_fmt = (\<lambda>_. ''0''), ad_fmt_g = (\<lambda>_. ''0''), ad_now = 5, ad_orders = (\<lambda>_. [''a:80'']), ad_backends = [], ad_labels = []\<rparr>"

text \<open>A gateway whose only backend is out of rotation with three connections still open.\<close>

definition sample_busy :: gateway where
  "sample_busy = sample_gateway\<lparr>gw_heap := b_SetHealthy 5 False (Some ErrTimeout) 0 (b_addActive 3 0 (gw_heap sample_gateway))\<rparr>"

theorem backends_endpoint_exact_witness:
  "\<exists>j. json_parse (ar_body (admin_ServeHTTP sample_admin ''GET'' ''/backends''
      ((main_setup id 0 0 (sample_config []) empty_heap)\<lparr>sl_gw := sample_busy\<rparr>))) = Some (JArr [j]) \<and>
    read_status j = Some \<lparr>bs_Addr = ''a:80'', bs_Weight = 1, bs_Healthy = False, bs_ActiveConnections = 3\<rparr>"
proof -
  let ?s = "(main_setup id 0 0 (sample_config []) empty_heap)\<lparr>sl_gw := sample_busy\<rparr>"
  have lb: "lb_Backends (gw_lb sample_busy) = [0]" by (simp add: sample_busy_def sample_gateway_def NewRoundRobin_def)
  have b: "b_addr (h_backends (gw_heap sample_busy) 0) = ''a:80''" "b_weight (h_backends (gw_heap sample_busy) 0) = 1"
    "\<not> b_healthy (h_backends (gw_heap sample_busy) 0)" "b_activeConns (h_backends (gw_heap sample_busy) 0) = 3"
    by (simp_all add: sample_busy_def b_SetHealthy_def b_addActive_def sample_gateway_def sample_defs)
  show ?thesis
    using backends_endpoint_exact [of ?s sample_admin] by (auto simp: lb b ascii_def min_int64_def max_int64_def)
qed

end
