(* ===== verification/BreakerTable.thy ===== *)
theory BreakerTable
  imports Gateway
begin

text \<open>
  The breaker table as concurrent requests use it: \<^verbatim>\<open>getCircuitBreaker\<close> of \<^verbatim>\<open>internal/proxy/http.go\<close> (and, word
  for word, of \<^verbatim>\<open>internal/proxy/tcp.go\<close>) looks an address up under the read lock and, on a miss, again under the
  write lock before it creates a breaker. Breakers live behind pointers here. The theory shows that the double check
  works: no breaker is created twice or lost, so that the table of \<open>Gateway\<close>, in which a look-up is one step and a
  breaker is the entry of its address, is what every interleaving of requests amounts to; that each
  breaker goes through the states of the documented machine; and that its counters account for every request.
\<close>

section \<open>Pointers\<close>

text \<open>\<open>bt_store\<close> request_holds the breakers that were created; a pointer is a position in it.\<close>

record breaker_table =
  bt_config :: cb_Config
  bt_refs :: "string \<rightharpoonup> nat"
  bt_store :: "CircuitBreaker list"

definition WithHTTPCircuitBreaker_table :: "cb_Config \<Rightarrow> breaker_table" where
  "WithHTTPCircuitBreaker_table c = \<lparr>bt_config = c, bt_refs = Map.empty, bt_store = []\<rparr>"

section \<open>Requests\<close>

text \<open>Where a request is: before the look-up, between the read lock and the write lock, with a breaker in hand before \<^verbatim>\<open>Allow\<close>, and
  admitted with its result still to be recorded.\<close>

datatype request_pc = Looking string | Missed string | Holding string nat | Admitted string nat

definition locked_read :: "string \<Rightarrow> breaker_table \<Rightarrow> request_pc" where
  "locked_read addr t = (case bt_refs t addr of Some cb \<Rightarrow> Holding addr cb | None \<Rightarrow> Missed addr)"

definition locked_create :: "go_time \<Rightarrow> string \<Rightarrow> breaker_table \<Rightarrow> request_pc \<times> breaker_table" where
  "locked_create now addr t =
    (case bt_refs t addr of
       Some cb \<Rightarrow> (Holding addr cb, t)
     | None \<Rightarrow> (let cb = length (bt_store t)
                in (Holding addr cb, t\<lparr>bt_store := bt_store t @ [cb_New (bt_config t) now], bt_refs := (bt_refs t)(addr \<mapsto> cb)\<rparr>)))"

text \<open>What the breakers see of a run, in the order in which their locks are taken; an \<^verbatim>\<open>Allow\<close> with its verdict, a
  \<^verbatim>\<open>RecordResult\<close> with whether it was a success.\<close>

datatype table_event = Created string go_time | Allowed string go_time bool | Recorded string go_time bool

inductive table_step :: "breaker_table \<Rightarrow> request_pc multiset \<Rightarrow> table_event list \<Rightarrow> breaker_table \<Rightarrow> request_pc multiset \<Rightarrow> bool" where
  arrives: "table_step t T [] t (add_mset (Looking a) T)"
| looks: "table_step t (add_mset (Looking a) T) [] t (add_mset (locked_read a t) T)"
| creates: "locked_create now a t = (pc, t') \<Longrightarrow>
    table_step t (add_mset (Missed a) T) (if bt_refs t a = None then [Created a now] else []) t' (add_mset pc T)"
| admitted: "cb_Allow now (bt_store t ! r) = (None, cb) \<Longrightarrow>
    table_step t (add_mset (Holding a r) T) [Allowed a now True] (t\<lparr>bt_store := (bt_store t)[r := cb]\<rparr>) (add_mset (Admitted a r) T)"
| refused: "cb_Allow now (bt_store t ! r) = (Some e, cb) \<Longrightarrow>
    table_step t (add_mset (Holding a r) T) [Allowed a now False] (t\<lparr>bt_store := (bt_store t)[r := cb]\<rparr>) T"
| reports: "table_step t (add_mset (Admitted a r) T) [Recorded a now (err = None)]
    (t\<lparr>bt_store := (bt_store t)[r := cb_RecordResult now (err :: net_error option) (bt_store t ! r)]\<rparr>) T"

inductive table_run :: "cb_Config \<Rightarrow> table_event list \<Rightarrow> breaker_table \<Rightarrow> request_pc multiset \<Rightarrow> bool" for c :: cb_Config where
  idle: "table_run c [] (WithHTTPCircuitBreaker_table c) {#}"
| go_on: "table_run c es t T \<Longrightarrow> table_step t T fs t' T' \<Longrightarrow> table_run c (es @ fs) t' T'"

section \<open>The table without pointers\<close>

definition table_abs :: "breaker_table \<Rightarrow> breakers" where
  "table_abs t = \<lparr>bk_map = Some (\<lambda>a. map_option ((!) (bt_store t)) (bt_refs t a)), bk_config = bt_config t\<rparr>"

fun seq_step :: "breakers \<Rightarrow> table_event \<Rightarrow> breakers" where
  "seq_step b (Created a now) = snd (getCircuitBreaker now a b)"
| "seq_step b (Allowed a now ok) = snd (allow_through now now a b)"
| "seq_step b (Recorded a now ok) = report_to now (if ok then None else Some ()) a b"

text \<open>An event is in order when it says what the operation does: a creation is the first use of its address, a verdict is that of the breaker, a result is for a breaker that exists.\<close>

fun seq_legal :: "breakers \<Rightarrow> table_event \<Rightarrow> bool" where
  "seq_legal b (Created a now) = (breaker_at b a = None)"
| "seq_legal b (Allowed a now ok) = (breaker_at b a \<noteq> None \<and> (fst (allow_through now now a b) = None \<longleftrightarrow> ok))"
| "seq_legal b (Recorded a now ok) = (breaker_at b a \<noteq> None)"

fun created_at :: "string \<Rightarrow> table_event list \<Rightarrow> go_time list" where
  "created_at a [] = []"
| "created_at a (Created a' now # es) = (if a' = a then now # created_at a es else created_at a es)"
| "created_at a (_ # es) = created_at a es"

fun calls_to :: "string \<Rightarrow> table_event list \<Rightarrow> cb_op list" where
  "calls_to a [] = []"
| "calls_to a (Allowed a' now ok # es) = (if a' = a then CallAllow now # calls_to a es else calls_to a es)"
| "calls_to a (Recorded a' now ok # es) = (if a' = a then CallRecord now ok # calls_to a es else calls_to a es)"
| "calls_to a (Created a' now # es) = calls_to a es"

lemma created_at_append [simp]: "created_at a (es @ fs) = created_at a es @ created_at a fs"
  by (induction a es rule: created_at.induct) simp_all

lemma calls_to_append [simp]: "calls_to a (es @ fs) = calls_to a es @ calls_to a fs"
  by (induction a es rule: calls_to.induct) simp_all

lemma RecordResult_unit: "cb_RecordResult now (err :: net_error option) cb = cb_RecordResult now (if err = None then None else Some ()) cb"
  by (simp add: cb_RecordResult_def)

section \<open>Pointers are addresses\<close>

fun request_holds :: "request_pc \<Rightarrow> (string \<times> nat) option" where
  "request_holds (Holding a r) = Some (a, r)"
| "request_holds (Admitted a r) = Some (a, r)"
| "request_holds _ = None"

definition pointers_ok :: "breaker_table \<Rightarrow> request_pc multiset \<Rightarrow> bool" where
  "pointers_ok t T \<longleftrightarrow> inj_on (bt_refs t) (dom (bt_refs t)) \<and> ran (bt_refs t) \<subseteq> {..<length (bt_store t)} \<and>
     (\<forall>pc a r. pc \<in># T \<longrightarrow> request_holds pc = Some (a, r) \<longrightarrow> bt_refs t a = Some r)"

lemma pointers_okD:
  assumes "pointers_ok t T"
  shows "bt_refs t a = Some r \<Longrightarrow> bt_refs t a' = Some r \<Longrightarrow> a = a'" and "bt_refs t a = Some r \<Longrightarrow> r < length (bt_store t)"
    and "pc \<in># T \<Longrightarrow> request_holds pc = Some (a, r) \<Longrightarrow> bt_refs t a = Some r"
  using assms by (auto simp: pointers_ok_def inj_on_def dom_def ran_def)

lemma pointers_create:
  assumes "pointers_ok t (add_mset (Missed a) T)" and "locked_create now a t = (pc, t')"
  shows "pointers_ok t' (add_mset pc T)"
proof (cases "bt_refs t a")
  case None
  let ?r = "length (bt_store t)"
  have new: "pc = Holding a ?r" "bt_refs t' = (bt_refs t)(a \<mapsto> ?r)" "length (bt_store t') = Suc ?r"
    using None assms(2) by (auto simp: locked_create_def Let_def)
  note old = pointers_okD [OF assms(1)]
  have fresh: "bt_refs t a' \<noteq> Some ?r" for a' using old(2) [of a' ?r] by auto
  show ?thesis
    unfolding pointers_ok_def
  proof (intro conjI allI impI)
    show "inj_on (bt_refs t') (dom (bt_refs t'))" using old(1) fresh by (auto simp: new inj_on_def split: if_splits)
    show "ran (bt_refs t') \<subseteq> {..<length (bt_store t')}"
      using old(2) by (auto simp: new ran_def less_Suc_eq split: if_splits)
    show "bt_refs t' a' = Some r" if "q \<in># add_mset pc T" "request_holds q = Some (a', r)" for q a' r
      using that old(3) [of q a' r] None by (auto simp: new split: if_splits)
  qed
next
  case (Some r)
  then show ?thesis using assms by (auto simp: locked_create_def pointers_ok_def)
qed

lemma pointers_step: "table_step t T es t' T' \<Longrightarrow> pointers_ok t T \<Longrightarrow> pointers_ok t' T'"
proof (induction rule: table_step.induct)
  case (creates now a t pc t' T)
  then show ?case using pointers_create by blast
qed (auto simp: pointers_ok_def locked_read_def split: option.splits)

lemma abs_update:
  assumes "pointers_ok t T" and "bt_refs t a = Some r"
  shows "table_abs (t\<lparr>bt_store := (bt_store t)[r := cb]\<rparr>) = put_breaker a cb (table_abs t)"
proof -
  have "map_option ((!) ((bt_store t)[r := cb])) (bt_refs t a') = ((\<lambda>a. map_option ((!) (bt_store t)) (bt_refs t a))(a \<mapsto> cb)) a'" for a'
    using pointers_okD(1,2) [OF assms(1)] assms(2) by (cases "bt_refs t a'") (auto simp: nth_list_update)
  then show ?thesis by (simp add: table_abs_def put_breaker_def fun_eq_iff)
qed

lemma abs_create:
  assumes "pointers_ok t T" and "locked_create now a t = (pc, t')"
  shows "table_abs t' = (if bt_refs t a = None then snd (getCircuitBreaker now a (table_abs t)) else table_abs t)"
proof (cases "bt_refs t a")
  case None
  have "map_option ((!) (bt_store t @ [cb])) (bt_refs t a') = map_option ((!) (bt_store t)) (bt_refs t a')" for a' cb
    using pointers_okD(2) [OF assms(1)] by (cases "bt_refs t a'") (auto simp: nth_append)
  then show ?thesis
    using None assms(2) by (auto simp: locked_create_def table_abs_def getCircuitBreaker_def Let_def fun_eq_iff)
qed (use assms(2) in \<open>auto simp: locked_create_def\<close>)

lemma abs_at [simp]: "breaker_at (table_abs t) a = map_option ((!) (bt_store t)) (bt_refs t a)"
  by (simp add: table_abs_def breaker_at_def)

lemma abs_allow:
  assumes "bt_refs t a = Some r"
  shows "allow_through now now a (table_abs t) =
    (fst (cb_Allow now (bt_store t ! r)), put_breaker a (snd (cb_Allow now (bt_store t ! r))) (table_abs t))"
  using assms by (simp add: allow_through_def getCircuitBreaker_def table_abs_def case_prod_unfold Let_def)

lemma abs_report:
  assumes "bt_refs t a = Some r"
  shows "report_to now err a (table_abs t) = put_breaker a (cb_RecordResult now err (bt_store t ! r)) (table_abs t)"
  using assms by (simp add: report_to_def table_abs_def)

text \<open>Each step is one event of the sequential table, or none.\<close>

lemma step_linearizes:
  assumes "table_step t T es t' T'" and "pointers_ok t T"
  shows "legal_run seq_step seq_legal (table_abs t) es \<and> table_abs t' = foldl seq_step (table_abs t) es"
  using assms
proof (induction rule: table_step.induct)
  case (creates now a t pc t' T)
  then show ?case using abs_create [OF creates(2,1)] by auto
next
  case (admitted now t r cb a T)
  then have "bt_refs t a = Some r" using pointers_okD(3) [OF admitted(2), of "Holding a r" a r] by simp
  then show ?case using admitted(1) abs_update [OF admitted(2)] abs_allow by simp
next
  case (refused now t r e cb a T)
  then have "bt_refs t a = Some r" using pointers_okD(3) [OF refused(2), of "Holding a r" a r] by simp
  then show ?case using refused(1) abs_update [OF refused(2)] abs_allow by simp
next
  case (reports t a r T now err)
  then have "bt_refs t a = Some r" using pointers_okD(3) [OF reports(1), of "Admitted a r" a r] by simp
  then show ?case using abs_update [OF reports(1)] by (simp add: RecordResult_unit [of now err] abs_report)
qed simp_all

definition empty_table :: "cb_Config \<Rightarrow> breakers" where
  "empty_table c = \<lparr>bk_map = Some Map.empty, bk_config = c\<rparr>"

lemma run_linearizes:
  "table_run c es t T \<Longrightarrow> pointers_ok t T \<and> legal_run seq_step seq_legal (empty_table c) es \<and> table_abs t = foldl seq_step (empty_table c) es"
proof (induction rule: table_run.induct)
  case idle
  then show ?case
    by (auto simp: pointers_ok_def WithHTTPCircuitBreaker_table_def table_abs_def empty_table_def fun_eq_iff)
next
  case (go_on es t T fs t' T')
  then show ?case using pointers_step step_linearizes [of t T fs t' T'] by (simp add: legal_run_append)
qed

section \<open>One breaker in service\<close>

text \<open>The breaker of an address is a new one that took the calls to that address; before the creation there was no call.\<close>

lemma seq_breaker:
  assumes "legal_run seq_step seq_legal (empty_table c) es"
  shows "bk_config (foldl seq_step (empty_table c) es) = c \<and> bk_map (foldl seq_step (empty_table c) es) \<noteq> None \<and>
    (case breaker_at (foldl seq_step (empty_table c) es) a of
       None \<Rightarrow> created_at a es = [] \<and> calls_to a es = []
     | Some cb \<Rightarrow> \<exists>t0. created_at a es = [t0] \<and> cb = foldl cb_step (cb_New c t0) (calls_to a es))"
  using assms
proof (induction es rule: rev_induct)
  case Nil
  then show ?case by (simp add: empty_table_def breaker_at_def)
next
  case (snoc e es)
  let ?b = "foldl seq_step (empty_table c) es"
  have IH: "bk_config ?b = c" "bk_map ?b \<noteq> None"
    "case breaker_at ?b a of None \<Rightarrow> created_at a es = [] \<and> calls_to a es = []
       | Some cb \<Rightarrow> \<exists>t0. created_at a es = [t0] \<and> cb = foldl cb_step (cb_New c t0) (calls_to a es)"
    and legal: "seq_legal ?b e"
    using snoc by (simp_all add: legal_run_append)
  show ?case
  proof (cases e)
    case (Created a' now)
    then show ?thesis using IH legal
      by (cases "a' = a") (auto simp: getCircuitBreaker_def breaker_at_def Let_def split: option.splits)
  next
    case (Allowed a' now ok)
    obtain err b' where allow: "allow_through now now a' ?b = (err, b')" by fastforce
    note eq = allow_through_eq [OF allow]
    have "breaker_at ?b a' \<noteq> None" using legal Allowed by simp
    then have "breaker_at b' a' = Some (snd (cb_Allow now (the (breaker_at ?b a'))))"
      using eq(4,5) IH(2) by (cases "breaker_at b' a'") (auto simp: breaker_or_new_def)
    then show ?thesis
      using Allowed IH allow eq(1,2,6) \<open>breaker_at ?b a' \<noteq> None\<close> by (cases "a' = a") (auto split: option.splits)
  next
    case (Recorded a' now ok)
    then show ?thesis using IH legal by (cases "a' = a") (auto simp: report_to_eq split: option.splits)
  qed
qed

text \<open>The requests that a breaker let in and that have not reported.\<close>

fun in_flight :: "string \<Rightarrow> table_event list \<Rightarrow> int" where
  "in_flight a [] = 0"
| "in_flight a (Allowed a' now ok # es) = (if a' = a \<and> ok then 1 else 0) + in_flight a es"
| "in_flight a (Recorded a' now ok # es) = (if a' = a then -1 else 0) + in_flight a es"
| "in_flight a (Created a' now # es) = in_flight a es"

lemma in_flight_append [simp]: "in_flight a (es @ fs) = in_flight a es + in_flight a fs"
  by (induction a es rule: in_flight.induct) simp_all

definition is_admitted :: "string \<Rightarrow> request_pc \<Rightarrow> bool" where
  "is_admitted a pc = (case pc of Admitted a' r \<Rightarrow> a' = a | _ \<Rightarrow> False)"

lemma run_in_flight: "table_run c es t T \<Longrightarrow> int (size (filter_mset (is_admitted a) T)) = in_flight a es"
proof (induction rule: table_run.induct)
  case (go_on es t T fs t' T')
  from go_on(2) have "int (size (filter_mset (is_admitted a) T')) = int (size (filter_mset (is_admitted a) T)) + in_flight a fs"
    by cases (auto simp: is_admitted_def locked_read_def locked_create_def Let_def split: option.splits)
  then show ?case using go_on.IH by simp
qed simp

text \<open>What the counters of a breaker say of the calls.\<close>

definition unsettled :: "CircuitBreaker \<Rightarrow> int" where
  "unsettled cb = cb_totalRequests cb - cb_totalSuccess cb - cb_totalFailures cb - cb_totalRejected cb"

lemma unsettled_calls:
  "unsettled (cb_New c t0) = 0"
  "unsettled (snd (cb_Allow now cb)) = unsettled cb + (if fst (cb_Allow now cb) = None then 1 else 0)"
  "unsettled (cb_RecordResult now err cb) = unsettled cb - 1"
proof -
  obtain err cb' where allow: "cb_Allow now cb = (err, cb')" by fastforce
  show "unsettled (snd (cb_Allow now cb)) = unsettled cb + (if fst (cb_Allow now cb) = None then 1 else 0)"
    using cb_totals(1) [OF allow] by (auto simp: allow unsettled_def)
qed (simp_all add: unsettled_def cb_totals cb_New_def)

lemma seq_unsettled:
  assumes "legal_run seq_step seq_legal (empty_table c) es"
  shows "(case breaker_at (foldl seq_step (empty_table c) es) a of None \<Rightarrow> 0 | Some cb \<Rightarrow> unsettled cb) = in_flight a es"
  using assms
proof (induction es rule: rev_induct)
  case Nil
  then show ?case by (simp add: empty_table_def breaker_at_def)
next
  case (snoc e es)
  let ?b = "foldl seq_step (empty_table c) es"
  have IH: "(case breaker_at ?b a of None \<Rightarrow> 0 | Some cb \<Rightarrow> unsettled cb) = in_flight a es" and legal: "seq_legal ?b e"
    and enabled: "bk_map ?b \<noteq> None"
    using snoc seq_breaker [of c es] by (simp_all add: legal_run_append)
  show ?case
  proof (cases e)
    case (Created a' now)
    then show ?thesis using IH legal enabled
      by (cases "a' = a") (auto simp: getCircuitBreaker_def breaker_at_def Let_def unsettled_calls(1) split: option.splits)
  next
    case (Allowed a' now ok)
    obtain err b' where allow: "allow_through now now a' ?b = (err, b')" by fastforce
    note eq = allow_through_eq [OF allow]
    obtain cb where cb: "breaker_at ?b a' = Some cb" using legal Allowed by auto
    then have met: "cb_Allow now cb = (err, the (breaker_at b' a'))" "breaker_at b' a' \<noteq> None"
      using eq(4,5) enabled by (auto simp: breaker_or_new_def)
    then show ?thesis
      using Allowed IH allow eq(6) cb legal unsettled_calls(2) [of now cb] by (cases "a' = a") auto
  next
    case (Recorded a' now ok)
    then show ?thesis using IH legal by (cases "a' = a") (auto simp: report_to_eq unsettled_calls(3) split: option.splits)
  qed
qed

section \<open>Properties\<close>

text \<open>C14: requests that use the breaker table of a proxy at the same time, each looking its address up under the read lock, creating a missing breaker under the write lock after a second look, calling
  \<^verbatim>\<open>Allow\<close> and later \<^verbatim>\<open>RecordResult\<close>, amount to a sequence of calls on a table whose look-up is one step: every verdict is
  that of the sequence, the table is the one it leaves, and each request request_holds the breaker of its address.\<close>

theorem breaker_table_linearizes:
  assumes "table_run c es t T"
  shows "legal_run seq_step seq_legal (empty_table c) es \<and> table_abs t = foldl seq_step (empty_table c) es \<and>
    (\<forall>pc a r. pc \<in># T \<longrightarrow> request_holds pc = Some (a, r) \<longrightarrow> bt_refs t a = Some r) \<and> (\<forall>a. length (created_at a es) \<le> 1)"
proof -
  note run = run_linearizes [OF assms]
  then have "length (created_at a es) \<le> 1" for a using seq_breaker [of c es a] by (auto split: option.splits)
  then show ?thesis using run by (auto simp: pointers_ok_def)
qed

text \<open>C17: a breaker in service goes through the states of the documented machine from its creation on, driven by the calls for its address in
  the order in which they took its lock, whatever requests to this and other addresses do meanwhile; and its total of requests is the sum of its totals of successes,
  failures and rejections and of the requests that it admitted and that are still under way.\<close>

theorem breaker_in_service:
  assumes "table_run c es t T" and "cb_config_ok c" and "bt_refs t a = Some r"
  shows "\<exists>t0. created_at a es = [t0] \<and>
      cb_abs (bt_store t ! r) = foldl (breaker_step (cb_defaults c)) (Closed 0 t0) (calls_to a es) \<and>
      cb_totalRequests (bt_store t ! r) = cb_totalSuccess (bt_store t ! r) + cb_totalFailures (bt_store t ! r) +
        cb_totalRejected (bt_store t ! r) + int (size (filter_mset (is_admitted a) T))"
proof -
  note run = run_linearizes [OF assms(1)]
  then have at: "breaker_at (foldl seq_step (empty_table c) es) a = Some (bt_store t ! r)"
    using abs_at [of t a] assms(3) by simp
  obtain t0 where t0: "created_at a es = [t0]" "bt_store t ! r = foldl cb_step (cb_New c t0) (calls_to a es)"
    using seq_breaker [of c es a] run at by auto
  have "cb_abs (bt_store t ! r) = foldl (breaker_step (cb_defaults c)) (Closed 0 t0) (calls_to a es)"
    using cb_run_refines [OF cb_New_inv [OF assms(2)], of t0 "calls_to a es"] by (simp add: t0(2) cb_New_def cb_abs_def)
  moreover have "unsettled (bt_store t ! r) = int (size (filter_mset (is_admitted a) T))"
    using seq_unsettled [of c es a] run at run_in_flight [OF assms(1), of a] by simp
  ultimately show ?thesis using t0(1) by (auto simp: unsettled_def)
qed

section \<open>A race\<close>

text \<open>Two requests for the same address miss; the second finds the breaker of the first when it has the write lock.\<close>

definition race_table :: breaker_table where
  "race_table = \<lparr>bt_config = cb_DefaultConfig, bt_refs = [''a:1'' \<mapsto> 0], bt_store = [snd (cb_Allow 2 (cb_New cb_DefaultConfig 1))]\<rparr>"

lemma race_run: "table_run cb_DefaultConfig [Created ''a:1'' 1, Allowed ''a:1'' 2 True] race_table {#Admitted ''a:1'' 0, Holding ''a:1'' 0#}"
proof -
  let ?c = cb_DefaultConfig
  let ?run = "table_run ?c" and ?t0 = "WithHTTPCircuitBreaker_table ?c"
  let ?t1 = "\<lparr>bt_config = ?c, bt_refs = [''a:1'' \<mapsto> 0], bt_store = [cb_New ?c 1]\<rparr>"
  note defs = WithHTTPCircuitBreaker_table_def locked_read_def locked_create_def
  have "?run [] ?t0 {#}" by (rule idle)
  from go_on [OF this arrives] have "?run [] ?t0 {#Looking ''a:1''#}" by simp
  from go_on [OF this looks] have "?run [] ?t0 {#Missed ''a:1''#}" by (simp add: defs)
  from go_on [OF this arrives] have "?run [] ?t0 {#Looking ''a:1'', Missed ''a:1''#}" by simp
  from go_on [OF this looks] have "?run [] ?t0 {#Missed ''a:1'', Missed ''a:1''#}" by (simp add: defs)
  from go_on [OF this creates [of 1 "''a:1''" ?t0 "Holding ''a:1'' 0" ?t1]]
  have "?run [Created ''a:1'' 1] ?t1 {#Holding ''a:1'' 0, Missed ''a:1''#}" by (simp add: defs)
  from go_on [OF this [unfolded add_mset_commute [of "Holding ''a:1'' 0"]] creates [of 3 "''a:1''" ?t1 "Holding ''a:1'' 0" ?t1]]
  have "?run [Created ''a:1'' 1] ?t1 {#Holding ''a:1'' 0, Holding ''a:1'' 0#}" by (simp add: defs)
  moreover have "cb_Allow 2 (bt_store ?t1 ! 0) = (None, snd (cb_Allow 2 (cb_New ?c 1)))"
    by (simp add: cb_Allow_def cb_New_def Let_def)
  ultimately show ?thesis using go_on [OF _ admitted] by (fastforce simp: race_table_def)
qed

theorem breaker_table_linearizes_witness:
  "table_abs race_table = foldl seq_step (empty_table cb_DefaultConfig) [Created ''a:1'' 1, Allowed ''a:1'' 2 True] \<and> bt_refs race_table ''a:1'' = Some 0"
  using breaker_table_linearizes [OF race_run] by (simp add: race_table_def)

theorem breaker_in_service_witness:
  "cb_abs (bt_store race_table ! 0) = Closed 0 1 \<and> cb_totalRequests (bt_store race_table ! 0) = 1"
proof -
  have "\<exists>t0. created_at ''a:1'' [Created ''a:1'' 1, Allowed ''a:1'' 2 True] = [t0] \<and>
      cb_abs (bt_store race_table ! 0) = foldl (breaker_step (cb_defaults cb_DefaultConfig)) (Closed 0 t0) (calls_to ''a:1'' [Created ''a:1'' 1, Allowed ''a:1'' 2 True]) \<and>
      cb_totalRequests (bt_store race_table ! 0) = cb_totalSuccess (bt_store race_table ! 0) + cb_totalFailures (bt_store race_table ! 0) +
        cb_totalRejected (bt_store race_table ! 0) + int (size (filter_mset (is_admitted ''a:1'') {#Admitted ''a:1'' 0, Holding ''a:1'' 0#}))"
    by (rule breaker_in_service [OF race_run]) (simp_all add: race_table_def cb_config_ok_def cb_DefaultConfig_def)
  then show ?thesis
    by (simp add: is_admitted_def race_table_def cb_Allow_def cb_New_def Let_def)
qed

end
