(* ===== verification/Service.thy ===== *)
theory Service
  imports Sluice BreakerTable
begin

text \<open>
  The gateway in service: the events that reach a running process one after the other (connections, requests, rounds of
  health checks, reloads of the configuration, operations on the registry and the reaction of its watcher), as one
  step function on the state that \<^verbatim>\<open>main\<close> set up. The interleavings inside an event are the subject of the other
  theories (\<open>conn_step\<close>, \<open>life_step\<close>, \<open>table_step\<close>, \<open>watch_step\<close>, \<open>proc_step\<close>); here the components meet: what
  a health check does to later requests, what a registration does to the balancer, what both listeners together take from the limiter.
\<close>

section \<open>What a middleware does to the world\<close>

lemma Tracing_form:
  "\<exists>ctx r hdr log. \<forall>inner. Tracing rnd tv l inner c =
    (case serve_wrapped (serve_with_context ctx inner) (c\<lparr>cf_r := r, cf_w := (cf_w c)\<lparr>w_Header := hdr\<rparr>\<rparr>) of
       (None, c1) \<Rightarrow> (True, c1)
     | (Some wrapped, c1) \<Rightarrow> (False, add_log (log wrapped) c1))"
  unfolding Tracing_def Let_def case_prod_unfold by (intro exI allI) (rule refl)

text \<open>A relation between the world before and after a handler that does not look at the collector and the log. The outer part of the chain of
  \<^verbatim>\<open>buildHTTPServer\<close> changes nothing else, so it carries such a relation from the inner handler to the whole.\<close>

locale world_relation =
  fixes R :: "'z mw_world_scheme \<Rightarrow> 'z mw_world_scheme \<Rightarrow> bool"
  assumes counted_before: "R (W\<lparr>hw_gw := (hw_gw W)\<lparr>gw_metrics := m\<rparr>\<rparr>) W' \<Longrightarrow> R W W'"
    and counted_after: "R W W' \<Longrightarrow> R W (W'\<lparr>hw_gw := (hw_gw W')\<lparr>gw_metrics := m\<rparr>\<rparr>)"
    and logged: "R W W' \<Longrightarrow> R W (W'\<lparr>mw_log := es\<rparr>)"
begin

lemma wrapped:
  assumes "\<And>c. R (cf_world c) (cf_world (snd (inner c)))"
  shows "R (cf_world c) (cf_world (snd (serve_wrapped inner c)))"
  using assms [of "c\<lparr>cf_w := push_wrap (cf_w c)\<rparr>"] by (simp add: serve_wrapped_def Let_def case_prod_unfold)

lemma contextual:
  assumes "\<And>c. R (cf_world c) (cf_world (snd (inner c)))"
  shows "R (cf_world c) (cf_world (snd (serve_with_context ctx inner c)))"
  using assms [of "c\<lparr>cf_r := (cf_r c)\<lparr>r_ctx := ctx\<rparr>\<rparr>"] by (simp add: serve_with_context_def Let_def case_prod_unfold)

lemma Recovery_carries:
  assumes "\<And>c. R (cf_world c) (cf_world (snd (inner c)))"
  shows "R (cf_world c) (cf_world (snd (Recovery l inner c)))"
  using assms [of c] logged by (auto simp: Recovery_def Let_def case_prod_unfold add_log_def)

lemma Tracing_carries:
  assumes "\<And>c. R (cf_world c) (cf_world (snd (inner c)))"
  shows "R (cf_world c) (cf_world (snd (Tracing rnd tv l inner c)))"
proof -
  obtain ctx r hdr log where form: "Tracing rnd tv l inner c =
      (case serve_wrapped (serve_with_context ctx inner) (c\<lparr>cf_r := r, cf_w := (cf_w c)\<lparr>w_Header := hdr\<rparr>\<rparr>) of
         (None, c1) \<Rightarrow> (True, c1) | (Some wrapped, c1) \<Rightarrow> (False, add_log (log wrapped) c1))"
    using Tracing_form [of rnd tv l c] by blast
  have "R (cf_world c) (cf_world (snd (serve_wrapped (serve_with_context ctx inner) (c\<lparr>cf_r := r, cf_w := (cf_w c)\<lparr>w_Header := hdr\<rparr>\<rparr>))))"
    using wrapped [where c = "c\<lparr>cf_r := r, cf_w := (cf_w c)\<lparr>w_Header := hdr\<rparr>\<rparr>" and inner = "serve_with_context ctx inner", OF contextual, OF assms] by simp
  then show ?thesis using logged by (auto simp: form add_log_def split: prod.splits option.splits)
qed

lemma Metrics_carries:
  assumes "\<And>c. R (cf_world c) (cf_world (snd (inner c)))"
  shows "R (cf_world c) (cf_world (snd (Metrics_mw start now inner c)))"
proof -
  let ?c = "on_gw (gw_record True RecordConnection) c"
  have "R (cf_world ?c) (cf_world (snd (serve_wrapped inner ?c)))" by (rule wrapped) (rule assms)
  then have "R (cf_world c) (cf_world (snd (serve_wrapped inner ?c)))"
    by (intro counted_before [where W = "cf_world c"]) (simp add: on_gw_def gw_record_def)
  then show ?thesis using counted_after
    by (auto simp: Metrics_mw_def on_gw_def gw_record_def Let_def split: prod.splits option.splits)
qed

lemma Headers_carries:
  assumes "\<And>c. R (cf_world c) (cf_world (snd (inner c)))"
  shows "R (cf_world c) (cf_world (snd (Headers inner c)))"
proof -
  obtain h where "Headers inner c = inner (c\<lparr>cf_r := (cf_r c)\<lparr>r_Header := h\<rparr>\<rparr>)" using Headers_eq [of inner c] by blast
  then show ?thesis using assms [of "c\<lparr>cf_r := (cf_r c)\<lparr>r_Header := h\<rparr>\<rparr>"] by simp
qed

end

text \<open>Handlers that do the same, and handlers that answer with a status, while the gateway meets a condition. The outer part of the chain
  changes nothing of the gateway but the collector before it calls the next handler, so both carry over to the whole when the condition does not
  look at the collector.\<close>

definition agree :: "(gateway \<Rightarrow> bool) \<Rightarrow> ('z http_world_scheme, 'x) handler \<Rightarrow> ('z http_world_scheme, 'x) handler \<Rightarrow> bool" where
  "agree P f g \<longleftrightarrow> (\<forall>c. P (world_gw c) \<longrightarrow> f c = g c)"

definition replies :: "(gateway \<Rightarrow> bool) \<Rightarrow> int \<Rightarrow> ('z http_world_scheme, 'x) handler \<Rightarrow> bool" where
  "replies P code f \<longleftrightarrow> (\<forall>c. P (world_gw c) \<longrightarrow> fresh_writer (cf_w c) \<longrightarrow> (\<exists>c'. f c = (False, c') \<and> w_status (cf_w c') = Some code))"

lemma agreeD: "agree P f g \<Longrightarrow> P (world_gw c) \<Longrightarrow> f c = g c"
  by (simp add: agree_def)

lemma repliesD: "replies P code f \<Longrightarrow> P (world_gw c) \<Longrightarrow> fresh_writer (cf_w c) \<Longrightarrow> \<exists>c'. f c = (False, c') \<and> w_status (cf_w c') = Some code"
  by (simp add: replies_def)

locale gateway_condition =
  fixes P :: "gateway \<Rightarrow> bool"
  assumes metrics_free: "P (g\<lparr>gw_metrics := m\<rparr>) = P g"
begin

lemma wrapped_agree: "agree P f g \<Longrightarrow> P (world_gw c) \<Longrightarrow> serve_wrapped f c = serve_wrapped g c"
  using agreeD [of P f g "c\<lparr>cf_w := push_wrap (cf_w c)\<rparr>"] by (simp add: serve_wrapped_def)

lemma wrapped_replies:
  assumes "replies P code f" and "P (world_gw c)" and "fresh_writer (cf_w c)"
  shows "\<exists>wrapped c'. serve_wrapped f c = (Some wrapped, c') \<and> w_status (cf_w c') = Some code"
  using repliesD [OF assms(1), of "c\<lparr>cf_w := push_wrap (cf_w c)\<rparr>"] assms(2,3) fresh_push by (auto simp: serve_wrapped_def)

lemma context_agree: "agree P f g \<Longrightarrow> agree P (serve_with_context ctx f) (serve_with_context ctx g)"
  unfolding agree_def using agreeD [of P f g "c\<lparr>cf_r := (cf_r c)\<lparr>r_ctx := ctx\<rparr>\<rparr>" for c] by (simp add: agree_def serve_with_context_def)

lemma context_replies: "replies P code f \<Longrightarrow> replies P code (serve_with_context ctx f)"
  unfolding replies_def using repliesD [of P code f "c\<lparr>cf_r := (cf_r c)\<lparr>r_ctx := ctx\<rparr>\<rparr>" for c]
  by (fastforce simp: replies_def serve_with_context_def)

lemma Headers_agree: "agree P f g \<Longrightarrow> agree P (Headers f) (Headers g)"
  by (simp add: agree_def Headers_def Let_def)

lemma counted [simp]: "P (world_gw (on_gw (gw_record b e) c)) = P (world_gw c)"
  using metrics_free by (simp add: on_gw_def gw_record_def)

lemma Metrics_agree: "agree P f g \<Longrightarrow> agree P (Metrics_mw start now f) (Metrics_mw start now g)"
  using wrapped_agree [of f g "on_gw (gw_record True RecordConnection) c" for c] by (simp add: agree_def Metrics_mw_def Let_def)

lemma Metrics_replies:
  fixes f :: "('z http_world_scheme, 'x) handler"
  assumes "replies P code f"
  shows "replies P code (Metrics_mw start now f)"
  unfolding replies_def
proof (intro allI impI)
  fix c :: "('z http_world_scheme, 'x) conf"
  let ?c = "on_gw (gw_record True RecordConnection) c"
  assume "P (world_gw c)" and "fresh_writer (cf_w c)"
  then have "P (world_gw ?c)" "fresh_writer (cf_w ?c)" by (simp_all, simp add: on_gw_def)
  from wrapped_replies [OF assms this] show "\<exists>c'. Metrics_mw start now f c = (False, c') \<and> w_status (cf_w c') = Some code"
    by (auto simp: Metrics_mw_def Let_def) (simp_all add: on_gw_def)
qed

lemma Tracing_agree:
  fixes f g :: "('z mw_world_scheme, 'y obs_ctx_ext) handler"
  assumes "agree P f g"
  shows "agree P (Tracing rnd tv l f) (Tracing rnd tv l g)"
  unfolding agree_def
proof (intro allI impI)
  fix c :: "('z mw_world_scheme, 'y obs_ctx_ext) conf"
  assume c: "P (world_gw c)"
  obtain ctx r hdr log where form: "\<And>inner. Tracing rnd tv l inner c =
      (case serve_wrapped (serve_with_context ctx inner) (c\<lparr>cf_r := r, cf_w := (cf_w c)\<lparr>w_Header := hdr\<rparr>\<rparr>) of
         (None, c1) \<Rightarrow> (True, c1) | (Some wrapped, c1) \<Rightarrow> (False, add_log (log wrapped) c1))"
    using Tracing_form [of rnd tv l c] by blast
  let ?c = "c\<lparr>cf_r := r, cf_w := (cf_w c)\<lparr>w_Header := hdr\<rparr>\<rparr>"
  have "serve_wrapped (serve_with_context ctx f) ?c = serve_wrapped (serve_with_context ctx g) ?c"
    using c by (intro wrapped_agree [OF context_agree, OF assms]) simp_all
  then show "Tracing rnd tv l f c = Tracing rnd tv l g c" by (simp only: form)
qed

lemma Tracing_replies:
  fixes f :: "('z mw_world_scheme, 'y obs_ctx_ext) handler"
  assumes "replies P code f"
  shows "replies P code (Tracing rnd tv l f)"
  unfolding replies_def
proof (intro allI impI)
  fix c :: "('z mw_world_scheme, 'y obs_ctx_ext) conf"
  assume c: "P (world_gw c)" "fresh_writer (cf_w c)"
  obtain ctx r hdr log where form: "Tracing rnd tv l f c =
      (case serve_wrapped (serve_with_context ctx f) (c\<lparr>cf_r := r, cf_w := (cf_w c)\<lparr>w_Header := hdr\<rparr>\<rparr>) of
         (None, c1) \<Rightarrow> (True, c1) | (Some wrapped, c1) \<Rightarrow> (False, add_log (log wrapped) c1))"
    using Tracing_form [of rnd tv l c] by blast
  let ?c = "c\<lparr>cf_r := r, cf_w := (cf_w c)\<lparr>w_Header := hdr\<rparr>\<rparr>"
  have "\<exists>wrapped c'. serve_wrapped (serve_with_context ctx f) ?c = (Some wrapped, c') \<and> w_status (cf_w c') = Some code"
    using c by (intro wrapped_replies [OF context_replies, OF assms]) (simp_all add: fresh_writer_def)
  then show "\<exists>c'. Tracing rnd tv l f c = (False, c') \<and> w_status (cf_w c') = Some code"
    unfolding form by (auto simp: add_log_def)
qed

lemma Recovery_agree: "agree P f g \<Longrightarrow> agree P (Recovery l f) (Recovery l g)"
  by (simp add: agree_def Recovery_def)

lemma Recovery_replies: "replies P code f \<Longrightarrow> replies P code (Recovery l f)"
  by (fastforce simp: replies_def Recovery_def)

end

section \<open>Events\<close>

definition l7_conf :: "HTTPProxy \<Rightarrow> gateway \<Rightarrow> writer \<Rightarrow> unit obs_ctx_ext request \<Rightarrow> (mw_world, unit obs_ctx_ext) conf" where
  "l7_conf hp g w r = \<lparr>cf_w = w, cf_r = r, cf_world = \<lparr>hw_proxy = hp, hw_gw = g, mw_log = [], mw_stats = NewRateLimiterWithStats\<rparr>\<rparr>"

text \<open>A connection is accepted, which adds it to the wait group, and handled to its end; a request goes through the handler of the HTTP listener;
  a round of checks, a configuration that loads and is valid, a call on the registry, and the reaction of the watcher to an event.\<close>

datatype gw_event =
  Connection conn_env socket
| Request "unit obs_ctx_ext l7_env" writer "unit obs_ctx_ext request"
| HealthRound round
| ConfigReload Config
| RegistryCall reg_op
| RegistryNotice "string list"

definition accept_conn :: "TCPProxy \<Rightarrow> TCPProxy" where
  "accept_conn p = p\<lparr>tp_connWg := tp_connWg p + 1\<rparr>"

definition rate_limited :: "sluice \<Rightarrow> bool" where
  "rate_limited s \<longleftrightarrow> rl_Enabled (s_RateLimit (Server (sl_startConfig s)))"

fun serve :: "logger \<Rightarrow> sluice \<Rightarrow> gw_event \<Rightarrow> sluice" where
  "serve l s (Connection env cl) =
     (case handleConnection env (accept_conn (sl_tcp s), sl_gw s, cl) of
        None \<Rightarrow> s
      | Some (out, p, g, cl') \<Rightarrow> s\<lparr>sl_tcp := p, sl_gw := g\<rparr>)"
| "serve l s (Request env w r) =
     (case sl_http s of
        None \<Rightarrow> s
      | Some hp \<Rightarrow>
          (let W = cf_world (snd (l7_handler l (rate_limited s) env (l7_conf hp (sl_gw s) w r)))
           in s\<lparr>sl_http := Some (hw_proxy W), sl_gw := hw_gw W\<rparr>))"
| "serve l s (HealthRound rd) =
     (let (c, h) = checkAll rd (sl_checker s, gw_heap (sl_gw s))
      in s\<lparr>sl_checker := c, sl_gw := (sl_gw s)\<lparr>gw_heap := h\<rparr>\<rparr>)"
| "serve l s (ConfigReload cfg) = reloadBackends cfg s"
| "serve l s (RegistryCall op) = s\<lparr>sl_registry := map_option (\<lambda>reg. reg_step reg op) (sl_registry s)\<rparr>"
| "serve l s (RegistryNotice order) = registryEvent order s"

text \<open>A connection that is counted has come to its end, a round checks every backend once, the registry is called as its invariant asks.\<close>

fun in_order :: "sluice \<Rightarrow> gw_event \<Rightarrow> bool" where
  "in_order s (Connection env cl) \<longleftrightarrow> handleConnection env (accept_conn (sl_tcp s), sl_gw s, cl) \<noteq> None"
| "in_order s (HealthRound rd) \<longleftrightarrow> mset (rd_order rd) = mset (checked s)"
| "in_order s (RegistryCall op) \<longleftrightarrow> (case sl_registry s of None \<Rightarrow> True | Some reg \<Rightarrow> reg_legal reg op)"
| "in_order s _ \<longleftrightarrow> True"

section \<open>What a connection leaves alone\<close>

definition same_backends :: "heap \<Rightarrow> heap \<Rightarrow> bool" where
  "same_backends h h' \<longleftrightarrow> b_Addr h' = b_Addr h \<and> b_IsHealthy h' = b_IsHealthy h \<and> b_ActiveConnections h' = b_ActiveConnections h"

lemma Dial_view:
  assumes "b_Dial dial live now now' dl b h = (r, h')" and "pools_idle h"
  shows "b_Addr h' = b_Addr h" and "b_IsHealthy h' = b_IsHealthy h"
  using assms
  by (auto simp: b_Dial_def p_get_def pools_idle_def new_pooledConn_def c_touch_def b_addActive_def b_Addr_def b_IsHealthy_def fun_eq_iff Let_def
      split: option.splits sum.splits if_splits)

lemma Close_view:
  "b_Addr (snd (c_CloseWrite c h)) = b_Addr h" "b_IsHealthy (snd (c_CloseWrite c h)) = b_IsHealthy h"
  "b_Addr (snd (c_Close now c h)) = b_Addr h" "b_IsHealthy (snd (c_Close now c h)) = b_IsHealthy h"
  by (auto simp: c_CloseWrite_def c_Close_def c_CloseEnter_def c_CloseDispose_def p_put_def c_closeSocket_def b_addActive_def b_Addr_def b_IsHealthy_def
      fun_eq_iff Let_def split: option.splits if_splits prod.splits)

lemma forward_frame:
  assumes "tcp_forward env b c (p, g, cl) = Some (out, p', g', cl')"
  shows "b_Addr (gw_heap g') = b_Addr (gw_heap g)" and "b_IsHealthy (gw_heap g') = b_IsHealthy (gw_heap g)"
    and "gw_lb g' = gw_lb g" and "gw_limiter g' = gw_limiter g"
proof -
  show "b_Addr (gw_heap g') = b_Addr (gw_heap g)" "b_IsHealthy (gw_heap g') = b_IsHealthy (gw_heap g)"
    by (simp_all add: forward_Some(2) [OF assms] Close_view)
  show "gw_lb g' = gw_lb g" "gw_limiter g' = gw_limiter g"
    using assms by (auto simp: tcp_forward_def Let_def split: option.splits)
qed

text \<open>The backend that an outcome is about.\<close>

fun outcome_backend :: "conn_outcome \<Rightarrow> backend_ref option" where
  "outcome_backend RateLimited = None"
| "outcome_backend (NoBackend e) = None"
| "outcome_backend (BreakerOpen b) = Some b"
| "outcome_backend (DialFailed b e) = Some b"
| "outcome_backend (Proxied b up down) = Some b"

definition kept_backends :: "gateway \<Rightarrow> gateway \<Rightarrow> bool" where
  "kept_backends g g' \<longleftrightarrow> b_Addr (gw_heap g') = b_Addr (gw_heap g) \<and> b_IsHealthy (gw_heap g') = b_IsHealthy (gw_heap g) \<and>
     lb_Backends (gw_lb g') = lb_Backends (gw_lb g)"

definition good_choice :: "gateway \<Rightarrow> backend_ref option \<Rightarrow> bool" where
  "good_choice g choice \<longleftrightarrow> (\<forall>b. choice = Some b \<longrightarrow> b \<in> set (lb_Backends (gw_lb g)) \<and> b_IsHealthy (gw_heap g) b)"

lemma next_good:
  assumes "lb_Next (gw_heap g) (gw_lb g) = (r, lb)"
  shows "lb_Backends lb = lb_Backends (gw_lb g)" and "r = Inr b \<Longrightarrow> good_choice g (Some b)"
  using assms lb.next_members [of "gw_heap g" "gw_lb g"] lb.next_member [of "gw_heap g" "gw_lb g" b] by (auto simp: good_choice_def)

lemma body_frame:
  assumes "tcp_body env (p, g, cl) = Some (out, p', g', cl')" and "pools_idle (gw_heap g)"
  shows "kept_backends g g' \<and> good_choice g (outcome_backend out)"
  using assms(1)
proof (cases rule: tcp_body_cases)
  case (limited tb)
  then show ?thesis by (simp add: kept_backends_def good_choice_def)
next
  case (unavailable tb lb e)
  then show ?thesis using next_good(1) [OF unavailable(5)] by (simp add: kept_backends_def good_choice_def)
next
  case (denied tb lb b e t)
  then show ?thesis using next_good [OF denied(5)] by (simp add: kept_backends_def)
next
  case (failed tb lb b t e h)
  then show ?thesis using next_good [OF failed(5)] Dial_view [OF failed(7) assms(2)] by (simp add: kept_backends_def)
next
  case (forwarded tb lb b t c h)
  then show ?thesis
    using next_good [OF forwarded(1)] Dial_view [OF forwarded(3) assms(2)] forward_frame [OF forwarded(4)] forward_Some(5) [OF forwarded(4)]
    by (auto simp: kept_backends_def)
qed

lemma body_limiter:
  assumes "tcp_body env (p, g, cl) = Some (out, p', g', cl')"
  shows "gw_limiter g' = (if tp_rateLimiter p then snd (tb_Allow (ce_rnd env) (ce_limit env) (gw_limiter g)) else gw_limiter g)"
    and "out = RateLimited \<longleftrightarrow> tp_rateLimiter p \<and> \<not> fst (tb_Allow (ce_rnd env) (ce_limit env) (gw_limiter g))"
proof -
  obtain ok tb where rl: "(if tp_rateLimiter p then tb_Allow (ce_rnd env) (ce_limit env) (gw_limiter g) else (True, gw_limiter g)) = (ok, tb)"
    by force
  note body = assms [unfolded tcp_body_def Let_def prod.case rl]
  have "gw_limiter g' = tb" "out = RateLimited \<longleftrightarrow> \<not> ok"
    using body forward_frame(4) forward_Some(5) by (fastforce split: if_splits prod.splits sum.splits)+
  then show "gw_limiter g' = (if tp_rateLimiter p then snd (tb_Allow (ce_rnd env) (ce_limit env) (gw_limiter g)) else gw_limiter g)"
    "out = RateLimited \<longleftrightarrow> tp_rateLimiter p \<and> \<not> fst (tb_Allow (ce_rnd env) (ce_limit env) (gw_limiter g))"
    using rl by (auto split: if_splits)
qed

text \<open>A connection handled to its end.\<close>

lemma connection_frame:
  assumes "handleConnection env (accept_conn p, g, cl) = Some (out, p', g', cl')" and "pools_idle (gw_heap g)"
  shows "kept_backends g g'" and "good_choice g (outcome_backend out)" and "pools_idle (gw_heap g')"
    and "b_ActiveConnections (gw_heap g') = b_ActiveConnections (gw_heap g)"
    and "\<exists>t. p' = p\<lparr>tp_breakers := t\<rparr>"
    and "gw_limiter g' = (if tp_rateLimiter p then snd (tb_Allow (ce_rnd env) (ce_limit env) (gw_limiter g)) else gw_limiter g)"
    and "out = RateLimited \<longleftrightarrow> tp_rateLimiter p \<and> \<not> fst (tb_Allow (ce_rnd env) (ce_limit env) (gw_limiter g))"
proof -
  let ?p = "(accept_conn p)\<lparr>tp_activeConns := tp_activeConns p + 1\<rparr>" and ?g = "gw_record (tp_metrics p) RecordConnection g"
  obtain p2 g2 cl2 where body: "tcp_body env (?p, ?g, cl) = Some (out, p2, g2, cl2)"
    and p': "p' = p2\<lparr>tp_activeConns := tp_activeConns p2 - 1, tp_connWg := tp_connWg p2 - 1\<rparr>"
    and g': "g' = gw_record (tp_metrics p2) (RecordConnectionClosed (time_Sub (ce_end env) (ce_start env))) g2"
    by (rule handle_Some [OF assms(1)]) (simp add: accept_conn_def)
  have idle: "pools_idle (gw_heap ?g)" using assms(2) by simp
  note frame = body_frame [OF body idle] and limiter = body_limiter [OF body] and settled = tcp_body_settled [OF body idle]
  show "kept_backends g g'" "good_choice g (outcome_backend out)" using frame by (simp_all add: kept_backends_def good_choice_def g')
  show "pools_idle (gw_heap g')" "b_ActiveConnections (gw_heap g') = b_ActiveConnections (gw_heap g)"
    using settled by (simp_all add: settled_def g' fun_eq_iff)
  obtain t where "p2 = ?p\<lparr>tp_breakers := t\<rparr>" using settled by blast
  then have "p' = p\<lparr>tp_breakers := t\<rparr>" by (cases p) (simp add: p' accept_conn_def)
  then show "\<exists>t. p' = p\<lparr>tp_breakers := t\<rparr>" by blast
  show "gw_limiter g' = (if tp_rateLimiter p then snd (tb_Allow (ce_rnd env) (ce_limit env) (gw_limiter g)) else gw_limiter g)"
    "out = RateLimited \<longleftrightarrow> tp_rateLimiter p \<and> \<not> fst (tb_Allow (ce_rnd env) (ce_limit env) (gw_limiter g))"
    using limiter by (simp_all add: g' accept_conn_def)
qed

section \<open>What a request leaves alone\<close>

text \<open>The breakers of a table, settled and within their invariant.\<close>

definition table_ok :: "breakers \<Rightarrow> bool" where
  "table_ok t \<longleftrightarrow> cb_config_ok (bk_config t) \<and> all_breakers cb_balanced t \<and> all_breakers cb_inv t"

lemma table_rejected: "table_ok t \<Longrightarrow> allow_through created now addr t = (Some e, t') \<Longrightarrow> table_ok t'"
  using balanced.rejected_all [of t created now addr e t'] sound.rejected_all [of t created now addr e t'] allow_through_eq(1)
  by (fastforce simp: table_ok_def)

lemma table_settled: "table_ok t \<Longrightarrow> allow_through created now addr t = (None, t') \<Longrightarrow> table_ok (report_to now' (err :: net_error option) addr t')"
  using balanced.settled_all [of t created now addr t' now' err] sound.settled_all [of t created now addr t' now' err] allow_through_eq(1)
  by (fastforce simp: table_ok_def report_to_eq(1))

definition request_kept :: "'z mw_world_scheme \<Rightarrow> 'z mw_world_scheme \<Rightarrow> bool" where
  "request_kept W W' \<longleftrightarrow> gw_heap (hw_gw W') = gw_heap (hw_gw W) \<and> lb_Backends (gw_lb (hw_gw W')) = lb_Backends (gw_lb (hw_gw W)) \<and>
     ActiveRequests (hw_proxy W') = ActiveRequests (hw_proxy W) \<and>
     (table_ok (hp_breakers (hw_proxy W)) \<longrightarrow> table_ok (hp_breakers (hw_proxy W')))"

interpretation kept: world_relation request_kept
  by unfold_locales (simp_all add: request_kept_def)

interpretation limiter_used: world_relation "\<lambda>W W'. gw_limiter (hw_gw W') = f (gw_limiter (hw_gw W))" for f
  by unfold_locales simp_all

lemma ServeHTTP_kept:
  assumes "http_ServeHTTP env c = (panics, c')"
  shows "request_kept (cf_world c) (cf_world c')" and "gw_limiter (world_gw c') = gw_limiter (world_gw c)"
proof -
  obtain c1 where body: "http_body env (c\<lparr>cf_world := add_active 1 (cf_world c)\<rparr>) = (panics, c1)"
    and c': "c' = c1\<lparr>cf_world := add_active (- 1) (cf_world c1)\<rparr>"
    using assms by (auto simp: http_ServeHTTP_def split: prod.splits)
  have members: "lb_Backends lb = lb_Backends (gw_lb (world_gw c))" if "lb_Next (gw_heap (world_gw c)) (gw_lb (world_gw c)) = (r, lb)" for r lb
    using lb.next_members [of "gw_heap (world_gw c)" "gw_lb (world_gw c)"] that by simp
  from body have "request_kept (cf_world c) (cf_world c') \<and> gw_limiter (world_gw c') = gw_limiter (world_gw c)"
  proof (cases rule: http_body_cases)
    case (unavailable e lb)
    then show ?thesis using members by (auto simp: c' request_kept_def ActiveRequests_def)
  next
    case (denied b lb e t)
    then show ?thesis using members table_rejected by (auto simp: c' request_kept_def ActiveRequests_def)
  next
    case (failed b lb t err)
    then show ?thesis using members table_settled by (auto simp: c' request_kept_def ActiveRequests_def)
  next
    case (answered b lb t resp)
    then show ?thesis using members table_settled respond_frame [OF answered(4)] by (auto simp: c' request_kept_def ActiveRequests_def)
  qed
  then show "request_kept (cf_world c) (cf_world c')" "gw_limiter (world_gw c') = gw_limiter (world_gw c)" by auto
qed

lemma l7_chain:
  "l7_handler l limited env =
    Recovery l (Tracing (l7_rnd env) (l7_trace env) l (Metrics_mw (l7_metricsStart env) (l7_metricsEnd env)
      (if limited then RateLimit (l7_rnd env) (l7_limit env) (Headers (http_ServeHTTP (l7_proxy env))) else Headers (http_ServeHTTP (l7_proxy env)))))"
  by (simp add: l7_handler_def)

lemma l7_kept:
  fixes c :: "('z mw_world_scheme, 'y obs_ctx_ext) conf"
  shows "request_kept (cf_world c) (cf_world (snd (l7_handler l limited env c)))"
proof -
  have headers: "request_kept (cf_world c) (cf_world (snd (Headers (http_ServeHTTP (l7_proxy env)) c)))" for c :: "('z mw_world_scheme, 'y obs_ctx_ext) conf"
    by (rule kept.Headers_carries) (metis ServeHTTP_kept(1) prod.collapse)
  have "request_kept (cf_world c) (cf_world (snd (RateLimit rnd now (Headers (http_ServeHTTP (l7_proxy env))) c)))" for rnd now and c :: "('z mw_world_scheme, 'y obs_ctx_ext) conf"
    using headers [of "on_gw (\<lambda>g. g\<lparr>gw_limiter := tb\<rparr>) c" for tb]
    by (auto simp: RateLimit_def on_gw_def request_kept_def Let_def split: prod.splits)
  then show ?thesis unfolding l7_chain using headers
    by (intro kept.Recovery_carries kept.Tracing_carries kept.Metrics_carries) (simp split: if_split)
qed

lemma l7_limiter:
  fixes c :: "('z mw_world_scheme, 'y obs_ctx_ext) conf"
  shows "gw_limiter (world_gw (snd (l7_handler l limited env c))) =
    (if limited then snd (tb_Allow (l7_rnd env) (l7_limit env) (gw_limiter (world_gw c))) else gw_limiter (world_gw c))"
proof -
  have headers: "gw_limiter (world_gw (snd (Headers (http_ServeHTTP (l7_proxy env)) c))) = gw_limiter (world_gw c)"
    for c :: "('z mw_world_scheme, 'y obs_ctx_ext) conf"
    by (rule limiter_used.Headers_carries [where f = id, unfolded id_apply]) (metis ServeHTTP_kept(2) prod.collapse)
  let ?f = "\<lambda>tb. if limited then snd (tb_Allow (l7_rnd env) (l7_limit env) tb) else tb"
  have "gw_limiter (world_gw (snd ((if limited then RateLimit (l7_rnd env) (l7_limit env) (Headers (http_ServeHTTP (l7_proxy env)))
      else Headers (http_ServeHTTP (l7_proxy env))) c))) = ?f (gw_limiter (world_gw c))" for c :: "('z mw_world_scheme, 'y obs_ctx_ext) conf"
    using headers by (auto simp: RateLimit_def on_gw_def Let_def split: prod.splits)
  then show ?thesis unfolding l7_chain
    by (intro limiter_used.Recovery_carries [where f = ?f] limiter_used.Tracing_carries [where f = ?f] limiter_used.Metrics_carries [where f = ?f])
qed

section \<open>The invariant of a gateway in service\<close>

definition idle_heap :: "heap \<Rightarrow> bool" where
  "idle_heap h \<longleftrightarrow> pools_idle h \<and> (\<forall>b. b_ActiveConnections h b = 0)"

text \<open>Between events: checker and balancer have the same backends, nothing is open and nothing counted as open, the counters of all breakers of
  both proxies add up, and the registry is within its invariant.\<close>

definition service_inv :: "sluice \<Rightarrow> bool" where
  "service_inv s \<longleftrightarrow> checked s = lb_Backends (gw_lb (sl_gw s)) \<and> idle_heap (gw_heap (sl_gw s)) \<and>
     ActiveConnections (sl_tcp s) = 0 \<and> tp_connWg (sl_tcp s) = 0 \<and> table_ok (tp_breakers (sl_tcp s)) \<and> tp_rateLimiter (sl_tcp s) = rate_limited s \<and>
     (case sl_http s of None \<Rightarrow> True | Some hp \<Rightarrow> ActiveRequests hp = 0 \<and> table_ok (hp_breakers hp)) \<and>
     (case sl_registry s of None \<Rightarrow> True | Some reg \<Rightarrow> reg_inv reg)"

lemma body_table:
  assumes "tcp_body env (p, g, cl) = Some (out, p', g', cl')" and "table_ok (tp_breakers p)"
  shows "table_ok (tp_breakers p')"
  using assms(1)
proof (cases rule: tcp_body_cases)
  case (forwarded tb lb b t c h)
  then show ?thesis using forward_Some(1) [OF forwarded(4)] table_settled [OF assms(2)] by simp
qed (use assms(2) table_rejected table_settled in auto)

lemma connection_table:
  assumes "handleConnection env (accept_conn p, g, cl) = Some (out, p', g', cl')" and "table_ok (tp_breakers p)"
  shows "table_ok (tp_breakers p')"
  by (rule handle_Some [OF assms(1)]) (use assms(2) body_table in \<open>fastforce simp: accept_conn_def\<close>)

lemma serve_connection:
  assumes "service_inv s" and "in_order s (Connection env cl)"
  shows "service_inv (serve l s (Connection env cl))"
proof -
  obtain out p g cl' where run: "handleConnection env (accept_conn (sl_tcp s), sl_gw s, cl) = Some (out, p, g, cl')"
    using assms(2) by auto
  have idle: "pools_idle (gw_heap (sl_gw s))" using assms(1) by (simp add: service_inv_def idle_heap_def)
  note frame = connection_frame [OF run idle]
  obtain t where p: "p = (sl_tcp s)\<lparr>tp_breakers := t\<rparr>" using frame(5) by blast
  have "table_ok t" using connection_table [OF run] assms(1) by (simp add: p service_inv_def)
  then show ?thesis using assms(1) frame(1,3,4)
    by (simp add: run service_inv_def idle_heap_def kept_backends_def checked_def rate_limited_def ActiveConnections_def p)
qed

lemma serve_request:
  assumes "service_inv s"
  shows "service_inv (serve l s (Request env w r))"
proof (cases "sl_http s")
  case (Some hp)
  have "request_kept (cf_world (l7_conf hp (sl_gw s) w r)) (cf_world (snd (l7_handler l (rate_limited s) env (l7_conf hp (sl_gw s) w r))))"
    by (rule l7_kept)
  then show ?thesis using assms Some
    by (auto simp: l7_conf_def request_kept_def service_inv_def idle_heap_def checked_def rate_limited_def Let_def)
qed (use assms in simp)

lemma check_frame:
  "h_pools (snd (fold (\<lambda>b. checkOne (n b) (e b) b) bs s)) = h_pools (snd s) \<and>
   b_ActiveConnections (snd (fold (\<lambda>b. checkOne (n b) (e b) b) bs s)) = b_ActiveConnections (snd s) \<and>
   hc_backends (fst (fold (\<lambda>b. checkOne (n b) (e b) b) bs s)) = hc_backends (fst s)"
proof (induction bs arbitrary: s)
  case (Cons b bs)
  have "h_pools (snd (checkOne (n b) (e b) b s)) = h_pools (snd s)"
    "b_ActiveConnections (snd (checkOne (n b) (e b) b s)) = b_ActiveConnections (snd s)"
    "hc_backends (fst (checkOne (n b) (e b) b s)) = hc_backends (fst s)"
    by (cases s; simp add: checkOne_def Let_def b_SetHealthy_def b_ActiveConnections_def fun_eq_iff)+
  then show ?case using Cons.IH [of "checkOne (n b) (e b) b s"] by simp
qed simp

lemma serve_round:
  assumes "service_inv s"
  shows "service_inv (serve l s (HealthRound rd))"
proof -
  obtain c h where run: "checkAll rd (sl_checker s, gw_heap (sl_gw s)) = (c, h)" by force
  then show ?thesis
    using assms check_frame [of "rd_now rd" "rd_probe rd" "rd_order rd" "(sl_checker s, gw_heap (sl_gw s))"]
    by (simp add: checkAll_def service_inv_def idle_heap_def pools_idle_def checked_def rate_limited_def)
qed

lemma build_all_idle:
  "build_all t vs h = (bs, h') \<Longrightarrow> idle_heap h \<Longrightarrow> \<forall>v \<in> set vs. b_activeConns v = 0 \<Longrightarrow> idle_heap h'"
proof (induction vs arbitrary: h bs)
  case (Cons v vs)
  obtain b h1 bs1 where new: "new_pooled t v h = (b, h1)" and rest: "build_all t vs h1 = (bs1, h')"
    using Cons.prems(1) by (auto split: prod.splits)
  have "idle_heap h1"
    using new Cons.prems(2,3)
    by (auto simp: new_pooled_def alloc_backend_def b_EnablePooling_def newConnPool_def idle_heap_def pools_idle_def b_ActiveConnections_def Let_def
        split: option.splits)
  then show ?case using Cons.IH [OF rest] Cons.prems(3) by simp
qed simp

lemma new_backends_idle: "b_activeConns (backend_of bc) = 0" "b_activeConns (service_backend svc) = 0"
  by (simp_all add: backend_of_def service_backend_def NewBackend_def NewBackendWithWeight_def Let_def)

lemma buildBackends_idle: "buildBackends cfg h = (bs, h') \<Longrightarrow> idle_heap h \<Longrightarrow> idle_heap h'"
  unfolding buildBackends_def by (erule build_all_idle) (simp_all add: new_backends_idle)

lemma buildFromRegistry_idle:
  assumes "buildBackendsFromRegistry order reg cfg h = (bs, h')" and "idle_heap h"
  shows "idle_heap h'"
proof -
  obtain bs1 h1 bs2 where "buildBackends cfg h = (bs1, h1)"
    and 2: "build_all (s_TCPPool (Server cfg)) (map service_backend (reg_List order reg)) h1 = (bs2, h')"
    using assms(1) by (auto simp: buildBackendsFromRegistry_def split: prod.splits)
  then have "idle_heap h1" using assms(2) buildBackends_idle by blast
  with 2 show ?thesis by (rule build_all_idle) (simp add: new_backends_idle)
qed

lemma install_inv: "service_inv s \<Longrightarrow> idle_heap h \<Longrightarrow> service_inv (install (bs, h) s)"
  using install_eq(5,6) [of bs h s] by (simp add: service_inv_def install_def rate_limited_def Let_def)

lemma serve_inv: "service_inv s \<Longrightarrow> in_order s e \<Longrightarrow> service_inv (serve l s e)"
proof (cases e)
  case (ConfigReload cfg)
  obtain bs h where b: "buildBackends cfg (gw_heap (sl_gw s)) = (bs, h)" by force
  assume inv: "service_inv s"
  then have "service_inv (s\<lparr>sl_currentConfig := cfg\<rparr>)" by (simp add: service_inv_def checked_def rate_limited_def)
  moreover have "idle_heap h" using buildBackends_idle [OF b] inv by (simp add: service_inv_def)
  ultimately show ?thesis using b by (simp add: ConfigReload reloadBackends_def Let_def install_inv)
next
  case (RegistryCall op)
  assume "service_inv s" "in_order s e"
  then show ?thesis using reg.step_inv
    by (auto simp: RegistryCall service_inv_def checked_def rate_limited_def split: option.splits)
next
  case (RegistryNotice order)
  assume inv: "service_inv s"
  show ?thesis
  proof (cases "sl_registry s")
    case (Some reg)
    obtain bs h where b: "buildBackendsFromRegistry order reg (sl_startConfig s) (gw_heap (sl_gw s)) = (bs, h)" by force
    have "idle_heap h" using buildFromRegistry_idle [OF b] inv by (simp add: service_inv_def)
    then show ?thesis using inv b Some by (simp add: RegistryNotice registryEvent_def install_inv)
  qed (use inv in \<open>simp add: RegistryNotice registryEvent_def\<close>)
qed (use serve_connection serve_request serve_round in auto)

interpretation service: op_system "serve l" service_inv in_order for l
  by unfold_locales (rule serve_inv)

lemma no_breakers_ok: "table_ok no_breakers" "table_ok \<lparr>bk_map = Some Map.empty, bk_config = c\<rparr> \<longleftrightarrow> cb_config_ok c"
  by (simp_all add: table_ok_def no_breakers_def cb_config_ok_def all_breakers_def breaker_at_def)

lemma setup_proxy:
  "ActiveConnections (NewTCPProxy a True (proxy_options cfg)) = 0" "tp_connWg (NewTCPProxy a True (proxy_options cfg)) = 0"
  "tp_rateLimiter (NewTCPProxy a True (proxy_options cfg)) = rl_Enabled (s_RateLimit (Server cfg))"
  "cb_config_ok (breaker_config cfg) \<Longrightarrow> table_ok (tp_breakers (NewTCPProxy a True (proxy_options cfg)))"
  "ActiveRequests (NewHTTPProxy (http_options cfg)) = 0"
  "cb_config_ok (breaker_config cfg) \<Longrightarrow> table_ok (hp_breakers (NewHTTPProxy (http_options cfg)))"
  by (simp_all add: NewTCPProxy_def proxy_options_def NewHTTPProxy_def http_options_def ActiveConnections_def ActiveRequests_def no_breakers_ok Let_def)

lemma setup_inv:
  assumes "idle_heap h" and "cb_config_ok (breaker_config cfg)"
  shows "service_inv (main_setup rnd t t' cfg h)"
proof -
  obtain bs h1 where built: "buildBackends cfg h = (bs, h1)" by force
  then have "idle_heap h1" using buildBackends_idle assms(1) by blast
  then show ?thesis using built assms(2)
    by (simp add: main_setup_def service_inv_def checked_def choose_balancer_members NewChecker_def setup_proxy rate_limited_def reg_New_inv Let_def)
qed

section \<open>The accounts of a gateway in service\<close>

text \<open>C24: over every sequence of connections, requests, rounds of health checks, reloads and changes of the registry, in any order, on a
  gateway set up from a configuration: the checker checks exactly the backends that the balancer serves, no backend counts a connection
  that is over, no pool holds one, both proxies count nothing as active and the wait group is back at zero, and in
  both tables every request that a breaker admitted has been reported to it.\<close>

theorem service_accounts:
  assumes "idle_heap h" and "cb_config_ok (breaker_config cfg)" and "s0 = main_setup rnd t t' cfg h"
    and "legal_run (serve l) in_order s0 es" and "s = foldl (serve l) s0 es"
  shows "checked s = lb_Backends (gw_lb (sl_gw s)) \<and> (\<forall>b. b_ActiveConnections (gw_heap (sl_gw s)) b = 0) \<and> pools_idle (gw_heap (sl_gw s)) \<and>
    ActiveConnections (sl_tcp s) = 0 \<and> tp_connWg (sl_tcp s) = 0 \<and> all_breakers cb_balanced (tp_breakers (sl_tcp s)) \<and>
    (\<forall>hp. sl_http s = Some hp \<longrightarrow> ActiveRequests hp = 0 \<and> all_breakers cb_balanced (hp_breakers hp))"
proof -
  have "service_inv s0" unfolding assms(3) using assms(1,2) by (rule setup_inv)
  then have "service_inv s" unfolding assms(5) using assms(4) by (rule service.run_inv)
  then show ?thesis by (auto simp: service_inv_def idle_heap_def table_ok_def)
qed

section \<open>One limiter for two listeners\<close>

fun limiter_calls :: "sluice \<Rightarrow> gw_event \<Rightarrow> tb_op list" where
  "limiter_calls s (Connection env cl) = (if rate_limited s then [TbAllowN (ce_limit env) 1] else [])"
| "limiter_calls s (Request env w r) = (if rate_limited s \<and> sl_http s \<noteq> None then [TbAllowN (l7_limit env) 1] else [])"
| "limiter_calls s _ = []"

text \<open>A request that the gateway acts on: its client is not answered 429, or what a backend would say to it makes a difference, to the answer or to
  anything else.\<close>

definition passed :: "logger \<Rightarrow> bool \<Rightarrow> unit obs_ctx_ext l7_env \<Rightarrow> (mw_world, unit obs_ctx_ext) conf \<Rightarrow> bool" where
  "passed l limited env c \<longleftrightarrow> w_status (cf_w (snd (l7_handler l limited env c))) \<noteq> Some 429 \<or>
     (\<exists>f. l7_handler l limited (env\<lparr>l7_proxy := (l7_proxy env)\<lparr>he_RoundTrip := f\<rparr>\<rparr>) c \<noteq> l7_handler l limited env c)"

text \<open>The events that are let in: a connection whose handler does not end in its refusal, a request that the gateway acts on.\<close>

fun let_in :: "logger \<Rightarrow> sluice \<Rightarrow> gw_event \<Rightarrow> int" where
  "let_in l s (Connection env cl) =
     (case handleConnection env (accept_conn (sl_tcp s), sl_gw s, cl) of
        Some (out, _) \<Rightarrow> if out = RateLimited then 0 else 1
      | None \<Rightarrow> 0)"
| "let_in l s (Request env w r) =
     (case sl_http s of
        None \<Rightarrow> 0
      | Some hp \<Rightarrow> if passed l (rate_limited s) env (l7_conf hp (sl_gw s) w r) then 1 else 0)"
| "let_in l s _ = 0"

fun total_in :: "logger \<Rightarrow> sluice \<Rightarrow> gw_event list \<Rightarrow> int" where
  "total_in l s [] = 0"
| "total_in l s (e # es) = let_in l s e + total_in l (serve l s e) es"

text \<open>A request that the limiter refuses is answered 429, and nothing beyond the limiter is asked.\<close>

definition refusing :: "(rat \<Rightarrow> rat) \<Rightarrow> go_time \<Rightarrow> gateway \<Rightarrow> bool" where
  "refusing rnd now g \<longleftrightarrow> \<not> fst (tb_Allow rnd now (gw_limiter g))"

interpretation refused: gateway_condition "refusing rnd now" for rnd now
  by unfold_locales (simp add: refusing_def)

lemma RateLimit_refuses:
  fixes f g :: "('z http_world_scheme, 'x) handler"
  shows "agree (refusing rnd now) (RateLimit rnd now f) (RateLimit rnd now g)" and "replies (refusing rnd now) 429 (RateLimit rnd now f)"
proof -
  show "agree (refusing rnd now) (RateLimit rnd now f) (RateLimit rnd now g)"
    by (auto simp: agree_def refusing_def RateLimit_def Let_def split: prod.splits)
  show "replies (refusing rnd now) 429 (RateLimit rnd now f)"
    unfolding replies_def
  proof (intro allI impI)
    fix c :: "('z http_world_scheme, 'x) conf"
    assume "refusing rnd now (world_gw c)" and w: "fresh_writer (cf_w c)"
    have "fresh_writer ((cf_w c)\<lparr>w_Header := hdr\<rparr>)" for hdr using w by (simp add: fresh_writer_def)
    then show "\<exists>c'. RateLimit rnd now f c = (False, c') \<and> w_status (cf_w c') = Some 429"
      using \<open>refusing rnd now (world_gw c)\<close> http_Error_fresh
      by (auto simp: refusing_def RateLimit_def on_gw_def Let_def bodyAllowedForStatus_def split: prod.splits)
  qed
qed

lemma refused_not_passed:
  assumes "refusing (l7_rnd env) (l7_limit env) (world_gw c)" and "fresh_writer (cf_w c)"
  shows "\<not> passed l True env c"
proof -
  have "replies (refusing (l7_rnd env) (l7_limit env)) 429 (l7_handler l True env)"
    unfolding l7_chain if_True by (intro refused.Recovery_replies refused.Tracing_replies refused.Metrics_replies RateLimit_refuses)
  moreover have "agree (refusing (l7_rnd env) (l7_limit env)) (l7_handler l True (env\<lparr>l7_proxy := (l7_proxy env)\<lparr>he_RoundTrip := f\<rparr>\<rparr>)) (l7_handler l True env)" for f
    unfolding l7_chain if_True by (simp, intro refused.Recovery_agree refused.Tracing_agree refused.Metrics_agree RateLimit_refuses)
  ultimately show ?thesis using assms unfolding passed_def agree_def replies_def by fastforce
qed

text \<open>The server hands a fresh writer to the handler, the clock of the limiter does not run backwards, and all of the program computes with the same floating-point arithmetic.\<close>

fun on_time :: "(rat \<Rightarrow> rat) \<Rightarrow> sluice \<Rightarrow> gw_event \<Rightarrow> bool" where
  "on_time rnd s (Connection env cl) \<longleftrightarrow> in_order s (Connection env cl) \<and> ce_rnd env = rnd \<and> tb_lastFill (gw_limiter (sl_gw s)) \<le> ce_limit env"
| "on_time rnd s (Request env w r) \<longleftrightarrow> fresh_writer w \<and> l7_rnd env = rnd \<and> tb_lastFill (gw_limiter (sl_gw s)) \<le> l7_limit env"
| "on_time rnd s e \<longleftrightarrow> in_order s e"

lemma on_time_in_order: "on_time rnd s e \<Longrightarrow> in_order s e"
  by (cases e) simp_all

lemma serve_limited: "service_inv s \<Longrightarrow> in_order s e \<Longrightarrow> rate_limited (serve l s e) = rate_limited s"
  by (cases e) (auto simp: rate_limited_def reloadBackends_def registryEvent_def install_def Let_def split: option.splits prod.splits)

lemma event_limiter:
  assumes "service_inv s" and "on_time rnd s e" and "rate_limited s"
  shows "gw_limiter (sl_gw (serve l s e)) = foldl (tb_step rnd) (gw_limiter (sl_gw s)) (limiter_calls s e)"
    and "let_in l s e \<le> tb_granted rnd (gw_limiter (sl_gw s)) (limiter_calls s e)"
    and "legal_run (tb_step rnd) tb_metered (gw_limiter (sl_gw s)) (limiter_calls s e)"
    and "length (limiter_calls s e) \<le> 1"
proof -
  have l4: "gw_limiter (sl_gw (serve l s e)) = foldl (tb_step rnd) (gw_limiter (sl_gw s)) (limiter_calls s e) \<and>
      let_in l s e \<le> tb_granted rnd (gw_limiter (sl_gw s)) (limiter_calls s e)" if e: "e = Connection env cl" for env cl
  proof -
    obtain out p g cl' where run: "handleConnection env (accept_conn (sl_tcp s), sl_gw s, cl) = Some (out, p, g, cl')"
      using assms(2) e by auto
    have "pools_idle (gw_heap (sl_gw s))" "tp_rateLimiter (sl_tcp s)" using assms(1,3) by (simp_all add: service_inv_def idle_heap_def)
    then show ?thesis using connection_frame(6,7) [OF run] assms(2,3) by (simp add: e run tb_Allow_def)
  qed
  have l7: "gw_limiter (sl_gw (serve l s e)) = foldl (tb_step rnd) (gw_limiter (sl_gw s)) (limiter_calls s e) \<and>
      let_in l s e \<le> tb_granted rnd (gw_limiter (sl_gw s)) (limiter_calls s e)" if e: "e = Request env w r" for env w r
    using assms(2,3) l7_limiter [of l "rate_limited s" env "l7_conf hp (sl_gw s) w r" for hp]
      refused_not_passed [of env "l7_conf hp (sl_gw s) w r" l for hp]
    by (auto simp: e tb_Allow_def l7_conf_def refusing_def Let_def split: option.splits)
  show "gw_limiter (sl_gw (serve l s e)) = foldl (tb_step rnd) (gw_limiter (sl_gw s)) (limiter_calls s e)"
    "let_in l s e \<le> tb_granted rnd (gw_limiter (sl_gw s)) (limiter_calls s e)"
    using l4 l7
    by (cases e; auto simp: reloadBackends_def registryEvent_def install_def Let_def split: option.splits prod.splits)+
  show "legal_run (tb_step rnd) tb_metered (gw_limiter (sl_gw s)) (limiter_calls s e)" using assms(2) by (cases e) auto
  show "length (limiter_calls s e) \<le> 1" by (cases e) auto
qed

lemma tb_granted_append: "tb_granted rnd tb (xs @ ys) = tb_granted rnd tb xs + tb_granted rnd (foldl (tb_step rnd) tb xs) ys"
  by (induction xs arbitrary: tb) simp_all

lemma run_limiter:
  assumes "service_inv s" and "rate_limited s" and "legal_run (serve l) (on_time rnd) s es"
  shows "\<exists>ops. length ops \<le> length es \<and> gw_limiter (sl_gw (foldl (serve l) s es)) = foldl (tb_step rnd) (gw_limiter (sl_gw s)) ops \<and>
    total_in l s es \<le> tb_granted rnd (gw_limiter (sl_gw s)) ops \<and> legal_run (tb_step rnd) tb_metered (gw_limiter (sl_gw s)) ops"
  using assms
proof (induction es arbitrary: s)
  case Nil
  then show ?case by (intro exI [of _ "[]"]) simp
next
  case (Cons e es)
  let ?tb = "gw_limiter (sl_gw s)"
  have e: "on_time rnd s e" and rest: "legal_run (serve l) (on_time rnd) (serve l s e) es" using Cons.prems(3) by simp_all
  have "service_inv (serve l s e)" using Cons.prems(1) on_time_in_order [OF e] by (rule serve_inv)
  moreover have "rate_limited (serve l s e)" using serve_limited [OF Cons.prems(1) on_time_in_order [OF e]] Cons.prems(2) by simp
  ultimately obtain ops where ops: "length ops \<le> length es"
      "gw_limiter (sl_gw (foldl (serve l) (serve l s e) es)) = foldl (tb_step rnd) (gw_limiter (sl_gw (serve l s e))) ops"
      "total_in l (serve l s e) es \<le> tb_granted rnd (gw_limiter (sl_gw (serve l s e))) ops"
      "legal_run (tb_step rnd) tb_metered (gw_limiter (sl_gw (serve l s e))) ops"
    using Cons.IH rest by blast
  note one = event_limiter(1,2) [OF Cons.prems(1) e Cons.prems(2), of l] event_limiter(3,4) [OF Cons.prems(1) e Cons.prems(2)]
  show ?case
    using ops one by (intro exI [of _ "limiter_calls s e @ ops"]) (simp add: tb_granted_append legal_run_append)
qed

text \<open>C15: the rate limit holds for the gateway as a whole: over any run, with health checks, reloads and registry changes in between, the connections that
  are not refused and the requests that are not answered 429, or to which the answer of a backend would make any difference, are on both listeners
  together at most the configured burst plus what the configured rate accrues over the elapsed time, up to a rounding error for each event.\<close>

theorem gateway_rate_limit:
  assumes "float_rounding u rnd" and "rl_Enabled (s_RateLimit (Server cfg))"
    and "0 < rl_Rate (s_RateLimit (Server cfg))" and "0 < rl_Burst (s_RateLimit (Server cfg))" and "rl_Burst (s_RateLimit (Server cfg)) \<le> 2 ^ 53"
    and "idle_heap h" and "cb_config_ok (breaker_config cfg)" and "s0 = main_setup rnd t t0 cfg h"
    and "legal_run (serve l) (on_time rnd) s0 es"
  shows "of_int (total_in l s0 es) \<le> of_int (rl_Burst (s_RateLimit (Server cfg)))
    + tb_accrual u (rl_Rate (s_RateLimit (Server cfg))) (tb_lastFill (gw_limiter (sl_gw (foldl (serve l) s0 es))) - t0)
    + of_nat (length es) * tb_slack u (rl_Rate (s_RateLimit (Server cfg))) (of_int (rl_Burst (s_RateLimit (Server cfg))))"
proof -
  let ?rate = "rl_Rate (s_RateLimit (Server cfg))" and ?burst = "rl_Burst (s_RateLimit (Server cfg))"
  let ?tb = "NewTokenBucket rnd ?rate ?burst t0"
  have s0: "gw_limiter (sl_gw s0) = ?tb" "rate_limited s0"
    using assms(2) by (simp_all add: assms(8) main_setup_def rate_limited_def Let_def case_prod_unfold)
  have "service_inv s0" unfolding assms(8) using assms(6,7) by (rule setup_inv)
  from run_limiter [OF this s0(2) assms(9)] obtain ops where ops: "length ops \<le> length es"
      "gw_limiter (sl_gw (foldl (serve l) s0 es)) = foldl (tb_step rnd) ?tb ops"
      "total_in l s0 es \<le> tb_granted rnd ?tb ops" "legal_run (tb_step rnd) tb_metered ?tb ops"
    unfolding s0(1) by blast
  have "rnd (of_int ?burst) = of_int ?burst" using assms(1,4,5) by (simp add: float_rounding_def)
  then have new: "tb_rate ?tb = ?rate" "tb_capacity ?tb = of_int ?burst" "tb_tokens ?tb = of_int ?burst" "tb_lastFill ?tb = t0"
    using assms(3,4) by (simp_all add: NewTokenBucket_def Let_def)
  have "0 \<le> tb_slack u ?rate (of_int ?burst)" using assms(1,3,4) by (simp add: tb_slack_def float_rounding_def)
  then have "of_nat (length ops) * tb_slack u ?rate (of_int ?burst) \<le> of_nat (length es) * tb_slack u ?rate (of_int ?burst)"
    using ops(1) by (intro mult_right_mono) simp_all
  moreover have "of_int (tb_granted rnd ?tb ops) \<le> of_int ?burst
      + tb_accrual u ?rate (tb_lastFill (foldl (tb_step rnd) ?tb ops) - t0) + of_nat (length ops) * tb_slack u ?rate (of_int ?burst)"
    using tb_granted_bound [OF assms(1) NewTokenBucket_inv [OF assms(1)] ops(4)] by (simp only: new)
  moreover have "(of_int (total_in l s0 es) :: rat) \<le> of_int (tb_granted rnd ?tb ops)" using ops(3) by simp
  ultimately show ?thesis by (simp add: ops(2))
qed

section \<open>A backend that fails its checks\<close>

text \<open>Events that do not replace the list of backends, and what the rounds among them found of a backend.\<close>

fun keeps_backends :: "gw_event \<Rightarrow> bool" where
  "keeps_backends (ConfigReload cfg) = False"
| "keeps_backends (RegistryNotice order) = False"
| "keeps_backends _ = True"

fun results_of :: "backend_ref \<Rightarrow> gw_event list \<Rightarrow> bool list" where
  "results_of b [] = []"
| "results_of b (HealthRound rd # es) = (rd_probe rd b \<noteq> None) # results_of b es"
| "results_of b (_ # es) = results_of b es"

lemma results_of_append: "results_of b (es @ fs) = results_of b es @ results_of b fs"
  by (induction b es rule: results_of.induct) simp_all

text \<open>The checker has counted the last failures of the backend, and has acted on them.\<close>

definition watched :: "backend_ref list \<Rightarrow> (backend_ref \<Rightarrow> string) \<Rightarrow> int \<Rightarrow> backend_ref \<Rightarrow> bool list \<Rightarrow> sluice \<Rightarrow> bool" where
  "watched bs addr threshold b fs s \<longleftrightarrow> service_inv s \<and> checked s = bs \<and> b_Addr (gw_heap (sl_gw s)) = addr \<and>
     hc_UnhealthyThreshold (hc_config (sl_checker s)) = threshold \<and>
     count_of (failureCount (sl_checker s)) (addr b) = int (trailing_failures fs) \<and>
     (b_IsHealthy (gw_heap (sl_gw s)) b \<longleftrightarrow> int (trailing_failures fs) < threshold)"

lemma watched_round:
  assumes "watched bs addr threshold b fs s" and "distinct bs" and "inj_on addr (set bs)" and "b \<in> set bs" and "0 < threshold"
    and "in_order s (HealthRound rd)"
  shows "watched bs addr threshold b (fs @ [rd_probe rd b \<noteq> None]) (serve l s (HealthRound rd))"
proof -
  let ?st = "(sl_checker s, gw_heap (sl_gw s))"
  obtain c h where run: "checkAll rd ?st = (c, h)" by force
  have "mset (rd_order rd) = mset bs" using assms(1,6) by (simp add: watched_def)
  then have order: "distinct (rd_order rd)" "b \<in> set (rd_order rd)" "inj_on (b_Addr (snd ?st)) (set (rd_order rd))"
    using assms(1-4) mset_eq_imp_distinct_iff [of "rd_order rd" bs] mset_eq_setD [of "rd_order rd" bs] by (auto simp: watched_def)
  have ch: "(c, h) = fold (\<lambda>b. checkOne (rd_now rd b) (rd_probe rd b) b) (rd_order rd) ?st" using run by (simp add: checkAll_def)
  note step = round_step [OF order ch]
  have "b_Addr h = addr" using fold_checks_Addr [of "rd_now rd" "rd_probe rd" "rd_order rd" ?st] assms(1) by (simp add: watched_def flip: ch)
  moreover have "hc_backends c = hc_backends (sl_checker s)"
    using check_frame [of "rd_now rd" "rd_probe rd" "rd_order rd" ?st] by (simp flip: ch)
  moreover have "service_inv (serve l s (HealthRound rd))" using assms(1) serve_round by (simp add: watched_def)
  ultimately show ?thesis
    using step assms(1,5) run by (auto simp: watched_def checked_def trailing_failures_snoc)
qed

lemma watched_step:
  assumes "watched bs addr threshold b fs s" and "distinct bs" and "inj_on addr (set bs)" and "b \<in> set bs" and "0 < threshold"
    and "in_order s e" and "keeps_backends e"
  shows "watched bs addr threshold b (fs @ results_of b [e]) (serve l s e)"
proof -
  have inv: "service_inv s" "service_inv (serve l s e)" using assms(1,6) serve_inv by (auto simp: watched_def)
  show ?thesis
  proof (cases e)
    case (Connection env cl)
    then obtain out p g cl' where run: "handleConnection env (accept_conn (sl_tcp s), sl_gw s, cl) = Some (out, p, g, cl')"
      using assms(6) by auto
    have "kept_backends (sl_gw s) g" using connection_frame(1) [OF run] inv(1) by (simp add: service_inv_def idle_heap_def)
    then show ?thesis using assms(1) inv(2) by (simp add: Connection run watched_def kept_backends_def checked_def)
  next
    case (Request env w r)
    have "gw_heap (hw_gw (cf_world (snd (l7_handler l (rate_limited s) env (l7_conf hp (sl_gw s) w r))))) = gw_heap (sl_gw s)" for hp
      using l7_kept [of "l7_conf hp (sl_gw s) w r" l "rate_limited s" env] by (simp add: request_kept_def l7_conf_def)
    then show ?thesis using assms(1) inv(2) by (auto simp: Request watched_def checked_def Let_def split: option.splits)
  next
    case (HealthRound rd)
    then show ?thesis using watched_round [OF assms(1-5)] assms(6) by simp
  next
    case (RegistryCall op)
    then show ?thesis using assms(1) inv(2) by (simp add: watched_def checked_def)
  qed (use assms(7) in simp_all)
qed

lemma watched_run:
  assumes "watched bs addr threshold b fs s" and "distinct bs" and "inj_on addr (set bs)" and "b \<in> set bs" and "0 < threshold"
    and "legal_run (serve l) in_order s es" and "list_all keeps_backends es"
  shows "watched bs addr threshold b (fs @ results_of b es) (foldl (serve l) s es)"
  using assms(1,6,7)
proof (induction es arbitrary: s fs)
  case (Cons e es)
  have "watched bs addr threshold b (fs @ results_of b [e]) (serve l s e)"
    using watched_step [OF Cons.prems(1) assms(2-5)] Cons.prems(2,3) by simp
  then show ?case using Cons.IH Cons.prems(2,3) results_of_append [of b "[e]" es] by fastforce
qed simp

text \<open>A handler deeper in the chain may be replaced by one that does the same while the backends and the balancer are as they are now.\<close>

definition choice_at :: "heap \<Rightarrow> LoadBalancer \<Rightarrow> gateway \<Rightarrow> bool" where
  "choice_at h lb g \<longleftrightarrow> gw_heap g = h \<and> gw_lb g = lb"

interpretation choice: gateway_condition "choice_at h lb" for h lb
  by unfold_locales (simp add: choice_at_def)

lemma RateLimit_agree: "agree (choice_at h lb) f g \<Longrightarrow> agree (choice_at h lb) (RateLimit rnd now f) (RateLimit rnd now g)"
  by (simp add: agree_def choice_at_def RateLimit_def on_gw_def Let_def split: prod.splits)

text \<open>The proxy asks the transport for the selected address only.\<close>

lemma ServeHTTP_agree:
  fixes env :: "'x http_env"
  assumes "\<And>b. fst (lb_Next h lb) = Inr b \<Longrightarrow> b_Addr h b \<noteq> addr" and "\<And>out. o_URLHost out \<noteq> addr \<Longrightarrow> f out = he_RoundTrip env out"
  shows "agree (choice_at h lb) (http_ServeHTTP (env\<lparr>he_RoundTrip := f\<rparr>)) (http_ServeHTTP env :: ('z http_world_scheme, 'x) handler)"
proof -
  have "http_body (env\<lparr>he_RoundTrip := f\<rparr>) c = http_body env c" if "gw_heap (world_gw c) = h" "gw_lb (world_gw c) = lb" for c :: "('z http_world_scheme, 'x) conf"
  proof (cases "fst (lb_Next h lb)")
    case (Inr b)
    have "f (cloneRequest (cf_r c) (b_Addr h b)) = he_RoundTrip env (cloneRequest (cf_r c) (b_Addr h b))"
      by (rule assms(2)) (use assms(1) [OF Inr] in \<open>simp add: cloneRequest_def\<close>)
    moreover have "http_respond (env\<lparr>he_RoundTrip := f\<rparr>) = (http_respond env :: string \<Rightarrow> response \<Rightarrow> ('z http_world_scheme, 'x) handler)"
      by (simp add: http_respond_def fun_eq_iff Let_def case_prod_unfold)
    ultimately show ?thesis using Inr that by (simp add: http_body_def Let_def case_prod_unfold split: sum.split)
  qed (use that in \<open>simp add: http_body_def Let_def case_prod_unfold\<close>)
  then show ?thesis by (simp add: agree_def choice_at_def http_ServeHTTP_def)
qed

lemma l7_agree:
  assumes "\<And>b. fst (lb_Next h lb) = Inr b \<Longrightarrow> b_Addr h b \<noteq> addr" and "\<And>out. o_URLHost out \<noteq> addr \<Longrightarrow> f out = he_RoundTrip (l7_proxy env) out"
  shows "agree (choice_at h lb) (l7_handler l limited (env\<lparr>l7_proxy := (l7_proxy env)\<lparr>he_RoundTrip := f\<rparr>\<rparr>)) (l7_handler l limited env)"
  unfolding l7_chain
  using choice.Headers_agree [OF ServeHTTP_agree [OF assms]] RateLimit_agree [OF choice.Headers_agree [OF ServeHTTP_agree [OF assms]]]
  by (auto intro!: choice.Recovery_agree choice.Tracing_agree choice.Metrics_agree)

lemma setup_watched:
  assumes "idle_heap h" and "cb_config_ok (breaker_config cfg)" and "s0 = main_setup rnd t t' cfg h"
    and "distinct (map bc_Addr (s_Backends (Server cfg)))" and "0 < h_UnhealthyThreshold (s_Health (Server cfg))" and "b \<in> set (checked s0)"
  shows "distinct (checked s0)" and "inj_on (b_Addr (gw_heap (sl_gw s0))) (set (checked s0))"
    and "watched (checked s0) (b_Addr (gw_heap (sl_gw s0))) (h_UnhealthyThreshold (s_Health (Server cfg))) b [] s0"
proof -
  obtain bs h1 where built: "buildBackends cfg h = (bs, h1)" by force
  have s0: "gw_heap (sl_gw s0) = h1" "checked s0 = bs" "sl_checker s0 = NewChecker bs (checker_config cfg)"
    using built by (simp_all add: assms(3) main_setup_def checked_def NewChecker_def Let_def)
  note view = buildBackends_view [OF built]
  have addrs: "map (b_Addr h1) bs = map bc_Addr (s_Backends (Server cfg))"
    using arg_cong [OF view, of "map fst"] by (simp add: comp_def backend_view_def fresh_entry_def config_entries_def)
  then show "distinct (checked s0)" "inj_on (b_Addr (gw_heap (sl_gw s0))) (set (checked s0))"
    using assms(4) by (metis distinct_map s0(1,2))+
  have "backend_view h1 b \<in> set (map (backend_view h1) bs)" using assms(6) by (simp add: s0)
  then have "b_IsHealthy h1 b" unfolding view by (auto simp: backend_view_def fresh_entry_def)
  moreover have "service_inv s0" unfolding assms(3) using assms(1,2) by (rule setup_inv)
  ultimately show "watched (checked s0) (b_Addr (gw_heap (sl_gw s0))) (h_UnhealthyThreshold (s_Health (Server cfg))) b [] s0"
    using assms(5) by (simp add: watched_def s0 NewChecker_def checker_config_def count_of_def trailing_failures_snoc Let_def)
qed

text \<open>C13: a failing backend is isolated from the traffic. On a gateway set up with distinct addresses, after any sequence of connections, requests, registry calls
  and rounds of checks, when the last checks of a backend have failed as often as its threshold says: no connection is sent to it, and the reply to a
  request, and all that a request changes, is the same whatever the backend would answer, or would do to the requests sent there.\<close>

theorem failing_backend_isolated:
  assumes "idle_heap h" and "cb_config_ok (breaker_config cfg)" and "s0 = main_setup rnd t t' cfg h"
    and "distinct (map bc_Addr (s_Backends (Server cfg)))" and "0 < h_UnhealthyThreshold (s_Health (Server cfg))" and "b \<in> set (checked s0)"
    and "legal_run (serve l) in_order s0 es" and "list_all keeps_backends es" and "s = foldl (serve l) s0 es"
    and "h_UnhealthyThreshold (s_Health (Server cfg)) \<le> int (trailing_failures (results_of b es))"
    and "addr = b_Addr (gw_heap (sl_gw s0)) b"
  shows "(handleConnection env (accept_conn (sl_tcp s), sl_gw s, cl) = Some (out, p, g, cl') \<longrightarrow> outcome_backend out \<noteq> Some b) \<and>
    ((\<forall>out. o_URLHost out \<noteq> addr \<longrightarrow> f out = he_RoundTrip (l7_proxy l7env) out) \<longrightarrow>
      l7_handler l (rate_limited s) (l7env\<lparr>l7_proxy := (l7_proxy l7env)\<lparr>he_RoundTrip := f\<rparr>\<rparr>) (l7_conf hp (sl_gw s) w r) =
      l7_handler l (rate_limited s) l7env (l7_conf hp (sl_gw s) w r))"
proof -
  note start = setup_watched [OF assms(1-6)]
  have "watched (checked s0) (b_Addr (gw_heap (sl_gw s0))) (h_UnhealthyThreshold (s_Health (Server cfg))) b (results_of b es) s"
    using watched_run [OF start(3,1,2) assms(6,5,7,8)] by (simp add: assms(9))
  then have inv: "service_inv s" and members: "lb_Backends (gw_lb (sl_gw s)) = checked s0"
    and addr: "b_Addr (gw_heap (sl_gw s)) = b_Addr (gw_heap (sl_gw s0))" and down: "\<not> b_IsHealthy (gw_heap (sl_gw s)) b"
    using assms(10) by (auto simp: watched_def service_inv_def)
  have "outcome_backend out \<noteq> Some b" if "handleConnection env (accept_conn (sl_tcp s), sl_gw s, cl) = Some (out, p, g, cl')"
    using connection_frame(2) [OF that] inv down by (auto simp: service_inv_def idle_heap_def good_choice_def)
  moreover have "b_Addr (gw_heap (sl_gw s)) b' \<noteq> addr" if "fst (lb_Next (gw_heap (sl_gw s)) (gw_lb (sl_gw s))) = Inr b'" for b'
    using lb.next_member [OF that] down members start(2) assms(6) by (auto simp: addr assms(11) inj_on_def)
  ultimately show ?thesis
    using agreeD [OF l7_agree, of "gw_heap (sl_gw s)" "gw_lb (sl_gw s)" addr f l7env "l7_conf hp (sl_gw s) w r" l "rate_limited s"]
    by (auto simp: l7_conf_def choice_at_def)
qed

section \<open>A service that registers\<close>

lemma build_all_distinct: "build_all t vs h = (bs, h') \<Longrightarrow> distinct bs"
proof (induction vs arbitrary: h bs)
  case (Cons v vs)
  obtain b h1 bs1 where new: "new_pooled t v h = (b, h1)" and rest: "build_all t vs h1 = (bs1, h')" and bs: "bs = b # bs1"
    using Cons.prems by (auto split: prod.splits)
  have "b \<notin> set bs1" using new_pooled_eq(1,2) [OF new] build_all_eq [OF rest] by auto
  then show ?case using Cons.IH [OF rest] by (simp add: bs)
qed simp

lemma buildFromRegistry_distinct:
  assumes "buildBackendsFromRegistry order reg cfg h = (bs, h')"
  shows "distinct bs"
proof -
  obtain bs1 h1 bs2 where 1: "buildBackends cfg h = (bs1, h1)"
    and 2: "build_all (s_TCPPool (Server cfg)) (map service_backend (reg_List order reg)) h1 = (bs2, h')" and bs: "bs = bs1 @ bs2"
    using assms by (auto simp: buildBackendsFromRegistry_def split: prod.splits)
  have "set bs1 \<subseteq> {..<h_nextBackend h1}" "set bs2 \<subseteq> {h_nextBackend h1..}"
    using build_all_eq [OF 1 [unfolded buildBackends_def]] build_all_eq [OF 2] by auto
  then have "set bs1 \<inter> set bs2 = {}" by fastforce
  then show ?thesis using build_all_distinct [OF 1 [unfolded buildBackends_def]] build_all_distinct [OF 2] by (simp add: bs)
qed

text \<open>When a balancer gets to a backend: round robin within one turn, the weighted variant as often as its weight says in one cycle, least connections as
  soon as every other one is busier.\<close>

definition gets_its_share :: "heap \<Rightarrow> LoadBalancer \<Rightarrow> backend_ref \<Rightarrow> bool" where
  "gets_its_share h lb b \<longleftrightarrow>
    (case lb of
       RR rr \<Rightarrow> unat (rr_counter rr) + length (rr_backends rr) < 2 ^ 64 \<longrightarrow> Inr b \<in> set (fst (iterate_op (lb_Next h) (length (rr_backends rr)) lb))
     | WRR wrr \<Rightarrow> int (count_list (fst (iterate_op (lb_Next h) (nat (wrr_total h (wrr_Backends wrr))) lb)) (Inr b)) = b_Weight h b
     | LC lc \<Rightarrow> (\<forall>h'. conns_fit h' \<longrightarrow> b_IsHealthy h' b \<longrightarrow> (\<forall>b' \<in> set (lc_backends lc). b' \<noteq> b \<longrightarrow> b_ActiveConnections h' b < b_ActiveConnections h' b') \<longrightarrow>
                  fst (lb_Next h' lb) = Inr b))"

lemma iterate_RR: "iterate_op (lb_Next h) n (RR rr) = (let (rs, rr') = iterate_op (rr_Next h) n rr in (rs, RR rr'))"
  by (induction n arbitrary: rr) (simp_all add: Let_def case_prod_unfold)

lemma iterate_WRR: "iterate_op (lb_Next h) n (WRR wrr) = (let (rs, wrr') = iterate_op (wrr_Next h) n wrr in (rs, WRR wrr'))"
  by (induction n arbitrary: wrr) (simp_all add: Let_def case_prod_unfold)

lemma updated_share:
  assumes "distinct bs" and "\<forall>b \<in> set bs. b_IsHealthy h b \<and> 1 \<le> b_Weight h b" and "b \<in> set bs"
  shows "gets_its_share h (lb_UpdateBackends h bs lb) b"
proof (cases lb)
  case (RR rr)
  let ?rr = "rr_UpdateBackends bs rr"
  have bs: "rr_backends ?rr = bs" by (simp add: rr_UpdateBackends_def)
  have "Inr b \<in> set (fst (iterate_op (rr_Next h) (length bs) ?rr))" if "unat (rr_counter ?rr) + length bs < 2 ^ 64"
  proof -
    have "mset (fst (iterate_op (rr_Next h) (1 * length bs) ?rr)) = repeat_mset 1 (mset (map Inr bs))"
      by (rule rr_fair [OF bs]) (use assms that in auto)
    then have "set (fst (iterate_op (rr_Next h) (length bs) ?rr)) = set (map Inr bs)" by (intro mset_eq_setD) simp
    then show ?thesis using assms(3) by auto
  qed
  then show ?thesis by (simp add: gets_its_share_def RR iterate_RR bs case_prod_unfold Let_def)
next
  case (WRR wrr)
  have new: "wrr_UpdateBackends h bs wrr = NewWeightedRoundRobin h bs"
    by (simp add: wrr_UpdateBackends_def NewWeightedRoundRobin_def WeightedRoundRobin.equality)
  have members: "wrr_Backends (NewWeightedRoundRobin h bs) = bs"
    by (simp add: NewWeightedRoundRobin_def wrr_Backends_def wrap_backend_def comp_def)
  obtain k where k: "k < length bs" "b = bs ! k" using assms(3) by (auto simp: in_set_conv_nth)
  obtain rs w where run: "iterate_op (wrr_Next h) (nat (wrr_total h bs)) (NewWeightedRoundRobin h bs) = (rs, w)" by force
  have "int (count_list rs (Inr b)) = b_Weight h b" unfolding k(2)
    by (rule wrr_cycle [OF _ assms(1,2) run k(1)]) (use assms(3) in auto)
  then show ?thesis by (simp add: gets_its_share_def WRR iterate_WRR new members run)
next
  case (LC lc)
  have "fst (lb_Next h' (LC (lc_UpdateBackends bs lc))) = Inr b" if busy: "conns_fit h'" "b_IsHealthy h' b"
    "\<forall>b' \<in> set bs. b' \<noteq> b \<longrightarrow> b_ActiveConnections h' b < b_ActiveConnections h' b'" for h'
  proof -
    let ?lc = "lc_UpdateBackends bs lc"
    have bs: "lc_backends ?lc = bs" by (simp add: lc_UpdateBackends_def)
    obtain b' where sel: "lc_Next h' ?lc = Inr b'" "b' \<in> set bs"
      using lc.next_available [OF busy(1), of b ?lc] busy(2) assms(3) by (auto simp: bs)
    obtain us vs where "bs = us @ b' # vs" "\<forall>x \<in> set us. b_IsHealthy h' x \<longrightarrow> b_ActiveConnections h' b' < b_ActiveConnections h' x"
      "\<forall>x \<in> set vs. b_IsHealthy h' x \<longrightarrow> b_ActiveConnections h' b' \<le> b_ActiveConnections h' x"
      using lc_minimal [OF sel(1)] by (auto simp: bs)
    then have "b_ActiveConnections h' b' \<le> b_ActiveConnections h' b" using assms(3) busy(2) by fastforce
    then have "b' = b" using busy(3) sel(2) by fastforce
    then show ?thesis using sel(1) by simp
  qed
  then show ?thesis by (simp add: gets_its_share_def LC lc_UpdateBackends_def)
qed

text \<open>C16: registration leads to traffic. In any state that a gateway in service can reach, after a service has registered and the watcher has reacted: the balancer and the checker
  have a backend for it, with the address and the weight of the registration, healthy and idle, and the balancer gets to it: round robin within one turn, the weighted variant
  exactly as often as its weight says in each cycle, least connections as soon as the other backends are busier.\<close>

theorem registered_service_gets_traffic:
  assumes "idle_heap h" and "cb_config_ok (breaker_config cfg)" and "s0 = main_setup rnd t t' cfg h"
    and "legal_run (serve l) in_order s0 es" and "s = foldl (serve l) s0 es"
    and "sl_registry s = Some reg" and "length bytes = 4" and "reg_Register now bytes svc reg = ((panics, Inr sid), reg')"
    and "iteration_order order reg'" and "s' = foldl (serve l) s [RegistryCall (OpRegister now bytes svc), RegistryNotice order]"
  shows "\<not> panics \<and> (\<exists>b. b \<in> set (lb_Backends (gw_lb (sl_gw s'))) \<and> b \<in> set (checked s') \<and>
    backend_view (gw_heap (sl_gw s')) b = (sv_Address svc, max 1 (sv_Weight svc), True, 0) \<and> gets_its_share (gw_heap (sl_gw s')) (gw_lb (sl_gw s')) b)"
proof -
  have "service_inv s0" unfolding assms(3) using assms(1,2) by (rule setup_inv)
  then have "service_inv s" unfolding assms(5) using assms(4) by (rule service.run_inv)
  then have reg: "reg_inv reg" using assms(6) by (simp add: service_inv_def)
  then have entry: "services reg' sid = Some (reg_entry now bytes svc reg)"
    using Register_Get [OF reg assms(7,8)] by (simp add: reg_Get_def)
  let ?s1 = "s\<lparr>sl_registry := Some reg'\<rparr>"
  obtain bs h' where built: "buildBackendsFromRegistry order reg' (sl_startConfig s) (gw_heap (sl_gw s)) = (bs, h')" by force
  have s': "s' = install (bs, h') ?s1" using assms(6,8) built by (simp add: assms(10) registryEvent_def)
  have view: "map (backend_view h') bs = map fresh_entry (config_entries (sl_startConfig s) @ registry_entries order reg')"
    by (rule buildFromRegistry_view [OF built])
  have "sid \<in> set order" using entry assms(9) by (auto simp: iteration_order_def)
  then have "(sv_Address (reg_entry now bytes svc reg), max 1 (sv_Weight (reg_entry now bytes svc reg))) \<in> set (registry_entries order reg')"
    using entry by (force simp: registry_entries_def reg_List_def)
  then have "fresh_entry (sv_Address svc, max 1 (sv_Weight svc)) \<in> set (map (backend_view h') bs)"
    unfolding view by (auto simp: reg_entry_def Let_def max_def split: if_splits)
  then obtain b where b: "b \<in> set bs" "backend_view h' b = (sv_Address svc, max 1 (sv_Weight svc), True, 0)"
    by (auto simp: fresh_entry_def)
  have "\<forall>b \<in> set bs. b_IsHealthy h' b \<and> 1 \<le> b_Weight h' b"
  proof
    fix b
    assume "b \<in> set bs"
    then have "backend_view h' b \<in> set (map (backend_view h') bs)" by simp
    then show "b_IsHealthy h' b \<and> 1 \<le> b_Weight h' b"
      unfolding view by (auto simp: backend_view_def fresh_entry_def config_entries_def registry_entries_def)
  qed
  then have "gets_its_share h' (lb_UpdateBackends h' bs (gw_lb (sl_gw s))) b"
    using buildFromRegistry_distinct [OF built] b(1) by (intro updated_share)
  moreover have "\<not> panics" using reg_Register_inv [OF reg assms(7), of now svc] assms(8) by simp
  ultimately show ?thesis using b install_eq(5,6) [of bs h' ?s1] by (auto simp: s' install_def Let_def)
qed

section \<open>A gateway in service\<close>

definition service_config :: Config where
  "service_config = applyDefaults \<lparr>Server = zero_server\<lparr>s_ListenAddr := '':8080'', s_HTTPListenAddr := '':8081'',
     s_Backends := [\<lparr>bc_Addr = ''a:1'', bc_Weight = 1\<rparr>, \<lparr>bc_Addr = ''b:1'', bc_Weight = 1\<rparr>],
     s_RateLimit := \<lparr>rl_Enabled = True, rl_Rate = 100, rl_Burst = 2\<rparr>,
     s_Registry := (s_Registry zero_server)\<lparr>rc_Enabled := True\<rparr>\<rparr>\<rparr>"

abbreviation service_start :: sluice where
  "service_start \<equiv> main_setup (\<lambda>x. x) 0 0 service_config empty_heap"

abbreviation service_logger :: logger where
  "service_logger \<equiv> NewLogger DefaultLogConfig"

definition failing_round :: round where
  "failing_round = \<lparr>rd_order = [1, 0], rd_now = (\<lambda>_. 0), rd_probe = (\<lambda>b. if b = 0 then Some ErrTimeout else None)\<rparr>"

lemma service_config_sel:
  "s_Backends (Server service_config) = [\<lparr>bc_Addr = ''a:1'', bc_Weight = 1\<rparr>, \<lparr>bc_Addr = ''b:1'', bc_Weight = 1\<rparr>]"
  "s_RateLimit (Server service_config) = \<lparr>rl_Enabled = True, rl_Rate = 100, rl_Burst = 2\<rparr>"
  "rc_Enabled (s_Registry (Server service_config))" "h_UnhealthyThreshold (s_Health (Server service_config)) = 3"
  "cb_config_ok (breaker_config service_config)"
  by (simp_all add: service_config_def zero_server_def applyDefaults_def default_weights_def or_else_def default_registry_def default_rate_def default_health_def
      default_breaker_def breaker_config_def no_breakers_def cb_config_ok_def Let_def)

lemma pooling_next: "h_nextBackend (b_EnablePooling c b h) = h_nextBackend h"
  by (simp add: b_EnablePooling_def Let_def split: option.split)

lemma service_start_sel:
  "idle_heap empty_heap" "checked service_start = [0, 1]" "sl_registry service_start = Some (reg_New (registry_config service_config))"
  "tb_lastFill (gw_limiter (sl_gw service_start)) = 0"
proof -
  show "idle_heap empty_heap" by (simp add: idle_heap_def pools_idle_def empty_heap_def newConnPool_def b_ActiveConnections_def NewBackend_def Let_def)
  have "h_nextBackend empty_heap = 0" by (simp add: empty_heap_def)
  then show "checked service_start = [0, 1]"
    by (simp add: main_setup_def service_config_sel buildBackends_def new_pooled_def alloc_backend_def checked_def NewChecker_def pooling_next Let_def case_prod_unfold)
qed (simp_all add: main_setup_def service_config_sel NewTokenBucket_def Let_def case_prod_unfold)

lemma sample_handles: "\<exists>out p g cl'. handleConnection sample_conn st = Some (out, p, g, cl')"
  using handle_returns [of sample_conn st] by (auto simp: sample_conn_def numeral_2_eq_2 numeral_3_eq_3)

lemma sample_in_order [simp]: "in_order s (Connection sample_conn sample_client)"
  using sample_handles by fastforce

lemma round_checked [simp]: "checked (serve l s (HealthRound rd)) = checked s"
  using check_frame [of "rd_now rd" "rd_probe rd" "rd_order rd" "(sl_checker s, gw_heap (sl_gw s))"]
  by (simp add: checkAll_def checked_def case_prod_unfold Let_def)

theorem service_accounts_witness:
  "ActiveConnections (sl_tcp (foldl (serve service_logger) service_start [HealthRound failing_round, Connection sample_conn sample_client])) = 0"
proof -
  have "legal_run (serve service_logger) in_order service_start [HealthRound failing_round, Connection sample_conn sample_client]"
    by (simp add: service_start_sel failing_round_def add_mset_commute del: in_order.simps(1) serve.simps)
  from service_accounts [OF service_start_sel(1) service_config_sel(5) refl this refl] show ?thesis by blast
qed

theorem gateway_rate_limit_witness:
  "of_int (total_in service_logger service_start [Connection sample_conn sample_client]) \<le>
    2 + tb_accrual 0 100 (tb_lastFill (gw_limiter (sl_gw (foldl (serve service_logger) service_start [Connection sample_conn sample_client]))))"
proof -
  have "ce_rnd sample_conn = (\<lambda>x. x)" "ce_limit sample_conn = 0" by (simp_all add: sample_conn_def id_def)
  then have "legal_run (serve service_logger) (on_time (\<lambda>x. x)) service_start [Connection sample_conn sample_client]"
    by (simp add: service_start_sel del: in_order.simps serve.simps)
  from gateway_rate_limit [OF float_rounding_id _ _ _ _ service_start_sel(1) service_config_sel(5) refl this] show ?thesis
    by (simp add: service_config_sel tb_slack_def)
qed

theorem failing_backend_isolated_witness:
  "\<exists>out p g cl'. handleConnection sample_conn (accept_conn (sl_tcp (foldl (serve service_logger) service_start (replicate 3 (HealthRound failing_round)))),
      sl_gw (foldl (serve service_logger) service_start (replicate 3 (HealthRound failing_round))), sample_client) = Some (out, p, g, cl') \<and>
    outcome_backend out \<noteq> Some 0"
proof -
  let ?es = "replicate 3 (HealthRound failing_round)"
  have run: "legal_run (serve service_logger) in_order service_start ?es"
    by (simp add: numeral_3_eq_3 service_start_sel failing_round_def add_mset_commute del: serve.simps)
  have down: "h_UnhealthyThreshold (s_Health (Server service_config)) \<le> int (trailing_failures (results_of 0 ?es))"
    by (simp add: service_config_sel numeral_3_eq_3 failing_round_def trailing_failures_def)
  obtain out p g cl' where h: "handleConnection sample_conn (accept_conn (sl_tcp (foldl (serve service_logger) service_start ?es)),
      sl_gw (foldl (serve service_logger) service_start ?es), sample_client) = Some (out, p, g, cl')" using sample_handles by blast
  have "outcome_backend out \<noteq> Some 0"
    using failing_backend_isolated [OF service_start_sel(1) service_config_sel(5) refl _ _ _ run _ refl down refl] h
    by (force simp: service_config_sel service_start_sel numeral_3_eq_3)
  then show ?thesis using h by blast
qed

theorem registered_service_gets_traffic_witness:
  "\<exists>b. b \<in> set (checked (foldl (serve service_logger) service_start [RegistryCall (OpRegister 5 [0, 2, 3, 4] sample_service), RegistryNotice [''a1'']]))"
proof -
  let ?reg = "reg_New (registry_config service_config)"
  obtain p res reg' where reg: "reg_Register 5 [0, 2, 3, 4] sample_service ?reg = ((p, res), reg')" by (metis surj_pair)
  have "res = Inr ''a1'' \<and> dom (services reg') = {''a1''}"
    using reg by (auto simp: reg_Register_def reg_New_def sample_service_def reg_notify_def registry_config_def service_config_def Let_def
        case_prod_unfold split: if_splits)
  then have "reg_Register 5 [0, 2, 3, 4] sample_service ?reg = ((p, Inr ''a1''), reg')" "iteration_order [''a1''] reg'"
    using reg by (simp_all add: iteration_order_def)
  from registered_service_gets_traffic [where es = "[]" and s = service_start and s0 = service_start and l = service_logger and rnd = "\<lambda>x. x" and t = 0 and t' = 0,
      OF service_start_sel(1) service_config_sel(5) refl _ _ service_start_sel(3) _ this refl]
  show ?thesis by (auto simp del: serve.simps)
qed

end
