(* ===== verification/Spec2Isabelle.thy ===== *)
theory Spec2Isabelle
  imports CircuitBreaker RateLimiter Splitter Router RegistryHandler Health Prometheus Relay HTTPProxy Config AuthMiddleware EchoServer LoadTools Admin Service
begin

text \<open>
  \<^bold>\<open>Sluice, a layer 4 and layer 7 gateway\<close>

  Sluice accepts TCP connections and HTTP requests, selects a backend for each, forwards the traffic, and keeps the set of
  backends current by health checks, by hot reload of its configuration file and by a service registry with an HTTP interface.
  This development models the Go code under \<^verbatim>\<open>src/\<close> component by component, in the order in which the components depend on each other,
  and proves of each what makes it correct. Definitions keep the names of the code, with a prefix where several
  types share a method name (\<open>cb_Allow\<close>, \<open>tb_Allow\<close>) or where HOL has the name already.

  \<^bold>\<open>How the program is read\<close>

  \<^item> A struct is a record, an enumeration or an error a datatype, a map a partial function, a slice a list. Slices are values: where two components share a backing array (the balancer and the health checker), no code that the process runs writes to an element of it. Backends, pools and pooled connections are
    shared by pointer and live in a heap of records (\<open>Backend.heap\<close>).
  \<^item> A method that holds its mutex from entry to return is one atomic function on its state. Code that runs concurrently without one
    lock around it is a step relation, whose steps are the points at which another goroutine can intervene: \<open>conn_step\<close> (connections and pools),
    \<open>life_step\<close> (TCP proxy; \<open>accept_step\<close> is its accept loop, with its context and the deadline of its \<^verbatim>\<open>Accept\<close>), \<open>relay_step\<close> (the two copies of a connection), \<open>watch_step\<close> (watcher of the registry), \<open>table_step\<close> (table of circuit breakers), \<open>load_step\<close> (load generators), and \<open>proc_step\<close>, which runs all of the process.
  \<^item> What the code cannot determine is an argument: readings of the clock, random bytes, the order in which a map is visited, what the network
    delivers. A call that can panic returns a flag or an option.
  \<^item> \<^verbatim>\<open>int\<close> and \<^verbatim>\<open>int64\<close> are integers, except where a width matters: counters of the collector, the round-robin counter and the counters of the load generators are 64-bit
    words, differences of times saturate and \<^verbatim>\<open>time.Unix\<close> wraps as in Go. A \<^verbatim>\<open>float64\<close> is a rational and every operation on it goes through a
    rounding function, an argument with the IEEE properties as hypotheses.

  \<^bold>\<open>The theories\<close>

  \<^item> \<open>Go_Prelude\<close>: times, integer division, hexadecimal, windows of counts; the locale \<open>step_system\<close> of step relations with an invariant, interpreted by every one
    of the relations named above, and the locale \<open>op_system\<close> of systems that run lists of operations, with its lemmas on
    invariants, frames and budgets, interpreted by the breaker, the registry, the router, the HTTP proxy and the gateway in service.
  \<^item> \<open>CircuitBreaker\<close> (\<^verbatim>\<open>internal/circuitbreaker\<close>): refines the documented four-transition machine; caps the probes of one half-open period, and when more than that are in flight.
  \<^item> \<open>RateLimiter\<close> (\<^verbatim>\<open>internal/ratelimiter\<close>): the token bucket; tokens granted over any stretch of calls, at any point in the life of a bucket, are bounded by burst and rate, up to a stated rounding slack.
  \<^item> \<open>Backend\<close> (\<^verbatim>\<open>internal/backend\<close>): health, counters and the connection pool; a pooled connection is open, unused, not half-closed and in one slot, under every interleaving; the
    active count is the number of connections in use.
  \<^item> \<open>LoadBalancer\<close> (\<^verbatim>\<open>internal/loadbalancer\<close>): the three balancers behind the locale \<open>load_balancer\<close>, interpreted on each and on the interface value; fairness of round robin, the exact cycle of the
    smooth weighted variant, minimality of least connections, errors.
  \<^item> \<open>Router\<close>, \<open>Splitter\<close> (\<^verbatim>\<open>internal/router\<close>, \<^verbatim>\<open>internal/splitter\<close>): the route list is the stable sort by specificity and \<open>Match\<close> finds a most specific route;
    a target is chosen by exactly its weight many values of the random source.
  \<^item> \<open>Http\<close>: headers, the response writer of \<^verbatim>\<open>net/http\<close> with the wrappers of the middleware, handlers as functions on a configuration of writer, request and world.
  \<^item> \<open>Registry\<close>, \<open>RegistryHandler\<close> (\<^verbatim>\<open>internal/registry\<close>): entries, subscriptions, expiry, the HTTP interface; invariants of every run, exactness of the clean-up, the watcher is in step although
    events are dropped (and what it misses by subscribing late), what is posted can be read.
  \<^item> \<open>Health\<close> (\<^verbatim>\<open>internal/health\<close>): probes and rounds; a backend is out of rotation exactly after its threshold of consecutive failures, whatever the order of concurrent checks and whatever the threshold of successes.
  \<^item> \<open>Metrics\<close>, \<open>Prometheus\<close>, \<open>Observability\<close>: the collector refines its log; the export is well-formed line by line and its histogram cumulative; request IDs, traces and log entries.
  \<^item> \<open>Gateway\<close>, \<open>TCPProxy\<close>, \<open>HTTPProxy\<close> (\<^verbatim>\<open>internal/proxy\<close>): what the two proxies share, and each of them from the accepted connection or request to its end; every path restores the counters,
    reports to the breaker once, closes what it opened; copying is faithful; the life cycle of the TCP proxy is safe: once \<^verbatim>\<open>Stop\<close> has returned with its wait group at zero nothing of it ever runs again.
  \<^item> \<open>Relay\<close> (\<^verbatim>\<open>handleConnection\<close> and \<^verbatim>\<open>copyWithHalfCloseAndCount\<close>): both copies of a connection at once, with the bytes in the socket buffers and the peers at both ends; they cannot deadlock and come to an end. The locale
    \<open>half_closing\<close> states what a half-close promises; it is interpreted on the socket of the client and on the pooled connection.
  \<^item> \<open>BreakerTable\<close> (\<^verbatim>\<open>getCircuitBreaker\<close> of both proxies): the double-checked table of breakers, shared by pointer between concurrent requests; every interleaving has the
    results of a sequential one, so all requests to an address share one breaker.
  \<^item> \<open>Middleware\<close> (\<^verbatim>\<open>internal/middleware\<close>): the chain and each of its members.
  \<^item> \<open>Base64\<close>, \<open>Json\<close>, \<open>Jwt\<close>, \<open>AuthMiddleware\<close> (\<^verbatim>\<open>internal/auth\<close>, \<^verbatim>\<open>internal/middleware/auth.go\<close>): tokens down to their bytes; exactly which tokens are accepted, a signed token validates, nobody passes the middleware
    without one. \<open>Json\<close> holds a parser and a printer of the documents that the program reads and writes, and that printing is inverted by parsing.
  \<^item> \<open>Config\<close> (\<^verbatim>\<open>internal/config\<close>): the schema, defaults, \<open>Load\<close> and \<open>Validate\<close>.
  \<^item> \<open>Sluice\<close> (\<^verbatim>\<open>cmd/sluice/main.go\<close>): what \<^verbatim>\<open>main\<close> builds from a configuration, the handler of the HTTP listener, hot reload and registry events; set-up serves, reloads install exactly the configured backends.
  \<^item> \<open>Process\<close>: the life of the process, \<open>proc_step\<close>: start-up, the goroutines beside \<^verbatim>\<open>main\<close>, shutdown; how it can end and what is stopped then, that a shutdown ends after a bounded number of steps of its own whatever else happens, and that the shutdown with a registry races with a crash.
  \<^item> \<open>Admin\<close>: the admin endpoints, the mount of the registry, the loop of the file watcher; \<^verbatim>\<open>/backends\<close> reads back, the last change of the file is loaded.
  \<^item> \<open>Service\<close>: the gateway in service, a run of connections, requests, checks, reloads and registry events; its accounts stay right, the rate limit holds over both listeners together,
    a failing backend is isolated, a registered service gets its share of the traffic.
  \<^item> \<open>EchoServer\<close>, \<open>LoadTools\<close> (\<^verbatim>\<open>scripts\<close>): the echo servers as clients of the registry, whose heartbeats keep them registered; the load generators, whose figures add up.

  \<^bold>\<open>How they interact\<close>

  A connection takes a token from the limiter, a backend from the balancer, the leave of the breaker of its address and a connection from the backend, and reports
  to breaker and collector; both proxies share these objects through the record \<open>gateway\<close>. Health checks, reload and registry events change the heap and the list of the balancer between requests. \<open>Sluice\<close> composes them for one event,
  \<open>Service\<close> for a sequence of events, \<open>Process\<close> for the life of the process. The theorems of a composed part rest on the lemmas of the parts: \<open>balanced\<close> and \<open>sound\<close> (interpretations of \<open>breaker_property\<close>) carry the breakers through both proxies, the locale \<open>world_relation\<close> (interpreted as \<open>kept\<close> and \<open>limiter_used\<close>) carries relations on the shared objects through every handler, the locale \<open>gateway_condition\<close> (interpreted as \<open>choice\<close> and \<open>refused\<close>) what a condition on the gateway says of the reply of the whole chain, \<open>lb\<close> the balancers through set-up,
  \<open>reg\<close> the registry through \<open>proc_step\<close> and the heartbeats.

  \<^bold>\<open>Bounds\<close>

  Loops over data are structural recursion. The JSON parser takes a bound of twice the length of the document plus two, which \<open>json_bound\<close> shows to be enough: any larger bound gives the same result; the nesting depth of ten thousand is that of
  \<^verbatim>\<open>encoding/json\<close>. Loops that wait for the environment (\<open>CopyBuffer\<close>, \<open>register\<close>) run over the list of what it delivers and give \<open>None\<close> while they still wait; that they return is a theorem of its own. The measures \<open>accept_work\<close> (at most 8), \<open>relay_work\<close> and \<open>work\<close> (at most 140) count the steps that an accept loop, the
  copies of a connection and a shutdown have left; the theorems show both that a step is possible and that each one lowers the measure.

  \<^bold>\<open>Not modelled\<close>

  \<^item> Cryptography: HMAC, SHA-256 and RSA verification are arbitrary functions; no theorem says that a signature cannot be forged.
  \<^item> YAML and the file system, \<^verbatim>\<open>fsnotify\<close>, DNS, sockets and the HTTP client and server of Go: their outcomes are arguments, with what the code relies on written at the definition that uses it.
  \<^item> Formatting of floats and times, texts of wrapped errors, stack traces, command line flags, progress lines of the tools.
  \<^item> Accessors that only hand out an object of a library (\<^verbatim>\<open>Ready\<close>, \<^verbatim>\<open>Done\<close>, \<^verbatim>\<open>Addr\<close> of the TCP proxy, \<^verbatim>\<open>httpClient\<close>, \<^verbatim>\<open>Unwrap\<close>), and the goroutines around \<^verbatim>\<open>ListenAndServe\<close> beyond their outcomes.
  \<^item> The two calls of \<^verbatim>\<open>UpdateBackends\<close>, on the balancer and on the checker, by which a reload or a registry event installs a list are one step in \<open>Service\<close>; each of them is atomic in the code.
  \<^item> Weights, their sums and the current weights of the smooth balancer are integers; in the code they could only wrap for weights near \<open>2\<^sup>6\<^sup>3\<close>.
  \<^item> Header names are compared without regard to case for ASCII letters only; the deadline of a context and that of a socket are one error; the two records a worker of the load generators makes of one result are one step.
  \<^item> In \<open>Relay\<close> both ends are TCP sockets, a FIN arrives, and a peer goes on taking what it is sent.
  \<^item> Event counters other than those named above do not wrap; they differ from the code only after \<open>2\<^sup>6\<^sup>3\<close> events.
  \<^item> Lock-free reads of a health flag or a counter between two steps are taken at one of the steps.

  \<^bold>\<open>What the model showed\<close>

  Most components do what they say. Where the code and its documentation part, a theorem states what the code does: among others \<open>shutdown_crash\<close> and \<open>negative_interval_crashes\<close> (\<open>Process\<close>), \<open>late_result_exceeds_cap\<close> and \<open>abandoned_probes_exceed_cap\<close> (\<open>CircuitBreaker\<close>),
  \<open>ejected_after_threshold\<close> and \<open>restart_panics\<close> (\<open>Health\<close>), \<open>early_registration_missed\<close> (\<open>Registry\<close>), \<open>reload_and_registry_conflict\<close> and \<open>l7_request_counted_twice\<close> (\<open>Sluice\<close>), \<open>l4_pool_never_used\<close> (\<open>TCPProxy\<close>), \<open>server_errors_never_trip\<close> (\<open>HTTPProxy\<close>),
  \<open>far_expiry_wraps\<close> and \<open>claim_name_case\<close> (\<open>Jwt\<close>), \<open>rejected_beats_go_on\<close> and \<open>same_id_takes_over\<close> (\<open>EchoServer\<close>).
\<close>

end
